theory Spec2Isabelle
  imports Main "HOL-Library.Multiset" "HOL-Library.Sublist"
begin

section \<open>Go slices over an explicit store\<close>

text \<open>
  \<^verbatim>\<open>loadbalance.go\<close> keeps the members of a pool in a Go slice \<^verbatim>\<open>[]string\<close> and edits
  it with \<^verbatim>\<open>append\<close>, \<^verbatim>\<open>copy\<close> and reslicing, all of which share backing arrays.
  The store maps an address (the position in the list) to a backing array; arrays are
  never freed and never change their length. A slice header is nil, or an array
  address with an offset, a length and a capacity (counted from the offset).
\<close>

type_synonym addr = nat
type_synonym store = "string list list"

datatype slice = NilSlice | Slice addr nat nat nat

fun len_s :: "slice \<Rightarrow> nat" where
  "len_s NilSlice = 0"
| "len_s (Slice a off n c) = n"

fun cap_s :: "slice \<Rightarrow> nat" where
  "cap_s NilSlice = 0"
| "cap_s (Slice a off n c) = c"

fun elems :: "store \<Rightarrow> slice \<Rightarrow> string list" where
  "elems h NilSlice = []"
| "elems h (Slice a off n c) = take n (drop off (h ! a))"

text \<open>Type safety of Go: a slice header always lies inside an allocated array.\<close>

fun valid :: "store \<Rightarrow> slice \<Rightarrow> bool" where
  "valid h NilSlice = True"
| "valid h (Slice a off n c) = (a < length h \<and> n \<le> c \<and> off + c \<le> length (h ! a))"

text \<open>\<^verbatim>\<open>s[i]\<close>: an index outside \<^verbatim>\<open>0 <= i < len(s)\<close> panics (\<open>None\<close>).\<close>

fun index_s :: "store \<Rightarrow> slice \<Rightarrow> nat \<Rightarrow> string option" where
  "index_s h NilSlice i = None"
| "index_s h (Slice a off n c) i = (if i < n then Some (h ! a ! (off + i)) else None)"

text \<open>\<^verbatim>\<open>s[:j]\<close> needs \<^verbatim>\<open>j <= cap(s)\<close> and \<^verbatim>\<open>s[i:]\<close> needs \<^verbatim>\<open>i <= len(s)\<close>; otherwise
  the runtime panics (\<open>None\<close>).\<close>

fun slice_to :: "slice \<Rightarrow> nat \<Rightarrow> slice option" where
  "slice_to NilSlice j = (if j = 0 then Some NilSlice else None)"
| "slice_to (Slice a off n c) j = (if j \<le> c then Some (Slice a off j c) else None)"

fun slice_from :: "slice \<Rightarrow> nat \<Rightarrow> slice option" where
  "slice_from NilSlice i = (if i = 0 then Some NilSlice else None)"
| "slice_from (Slice a off n c) i =
     (if i \<le> n then Some (Slice a (off + i) (n - i) (c - i)) else None)"

text \<open>\<^verbatim>\<open>make([]string, n)\<close>: a fresh array of \<open>n\<close> empty strings.\<close>

definition make_s :: "store \<Rightarrow> nat \<Rightarrow> store \<times> slice" where
  "make_s h n = (h @ [replicate n []], Slice (length h) 0 n n)"

text \<open>\<^verbatim>\<open>copy(dst, src)\<close> writes \<^verbatim>\<open>min(len(dst), len(src))\<close> elements and returns that
  number.\<close>

fun copy_s :: "store \<Rightarrow> slice \<Rightarrow> slice \<Rightarrow> store \<times> nat" where
  "copy_s h NilSlice src = (h, 0)"
| "copy_s h (Slice a off n c) src =
     (let vs = take n (elems h src)
      in (h[a := take off (h ! a) @ vs @ drop (off + length vs) (h ! a)], length vs))"

text \<open>
  \<^verbatim>\<open>append(s, vs...)\<close>. The appended values are read before anything is written (the
  runtime moves memory as \<^verbatim>\<open>memmove\<close> does), so they are passed as values. When the
  capacity suffices the backing array of \<open>s\<close> is overwritten in place; otherwise a
  fresh array is allocated. How much spare capacity the runtime adds is its own
  business: \<open>grow\<close> is that policy (old capacity, needed length), and the new capacity
  is never below the needed length. Appending nothing to nil gives nil.
\<close>

definition append_s :: "(nat \<Rightarrow> nat \<Rightarrow> nat) \<Rightarrow> store \<Rightarrow> slice \<Rightarrow> string list \<Rightarrow> store \<times> slice" where
  "append_s grow h s vs =
     (let n = len_s s; need = n + length vs
      in if need \<le> cap_s s then
           (case s of
              NilSlice \<Rightarrow> (h, NilSlice)
            | Slice a off m c \<Rightarrow>
                (h[a := take (off + n) (h ! a) @ vs @ drop (off + need) (h ! a)],
                 Slice a off need c))
         else
           (let c' = max need (grow (cap_s s) need)
            in (h @ [elems h s @ vs @ replicate (c' - need) []], Slice (length h) 0 need c')))"

section \<open>The pool: \<^verbatim>\<open>randomLB\<close>\<close>

text \<open>
  \<^verbatim>\<open>type randomLB struct { sync.Mutex; Api []string; Size int }\<close>. Every method takes
  the mutex for its whole body, so a method is one atomic state transformer on the
  store and the struct. \<^verbatim>\<open>Size\<close> only ever receives a \<^verbatim>\<open>len(...)\<close>, hence a natural number.
\<close>

record randomLB =
  Api :: slice
  Size :: nat

definition newRandomLB :: "slice \<Rightarrow> randomLB" where
  "newRandomLB apis = \<lparr>Api = apis, Size = len_s apis\<rparr>"

text \<open>
  \<^verbatim>\<open>Pick\<close>. \<^verbatim>\<open>fastrand.Intn(n)\<close> belongs to an external library; \<open>intn\<close> stands for it.
  The result is \<open>None\<close> when the index expression panics.
\<close>

definition randomLB_Pick :: "(nat \<Rightarrow> nat) \<Rightarrow> store \<Rightarrow> randomLB \<Rightarrow> string option" where
  "randomLB_Pick intn h b =
     (if Size b = 0 then Some []
      else if Size b = 1 then index_s h (Api b) 0
      else index_s h (Api b) (intn (Size b)))"

definition randomLB_list :: "store \<Rightarrow> randomLB \<Rightarrow> store \<times> slice" where
  "randomLB_list h b =
     (if Size b = 0 then (h, NilSlice)
      else (let (h1, out) = make_s h (Size b);
                (h2, k) = copy_s h1 out (Api b)
            in (h2, out)))"

definition randomLB_ReBalance :: "store \<Rightarrow> randomLB \<Rightarrow> slice \<Rightarrow> store \<times> randomLB" where
  "randomLB_ReBalance h b apis = (h, \<lparr>Api = apis, Size = len_s apis\<rparr>)"

text \<open>\<^verbatim>\<open>Add(api ...string)\<close>: the variadic arguments are only read.\<close>

definition randomLB_Add :: "(nat \<Rightarrow> nat \<Rightarrow> nat) \<Rightarrow> store \<Rightarrow> randomLB \<Rightarrow> string list \<Rightarrow> store \<times> randomLB" where
  "randomLB_Add grow h b api =
     (let (h', s) = append_s grow h (Api b) api
      in (h', \<lparr>Api = s, Size = len_s s\<rparr>))"

text \<open>
  The search loop \<^verbatim>\<open>for i, s := range xs { if s == x { ...; break } }\<close>, used by
  \<^verbatim>\<open>Remove\<close> and again by the dispatcher: the index of the first element equal to
  \<open>x\<close>, counting from \<open>i\<close>.
\<close>

fun first_index :: "string list \<Rightarrow> string \<Rightarrow> nat \<Rightarrow> nat option" where
  "first_index [] x i = None"
| "first_index (s # ss) x i = (if s = x then Some i else first_index ss x (Suc i))"

text \<open>
  \<^verbatim>\<open>Remove\<close>: at the first match, \<^verbatim>\<open>b.Api = append(b.Api[:i], b.Api[i+1:]...)\<close>, then
  \<^verbatim>\<open>b.Size = len(b.Api)\<close> in every case. \<open>None\<close> is a panic of a slice expression.
\<close>

definition randomLB_Remove :: "(nat \<Rightarrow> nat \<Rightarrow> nat) \<Rightarrow> store \<Rightarrow> randomLB \<Rightarrow> string \<Rightarrow> (store \<times> randomLB) option" where
  "randomLB_Remove grow h b api =
     (case first_index (elems h (Api b)) api 0 of
        None \<Rightarrow> Some (h, b\<lparr>Size := len_s (Api b)\<rparr>)
      | Some i \<Rightarrow>
          (case slice_to (Api b) i of
             None \<Rightarrow> None
           | Some lo \<Rightarrow>
               (case slice_from (Api b) (i + 1) of
                  None \<Rightarrow> None
                | Some hi \<Rightarrow>
                    (let (h', s) = append_s grow h lo (elems h hi)
                     in Some (h', \<lparr>Api = s, Size = len_s s\<rparr>)))))"

definition randomLB_isAvailable :: "randomLB \<Rightarrow> bool" where
  "randomLB_isAvailable b = (Size b \<noteq> 0)"

text \<open>The invariant of the struct: the cached count is the length of the slice.\<close>

definition lb_inv :: "randomLB \<Rightarrow> bool" where
  "lb_inv b = (Size b = len_s (Api b))"

section \<open>The two pools: \<^verbatim>\<open>LoadBalance\<close>\<close>

text \<open>
  \<^verbatim>\<open>type LoadBalance struct { zfLB, oauthLB *randomLB }\<close>; a nil pointer is \<open>None\<close>.
  \<^verbatim>\<open>funnelApi.LoginType\<close> is a string type (the dispatcher converts a form value to
  it); the value of the constant \<^verbatim>\<open>funnelApi.Oauth\<close> is declared outside these files
  and is the parameter \<open>oauth\<close>.
\<close>

type_synonym LoginType = string

record LoadBalance =
  zfLB :: "randomLB option"
  oauthLB :: "randomLB option"

definition LoadBalance_List :: "LoginType \<Rightarrow> store \<Rightarrow> LoadBalance \<Rightarrow> LoginType \<Rightarrow> store \<times> slice" where
  "LoadBalance_List oauth h lb loginType =
     (if loginType = oauth then
        (case oauthLB lb of None \<Rightarrow> (h, NilSlice) | Some b \<Rightarrow> randomLB_list h b)
      else
        (case zfLB lb of None \<Rightarrow> (h, NilSlice) | Some b \<Rightarrow> randomLB_list h b))"

section \<open>Callers of a pool\<close>

text \<open>The backing array a slice header points into, if any.\<close>

fun base :: "slice \<Rightarrow> addr option" where
  "base NilSlice = None"
| "base (Slice a off n c) = Some a"

text \<open>
  What a client can do to a pool after it has obtained a snapshot: any sequence of the
  three mutators. A step is \<open>None\<close> when the method panics.
\<close>

datatype pool_op = OpAdd "string list" | OpRemove string | OpReBalance slice

fun apply_op :: "(nat \<Rightarrow> nat \<Rightarrow> nat) \<Rightarrow> pool_op \<Rightarrow> store \<times> randomLB \<Rightarrow> (store \<times> randomLB) option" where
  "apply_op grow (OpAdd api) (h, b) = Some (randomLB_Add grow h b api)"
| "apply_op grow (OpRemove api) (h, b) = randomLB_Remove grow h b api"
| "apply_op grow (OpReBalance apis) (h, b) = Some (randomLB_ReBalance h b apis)"

fun apply_ops :: "(nat \<Rightarrow> nat \<Rightarrow> nat) \<Rightarrow> pool_op list \<Rightarrow> store \<times> randomLB \<Rightarrow> (store \<times> randomLB) option" where
  "apply_ops grow [] st = Some st"
| "apply_ops grow (p # ps) st =
     (case apply_op grow p st of None \<Rightarrow> None | Some st' \<Rightarrow> apply_ops grow ps st')"

text \<open>
  \<^verbatim>\<open>ReBalance(apis)\<close> stores the caller's slice header itself. The argument must be a
  slice of the store, and a caller that wants its snapshot left alone does not hand
  that very snapshot back to the pool.
\<close>

fun arg_ok :: "store \<Rightarrow> slice \<Rightarrow> pool_op \<Rightarrow> bool" where
  "arg_ok h snap (OpReBalance apis) = (valid h apis \<and> (base apis = None \<or> base apis \<noteq> base snap))"
| "arg_ok h snap p = True"

text \<open>A later store extends an earlier one: no array is freed or resized.\<close>

definition ext :: "store \<Rightarrow> store \<Rightarrow> bool" where
  "ext h h' = (length h \<le> length h' \<and> (\<forall>a<length h. length (h' ! a) = length (h ! a)))"

section \<open>The funnel protocol\<close>

text \<open>
  The dispatcher (\<^verbatim>\<open>FetchHandleOfPost\<close> and \<^verbatim>\<open>singleHostRequest\<close>) exists in two
  revisions, \<^verbatim>\<open>part_000\<close> and \<^verbatim>\<open>part_001\<close>. The later one, \<^verbatim>\<open>part_001\<close>, is modelled
  under the source's names. Where the earlier one differs (the retry loop of
  \<^verbatim>\<open>singleHostRequest\<close>, the reordering of the candidates, the treatment of errors by
  the consumer) its functions are modelled beside it with the suffix \<open>_000\<close>, and its
  dispatcher is put together from them in a section of its own.

  The error values of package \<^verbatim>\<open>apiException\<close> that the dispatcher returns, and
  \<^verbatim>\<open>context.Canceled\<close>. A nil \<^verbatim>\<open>error\<close> is \<open>None\<close>; \<^verbatim>\<open>errors.Is(err, context.Canceled)\<close>
  is equality with \<open>Canceled\<close>.
\<close>

datatype error =
  ServerError | RequestError | NoThatPasswordOrWrong | OAuthNotUpdate | NoApiAvailable | Canceled

abbreviation funnelCodeSuccess :: int where "funnelCodeSuccess \<equiv> 200"
abbreviation funnelCodeInvalidArgs :: int where "funnelCodeInvalidArgs \<equiv> 410"
abbreviation funnelCodeWrongPassword :: int where "funnelCodeWrongPassword \<equiv> 412"
abbreviation funnelCodeCaptchaFailed :: int where "funnelCodeCaptchaFailed \<equiv> 413"
abbreviation funnelCodeSessionExpired :: int where "funnelCodeSessionExpired \<equiv> 414"
abbreviation funnelCodeOauthError :: int where "funnelCodeOauthError \<equiv> 415"
abbreviation funnelCodeOAuthNotUpdate :: int where "funnelCodeOAuthNotUpdate \<equiv> 416"

text \<open>\<^verbatim>\<open>FunnelResponse\<close>; \<^verbatim>\<open>Data interface{}\<close> is \<open>None\<close> when nil.\<close>

record 'd FunnelResponse =
  Code :: int
  Msg :: string
  Data :: "'d option"

definition FunnelResponse_zero :: "'d FunnelResponse" where
  "FunnelResponse_zero = \<lparr>Code = 0, Msg = [], Data = None\<rparr>"

text \<open>\<^verbatim>\<open>url.Values\<close> is \<^verbatim>\<open>map[string][]string\<close>; \<^verbatim>\<open>Get\<close> returns the first value of the
  key, or the empty string.\<close>

type_synonym Values = "string \<Rightarrow> string list option"

definition Values_Get :: "Values \<Rightarrow> string \<Rightarrow> string" where
  "Values_Get v key = (case v key of None \<Rightarrow> [] | Some [] \<Rightarrow> [] | Some (x # xs) \<Rightarrow> x)"

text \<open>
  What lies outside the program. \<^verbatim>\<open>f.PostForm(url, form)\<close> returns the body, or an
  error (\<open>None\<close>); the answer may depend on how many outbound calls the dispatch has
  already made (the first argument). \<^verbatim>\<open>json.Unmarshal(res, &rc)\<close> fills \<^verbatim>\<open>rc\<close> from the
  body, or fails (\<open>None\<close>). Neither is taken to panic.
\<close>

record 'd world =
  PostForm :: "nat \<Rightarrow> string \<Rightarrow> Values \<Rightarrow> string option"
  Unmarshal :: "string \<Rightarrow> 'd FunnelResponse \<Rightarrow> 'd FunnelResponse option"

text \<open>The local \<^verbatim>\<open>type result struct { host string; rc FunnelResponse; err error }\<close>.\<close>

record 'd result =
  res_host :: string
  res_rc :: "'d FunnelResponse"
  res_err :: "error option"

text \<open>
  What a dispatch does that can be seen from outside it, in order: reading the pool
  snapshot (\<^verbatim>\<open>CB.LB.List\<close>), an outbound call to a URL, \<^verbatim>\<open>CB.Fail\<close> and \<^verbatim>\<open>CB.Success\<close> for
  a node and login type, a call of \<^verbatim>\<open>cancel()\<close>, and the consumer receiving a result
  from the channel. The circuit breaker \<^verbatim>\<open>CB\<close> itself is declared outside these files.
\<close>

datatype 'd event =
  LBList LoginType
| Post string
| CBFail string LoginType
| CBSuccess string LoginType
| Cancel
| Recv "'d result"

section \<open>One call to one node: \<^verbatim>\<open>singleHostRequest\<close>\<close>

text \<open>
  \<^verbatim>\<open>part_001\<close>. \<open>ctx_done\<close> says whether \<^verbatim>\<open>ctx.Done()\<close> is closed when the \<^verbatim>\<open>select\<close> runs;
  then \<^verbatim>\<open>ctx.Err()\<close> is \<^verbatim>\<open>context.Canceled\<close>. \<open>k\<close> is the number of outbound calls made before
  this one. The result is the returned pair and the calls made.
\<close>

definition singleHostRequest ::
  "'d world \<Rightarrow> nat \<Rightarrow> bool \<Rightarrow> string \<Rightarrow> string \<Rightarrow> Values \<Rightarrow> ('d FunnelResponse \<times> error option) \<times> 'd event list" where
  "singleHostRequest w k ctx_done host api form =
     (if ctx_done then ((FunnelResponse_zero, Some Canceled), [])
      else
        (case PostForm w k (host @ api) form of
           None \<Rightarrow> ((FunnelResponse_zero, Some RequestError), [Post (host @ api)])
         | Some res \<Rightarrow>
             (case Unmarshal w res FunnelResponse_zero of
                None \<Rightarrow> ((FunnelResponse_zero, Some RequestError), [Post (host @ api)])
              | Some rc \<Rightarrow> ((rc, None), [Post (host @ api)]))))"

text \<open>
  \<^verbatim>\<open>part_000\<close>: \<^verbatim>\<open>for i := 0; i < 5; i++\<close>, leaving the loop at the first code other than
  413. Here the context is asked once per round: \<open>ctx_done i\<close> is its state in round
  \<open>i\<close>. \<^verbatim>\<open>rc\<close> is declared outside the loop, so each round decodes into the value the
  previous round left.
\<close>

fun retry_rounds ::
  "'d world \<Rightarrow> nat \<Rightarrow> (nat \<Rightarrow> bool) \<Rightarrow> string \<Rightarrow> Values \<Rightarrow> 'd FunnelResponse \<Rightarrow> nat list
     \<Rightarrow> ('d FunnelResponse \<times> error option) \<times> 'd event list" where
  "retry_rounds w k ctx_done url form rc [] = ((rc, None), [])"
| "retry_rounds w k ctx_done url form rc (i # rounds) =
     (if ctx_done i then ((FunnelResponse_zero, Some Canceled), [])
      else
        (case PostForm w k url form of
           None \<Rightarrow> ((FunnelResponse_zero, Some RequestError), [Post url])
         | Some res \<Rightarrow>
             (case Unmarshal w res rc of
                None \<Rightarrow> ((FunnelResponse_zero, Some RequestError), [Post url])
              | Some rc' \<Rightarrow>
                  if Code rc' \<noteq> 413 then ((rc', None), [Post url])
                  else (case retry_rounds w (k + 1) ctx_done url form rc' rounds of
                          (r, tr) \<Rightarrow> (r, Post url # tr)))))"

definition singleHostRequest_000 ::
  "'d world \<Rightarrow> nat \<Rightarrow> (nat \<Rightarrow> bool) \<Rightarrow> string \<Rightarrow> string \<Rightarrow> Values \<Rightarrow> ('d FunnelResponse \<times> error option) \<times> 'd event list" where
  "singleHostRequest_000 w k ctx_done host api form =
     retry_rounds w k ctx_done (host @ api) form FunnelResponse_zero [0..<5]"

text \<open>The number of outbound calls in a trace.\<close>

fun is_Post :: "'d event \<Rightarrow> bool" where
  "is_Post (Post url) = True"
| "is_Post e = False"

definition count_posts :: "'d event list \<Rightarrow> nat" where
  "count_posts tr = length (filter is_Post tr)"

section \<open>The candidates of a hedged dispatch\<close>

text \<open>
  \<^verbatim>\<open>part_001\<close>, on the private copy that \<^verbatim>\<open>List\<close> returned: a preferred host that is not
  in the snapshot is put in front; one found at \<^verbatim>\<open>idx > 0\<close> is swapped with the first
  element. (\<^verbatim>\<open>idx\<close> comes from the search, so both positions exist.)
\<close>

definition candidates :: "string \<Rightarrow> string list \<Rightarrow> string list" where
  "candidates host hosts =
     (if host \<noteq> [] then
        (case first_index hosts host 0 of
           None \<Rightarrow> host # hosts
         | Some idx \<Rightarrow> if idx > 0 then hosts[0 := hosts ! idx, idx := hosts ! 0] else hosts)
      else hosts)"

text \<open>\<^verbatim>\<open>part_000\<close>:
  \<^verbatim>\<open>hosts = append([]string{host}, append(hosts[:idx], hosts[idx+1:]...)...)\<close>.\<close>

definition candidates_000 :: "string \<Rightarrow> string list \<Rightarrow> string list" where
  "candidates_000 host hosts =
     (if host \<noteq> [] then
        (case first_index hosts host 0 of
           None \<Rightarrow> host # hosts
         | Some idx \<Rightarrow> if idx > 0 then host # (take idx hosts @ drop (idx + 1) hosts) else hosts)
      else hosts)"

section \<open>The consumer of a hedged dispatch\<close>

text \<open>
  The body of \<^verbatim>\<open>for r := range resultCh\<close> in \<^verbatim>\<open>part_001\<close>, for one received result and
  the current \<^verbatim>\<open>firstErr\<close>: the loop goes on with a new \<^verbatim>\<open>firstErr\<close>, or the function
  returns. With it, the calls it makes, in order.
\<close>

datatype 'd ctl = Continue "error option" | Return "'d option" "error option"

definition on_result :: "LoginType \<Rightarrow> 'd result \<Rightarrow> error option \<Rightarrow> 'd ctl \<times> 'd event list" where
  "on_result loginType r firstErr =
     (case res_err r of
        Some e \<Rightarrow>
          if e = Canceled then (Continue firstErr, [])
          else (Continue (if firstErr = None then Some ServerError else firstErr),
                [CBFail (res_host r) loginType])
      | None \<Rightarrow>
          if Code (res_rc r) = funnelCodeSuccess then
            (Return (Data (res_rc r)) None, [CBSuccess (res_host r) loginType, Cancel])
          else if Code (res_rc r) = funnelCodeWrongPassword then
            (Return None (Some NoThatPasswordOrWrong), [CBSuccess (res_host r) loginType, Cancel])
          else if Code (res_rc r) = funnelCodeOAuthNotUpdate then
            (Return None (Some OAuthNotUpdate), [CBSuccess (res_host r) loginType, Cancel])
          else (Continue (if firstErr = None then Some ServerError else firstErr),
                [CBFail (res_host r) loginType]))"

text \<open>\<^verbatim>\<open>part_000\<close>: every error, a cancelled context included, counts against the node
  (\<^verbatim>\<open>case 413\<close> and \<^verbatim>\<open>default\<close> have the same body).\<close>

definition on_result_000 :: "LoginType \<Rightarrow> 'd result \<Rightarrow> error option \<Rightarrow> 'd ctl \<times> 'd event list" where
  "on_result_000 loginType r firstErr =
     (case res_err r of
        Some e \<Rightarrow>
          (Continue (if firstErr = None then Some ServerError else firstErr),
           [CBFail (res_host r) loginType])
      | None \<Rightarrow>
          if Code (res_rc r) = 200 then
            (Return (Data (res_rc r)) None, [CBSuccess (res_host r) loginType, Cancel])
          else if Code (res_rc r) = 412 then
            (Return None (Some NoThatPasswordOrWrong), [CBSuccess (res_host r) loginType, Cancel])
          else if Code (res_rc r) = 416 then
            (Return None (Some OAuthNotUpdate), [CBSuccess (res_host r) loginType, Cancel])
          else if Code (res_rc r) = 413 then
            (Continue (if firstErr = None then Some ServerError else firstErr),
             [CBFail (res_host r) loginType])
          else (Continue (if firstErr = None then Some ServerError else firstErr),
                [CBFail (res_host r) loginType]))"

text \<open>
  The loop over the results the channel delivers, in the order it delivers them:
  where the loop stands afterwards, the calls made, and the results not received.
\<close>

fun drain :: "LoginType \<Rightarrow> error option \<Rightarrow> 'd result list \<Rightarrow> 'd ctl \<times> 'd event list \<times> 'd result list" where
  "drain loginType firstErr [] = (Continue firstErr, [], [])"
| "drain loginType firstErr (r # rs) =
     (case on_result loginType r firstErr of
        (Continue firstErr', ev) \<Rightarrow>
          (case drain loginType firstErr' rs of (c, ev', rest) \<Rightarrow> (c, ev @ ev', rest))
      | (Return d e, ev) \<Rightarrow> (Return d e, ev, rs))"

text \<open>
  The loop with \<^verbatim>\<open>var firstErr error\<close> before it and, when the channel is closed with
  nothing more to receive, the statements after it:
  \<^verbatim>\<open>if firstErr == nil { firstErr = apiException.ServerError }; return nil, firstErr\<close>.
\<close>

definition after_loop :: "error option \<Rightarrow> 'd option \<times> error option" where
  "after_loop firstErr = (None, Some (case firstErr of None \<Rightarrow> ServerError | Some e \<Rightarrow> e))"

definition range_resultCh ::
  "LoginType \<Rightarrow> 'd result list \<Rightarrow> ('d option \<times> error option) \<times> 'd event list \<times> 'd result list" where
  "range_resultCh loginType rs =
     (case drain loginType None rs of
        (Continue firstErr, ev, rest) \<Rightarrow> (after_loop firstErr, ev, rest)
      | (Return d e, ev, rest) \<Rightarrow> ((d, e), ev, rest))"

text \<open>A result ends the race when it carries no error and its code is 200, 412 or 416.
  (A result with an error carries the zero envelope, whose code is 0.)\<close>

definition terminal :: "'d result \<Rightarrow> bool" where
  "terminal r =
     (res_err r = None \<and>
      (Code (res_rc r) = funnelCodeSuccess \<or> Code (res_rc r) = funnelCodeWrongPassword
       \<or> Code (res_rc r) = funnelCodeOAuthNotUpdate))"

text \<open>What the caller gets from a terminal result.\<close>

definition verdict :: "'d result \<Rightarrow> 'd option \<times> error option" where
  "verdict r =
     (if Code (res_rc r) = funnelCodeSuccess then (Data (res_rc r), None)
      else if Code (res_rc r) = funnelCodeWrongPassword then (None, Some NoThatPasswordOrWrong)
      else (None, Some OAuthNotUpdate))"

section \<open>The race\<close>

text \<open>
  A hedged dispatch starts one goroutine per candidate and then consumes the channel.
  The goroutines and the consumer interleave; an interleaving is a list of actions, and
  running it is a function of the state. A goroutine is at one of these points:
  started; past its own \<^verbatim>\<open>select\<close> and about to call \<^verbatim>\<open>singleHostRequest\<close>; inside it, past
  its \<^verbatim>\<open>select\<close> and about to post; holding the pair it got, at the last \<^verbatim>\<open>select\<close>; gone.
\<close>

datatype 'd worker =
  Spawned | Entered | Posting | Holding "'d FunnelResponse" "error option" | Exited

datatype 'd consumer = Ranging "error option" | Returned "'d option" "error option"

record 'd hedge =
  workers :: "'d worker list"
  resultCh :: "'d result list"
  ctx_done :: bool
  consumer :: "'d consumer"
  trace :: "'d event list"

record 'd hedge_cfg =
  cfg_world :: "'d world"
  cfg_hosts :: "string list"
  cfg_loginType :: LoginType
  cfg_api :: string
  cfg_form :: Values

text \<open>
  \<open>Step i\<close>: goroutine \<open>i\<close> runs to its next point; at the last \<^verbatim>\<open>select\<close> it sends (the
  channel has room for every candidate, so the send case is always ready).
  \<open>Discard i\<close>: at the last \<^verbatim>\<open>select\<close> goroutine \<open>i\<close> takes the \<^verbatim>\<open>ctx.Done()\<close> case, which is
  ready only once the context is cancelled. \<open>Consume\<close>: the consumer receives the next
  result, or finds the channel closed and empty (every goroutine gone) and leaves the
  loop; it waits otherwise. An action that is not ready leaves the state as it is.
\<close>

datatype action = Step nat | Discard nat | Consume

definition worker_step :: "'d hedge_cfg \<Rightarrow> nat \<Rightarrow> 'd hedge \<Rightarrow> 'd hedge" where
  "worker_step c i s =
     (if i < length (workers s) then
        (case workers s ! i of
           Spawned \<Rightarrow> s\<lparr>workers := (workers s)[i := (if ctx_done s then Exited else Entered)]\<rparr>
         | Entered \<Rightarrow>
             (if ctx_done s then
                (case singleHostRequest (cfg_world c) (count_posts (trace s)) True
                        (cfg_hosts c ! i) (cfg_api c) (cfg_form c) of
                   ((rc, err), tr) \<Rightarrow>
                     s\<lparr>workers := (workers s)[i := Holding rc err], trace := trace s @ tr\<rparr>)
              else s\<lparr>workers := (workers s)[i := Posting]\<rparr>)
         | Posting \<Rightarrow>
             (case singleHostRequest (cfg_world c) (count_posts (trace s)) False
                     (cfg_hosts c ! i) (cfg_api c) (cfg_form c) of
                ((rc, err), tr) \<Rightarrow>
                  s\<lparr>workers := (workers s)[i := Holding rc err], trace := trace s @ tr\<rparr>)
         | Holding rc err \<Rightarrow>
             s\<lparr>workers := (workers s)[i := Exited],
               resultCh := resultCh s @ [\<lparr>res_host = cfg_hosts c ! i, res_rc = rc, res_err = err\<rparr>]\<rparr>
         | Exited \<Rightarrow> s)
      else s)"

definition discard_step :: "nat \<Rightarrow> 'd hedge \<Rightarrow> 'd hedge" where
  "discard_step i s =
     (if i < length (workers s) \<and> ctx_done s then
        (case workers s ! i of
           Holding rc err \<Rightarrow> s\<lparr>workers := (workers s)[i := Exited]\<rparr>
         | _ \<Rightarrow> s)
      else s)"

text \<open>
  The consumer. Returning from a result runs the \<^verbatim>\<open>cancel()\<close> of that branch; every
  return runs the deferred \<^verbatim>\<open>cancel()\<close>, which is in the trace as well.
\<close>

definition consumer_step :: "'d hedge_cfg \<Rightarrow> 'd hedge \<Rightarrow> 'd hedge" where
  "consumer_step c s =
     (case consumer s of
        Returned d e \<Rightarrow> s
      | Ranging firstErr \<Rightarrow>
          (case resultCh s of
             r # rest \<Rightarrow>
               (case on_result (cfg_loginType c) r firstErr of
                  (Continue firstErr', ev) \<Rightarrow>
                    s\<lparr>resultCh := rest, consumer := Ranging firstErr',
                      trace := trace s @ Recv r # ev\<rparr>
                | (Return d e, ev) \<Rightarrow>
                    s\<lparr>resultCh := rest, consumer := Returned d e, ctx_done := True,
                      trace := trace s @ Recv r # ev @ [Cancel]\<rparr>)
           | [] \<Rightarrow>
               if list_all (\<lambda>w. w = Exited) (workers s) then
                 (case after_loop firstErr of
                    (d, e) \<Rightarrow> s\<lparr>consumer := Returned d e, ctx_done := True,
                                 trace := trace s @ [Cancel]\<rparr>)
               else s))"

fun step :: "'d hedge_cfg \<Rightarrow> action \<Rightarrow> 'd hedge \<Rightarrow> 'd hedge" where
  "step c (Step i) s = worker_step c i s"
| "step c (Discard i) s = discard_step i s"
| "step c Consume s = consumer_step c s"

fun run :: "'d hedge_cfg \<Rightarrow> action list \<Rightarrow> 'd hedge \<Rightarrow> 'd hedge" where
  "run c [] s = s"
| "run c (a # sched) s = run c sched (step c a s)"

definition init :: "'d hedge_cfg \<Rightarrow> 'd hedge" where
  "init c = \<lparr>workers = replicate (length (cfg_hosts c)) Spawned, resultCh = [],
             ctx_done = False, consumer = Ranging None, trace = []\<rparr>"

text \<open>What the caller has got: nothing while the consumer is still in its loop.\<close>

fun returned :: "'d consumer \<Rightarrow> ('d option \<times> error option) option" where
  "returned (Ranging firstErr) = None"
| "returned (Returned d e) = Some (d, e)"

section \<open>The dispatcher: \<^verbatim>\<open>FetchHandleOfPost\<close>\<close>

text \<open>
  The surroundings of a dispatch: the outside world, the store, the pools behind
  \<^verbatim>\<open>circuitBreaker.CB.LB\<close>, and the constant \<^verbatim>\<open>funnelApi.Oauth\<close>.
\<close>

record 'd env =
  env_world :: "'d world"
  env_store :: store
  env_LB :: LoadBalance
  env_oauth :: LoginType

text \<open>
  \<^verbatim>\<open>part_001\<close>. \<^verbatim>\<open>strings.Contains(string(api), "zf")\<close> decides the mode. The single-node
  mode calls with \<^verbatim>\<open>context.Background()\<close>, which is never cancelled. The hedged mode
  is run under the interleaving \<open>sched\<close>. The result is what the caller gets (\<open>None\<close>
  when \<open>sched\<close> ends before the function returns) and the trace.
\<close>

definition FetchHandleOfPost ::
  "'d env \<Rightarrow> Values \<Rightarrow> string \<Rightarrow> string \<Rightarrow> action list
     \<Rightarrow> ('d option \<times> error option) option \<times> 'd event list" where
  "FetchHandleOfPost env form host api sched =
     (let loginType = Values_Get form ''type'';
          zfFlag = sublist ''zf'' api
      in if \<not> zfFlag then
           (case singleHostRequest (env_world env) 0 False host api form of
              ((rc, err), tr) \<Rightarrow>
                if err \<noteq> None then (Some (None, Some ServerError), tr)
                else if Code rc = funnelCodeSuccess then (Some (Data rc, None), tr)
                else if Code rc = funnelCodeWrongPassword then
                  (Some (None, Some NoThatPasswordOrWrong), tr)
                else if Code rc = funnelCodeOAuthNotUpdate then
                  (Some (None, Some OAuthNotUpdate), tr)
                else (Some (None, Some ServerError), tr))
         else
           (case LoadBalance_List (env_oauth env) (env_store env) (env_LB env) loginType of
              (h', snap) \<Rightarrow>
                (let hosts = candidates host (elems h' snap)
                 in if length hosts = 0 then
                      (Some (None, Some NoApiAvailable), [LBList loginType])
                    else
                      (let c = \<lparr>cfg_world = env_world env, cfg_hosts = hosts,
                                cfg_loginType = loginType, cfg_api = api, cfg_form = form\<rparr>;
                           s = run c sched (init c)
                       in (returned (consumer s), LBList loginType # trace s)))))"

text \<open>
  \<^verbatim>\<open>part_000\<close>, single-node mode (its \<^verbatim>\<open>switch\<close> lists 413 apart, with the body of
  \<^verbatim>\<open>default\<close>).
\<close>

definition single_node_000 ::
  "'d world \<Rightarrow> Values \<Rightarrow> string \<Rightarrow> string \<Rightarrow> ('d option \<times> error option) \<times> 'd event list" where
  "single_node_000 w form host api =
     (case singleHostRequest_000 w 0 (\<lambda>i. False) host api form of
        ((rc, err), tr) \<Rightarrow>
          if err \<noteq> None then ((None, Some ServerError), tr)
          else if Code rc = 200 then ((Data rc, None), tr)
          else if Code rc = 413 then ((None, Some ServerError), tr)
          else if Code rc = 412 then ((None, Some NoThatPasswordOrWrong), tr)
          else if Code rc = 416 then ((None, Some OAuthNotUpdate), tr)
          else ((None, Some ServerError), tr))"


section \<open>Reading a trace\<close>

text \<open>The results the consumer received, in order; and the calls of the loop body
  (\<^verbatim>\<open>CB.Fail\<close>, \<^verbatim>\<open>CB.Success\<close>, \<^verbatim>\<open>cancel()\<close>), in order.\<close>

fun recv_of :: "'d event \<Rightarrow> 'd result list" where
  "recv_of (Recv r) = [r]"
| "recv_of e = []"

definition received :: "'d event list \<Rightarrow> 'd result list" where
  "received tr = concat (map recv_of tr)"

fun is_loop_event :: "'d event \<Rightarrow> bool" where
  "is_loop_event (CBFail h t) = True"
| "is_loop_event (CBSuccess h t) = True"
| "is_loop_event Cancel = True"
| "is_loop_event e = False"

definition loop_events :: "'d event list \<Rightarrow> 'd event list" where
  "loop_events tr = filter is_loop_event tr"

text \<open>How far a race is from its end: the points each goroutine still has before it,
  the results waiting in the channel, and the consumer's loop.\<close>

fun weight :: "'d worker \<Rightarrow> nat" where
  "weight Spawned = 4"
| "weight Entered = 3"
| "weight Posting = 2"
| "weight (Holding rc err) = 1"
| "weight Exited = 0"

definition potential :: "'d hedge \<Rightarrow> nat" where
  "potential s =
     2 * sum_list (map weight (workers s)) + length (resultCh s)
       + (case consumer s of Ranging firstErr \<Rightarrow> 1 | Returned d e \<Rightarrow> 0)"

text \<open>
  The cancellation discipline of a race: the context is cancelled exactly when the
  consumer has returned; a result that carries \<^verbatim>\<open>context.Canceled\<close>, in the channel or
  still in a goroutine's hands, exists only once the context is cancelled; and the
  consumer has received no such result.
\<close>

definition cancel_inv :: "'d hedge \<Rightarrow> bool" where
  "cancel_inv s =
     ((ctx_done s \<longleftrightarrow> returned (consumer s) \<noteq> None)
      \<and> (\<forall>r\<in>set (resultCh s). res_err r = Some Canceled \<longrightarrow> ctx_done s)
      \<and> (\<forall>w\<in>set (workers s). \<forall>rc. w = Holding rc (Some Canceled) \<longrightarrow> ctx_done s)
      \<and> (\<forall>r\<in>set (received (trace s)). res_err r \<noteq> Some Canceled))"

text \<open>
  The consumer of a race and the loop \<open>drain\<close> agree: while the consumer is in its
  loop, the loop run on the results received so far stands at the same \<^verbatim>\<open>firstErr\<close>
  and has made the same calls; once it has returned, \<open>range_resultCh\<close> on the results
  received gives what it returned, and the calls are those of the loop followed by
  the deferred \<^verbatim>\<open>cancel()\<close>.
\<close>

definition link_inv :: "'d hedge_cfg \<Rightarrow> 'd hedge \<Rightarrow> bool" where
  "link_inv c s =
     (case consumer s of
        Ranging fe \<Rightarrow>
          drain (cfg_loginType c) None (received (trace s)) = (Continue fe, loop_events (trace s), [])
      | Returned d e \<Rightarrow>
          (\<exists>ev. loop_events (trace s) = ev @ [Cancel]
              \<and> range_resultCh (cfg_loginType c) (received (trace s)) = ((d, e), ev, [])))"

text \<open>
  Counting: a goroutine that has not yet posted may still make one outbound call, and
  one that has not gone may still send one result. So the outbound calls never exceed
  the candidates, and the channel (made with room for one result per candidate) never
  holds more than it has room for.
\<close>

fun may_post :: "'d worker \<Rightarrow> nat" where
  "may_post Spawned = 1"
| "may_post Entered = 1"
| "may_post Posting = 1"
| "may_post w = 0"

fun may_send :: "'d worker \<Rightarrow> nat" where
  "may_send Exited = 0"
| "may_send w = 1"

definition bound_inv :: "'d hedge \<Rightarrow> bool" where
  "bound_inv s =
     (count_posts (trace s) + sum_list (map may_post (workers s)) \<le> length (workers s)
      \<and> length (resultCh s) + length (received (trace s)) + sum_list (map may_send (workers s))
           \<le> length (workers s))"

section \<open>The earlier revision of the dispatcher\<close>

text \<open>
  \<^verbatim>\<open>part_000\<close> in full, beside the later revision: the same race, with the retry loop
  inside each goroutine and with a consumer that counts every error against the node.
  A goroutine is started; or at the head of round \<open>i\<close> of the loop in
  \<^verbatim>\<open>singleHostRequest\<close> with the current \<^verbatim>\<open>rc\<close>; or in round \<open>i\<close> past the \<^verbatim>\<open>select\<close> and about
  to post; or holding the pair it got; or gone.
\<close>

datatype 'd worker_000 =
  Spawned_000
| Round_000 nat "'d FunnelResponse"
| Posting_000 nat "'d FunnelResponse"
| Holding_000 "'d FunnelResponse" "error option"
| Exited_000

record 'd hedge_000 =
  workers_000 :: "'d worker_000 list"
  resultCh_000 :: "'d result list"
  ctx_done_000 :: bool
  consumer_000 :: "'d consumer"
  trace_000 :: "'d event list"

definition worker_step_000 :: "'d hedge_cfg \<Rightarrow> nat \<Rightarrow> 'd hedge_000 \<Rightarrow> 'd hedge_000" where
  "worker_step_000 c i s =
     (if i < length (workers_000 s) then
        (case workers_000 s ! i of
           Spawned_000 \<Rightarrow>
             s\<lparr>workers_000 := (workers_000 s)[i := (if ctx_done_000 s then Exited_000
                                                       else Round_000 0 FunnelResponse_zero)]\<rparr>
         | Round_000 j rc \<Rightarrow>
             (if \<not> j < 5 then s\<lparr>workers_000 := (workers_000 s)[i := Holding_000 rc None]\<rparr>
              else if ctx_done_000 s then
                s\<lparr>workers_000 := (workers_000 s)[i := Holding_000 FunnelResponse_zero (Some Canceled)]\<rparr>
              else s\<lparr>workers_000 := (workers_000 s)[i := Posting_000 j rc]\<rparr>)
         | Posting_000 j rc \<Rightarrow>
             (case PostForm (cfg_world c) (count_posts (trace_000 s)) (cfg_hosts c ! i @ cfg_api c)
                     (cfg_form c) of
                None \<Rightarrow>
                  s\<lparr>workers_000 := (workers_000 s)[i := Holding_000 FunnelResponse_zero (Some RequestError)],
                    trace_000 := trace_000 s @ [Post (cfg_hosts c ! i @ cfg_api c)]\<rparr>
              | Some res \<Rightarrow>
                  (case Unmarshal (cfg_world c) res rc of
                     None \<Rightarrow>
                       s\<lparr>workers_000 := (workers_000 s)[i := Holding_000 FunnelResponse_zero (Some RequestError)],
                         trace_000 := trace_000 s @ [Post (cfg_hosts c ! i @ cfg_api c)]\<rparr>
                   | Some rc' \<Rightarrow>
                       s\<lparr>workers_000 := (workers_000 s)[i := (if Code rc' \<noteq> 413 then Holding_000 rc' None
                                                                 else Round_000 (j + 1) rc')],
                         trace_000 := trace_000 s @ [Post (cfg_hosts c ! i @ cfg_api c)]\<rparr>))
         | Holding_000 rc err \<Rightarrow>
             s\<lparr>workers_000 := (workers_000 s)[i := Exited_000],
               resultCh_000 := resultCh_000 s
                 @ [\<lparr>res_host = cfg_hosts c ! i, res_rc = rc, res_err = err\<rparr>]\<rparr>
         | Exited_000 \<Rightarrow> s)
      else s)"

definition discard_step_000 :: "nat \<Rightarrow> 'd hedge_000 \<Rightarrow> 'd hedge_000" where
  "discard_step_000 i s =
     (if i < length (workers_000 s) \<and> ctx_done_000 s then
        (case workers_000 s ! i of
           Holding_000 rc err \<Rightarrow> s\<lparr>workers_000 := (workers_000 s)[i := Exited_000]\<rparr>
         | _ \<Rightarrow> s)
      else s)"

definition consumer_step_000 :: "'d hedge_cfg \<Rightarrow> 'd hedge_000 \<Rightarrow> 'd hedge_000" where
  "consumer_step_000 c s =
     (case consumer_000 s of
        Returned d e \<Rightarrow> s
      | Ranging firstErr \<Rightarrow>
          (case resultCh_000 s of
             r # rest \<Rightarrow>
               (case on_result_000 (cfg_loginType c) r firstErr of
                  (Continue firstErr', ev) \<Rightarrow>
                    s\<lparr>resultCh_000 := rest, consumer_000 := Ranging firstErr',
                      trace_000 := trace_000 s @ Recv r # ev\<rparr>
                | (Return d e, ev) \<Rightarrow>
                    s\<lparr>resultCh_000 := rest, consumer_000 := Returned d e, ctx_done_000 := True,
                      trace_000 := trace_000 s @ Recv r # ev @ [Cancel]\<rparr>)
           | [] \<Rightarrow>
               if list_all (\<lambda>w. w = Exited_000) (workers_000 s) then
                 (case after_loop firstErr of
                    (d, e) \<Rightarrow> s\<lparr>consumer_000 := Returned d e, ctx_done_000 := True,
                                 trace_000 := trace_000 s @ [Cancel]\<rparr>)
               else s))"

fun step_000 :: "'d hedge_cfg \<Rightarrow> action \<Rightarrow> 'd hedge_000 \<Rightarrow> 'd hedge_000" where
  "step_000 c (Step i) s = worker_step_000 c i s"
| "step_000 c (Discard i) s = discard_step_000 i s"
| "step_000 c Consume s = consumer_step_000 c s"

fun run_000 :: "'d hedge_cfg \<Rightarrow> action list \<Rightarrow> 'd hedge_000 \<Rightarrow> 'd hedge_000" where
  "run_000 c [] s = s"
| "run_000 c (a # sched) s = run_000 c sched (step_000 c a s)"

definition init_000 :: "'d hedge_cfg \<Rightarrow> 'd hedge_000" where
  "init_000 c = \<lparr>workers_000 = replicate (length (cfg_hosts c)) Spawned_000, resultCh_000 = [],
                 ctx_done_000 = False, consumer_000 = Ranging None, trace_000 = []\<rparr>"

definition FetchHandleOfPost_000 ::
  "'d env \<Rightarrow> Values \<Rightarrow> string \<Rightarrow> string \<Rightarrow> action list
     \<Rightarrow> ('d option \<times> error option) option \<times> 'd event list" where
  "FetchHandleOfPost_000 env form host api sched =
     (let loginType = Values_Get form ''type'';
          zfFlag = sublist ''zf'' api
      in if \<not> zfFlag then
           (case single_node_000 (env_world env) form host api of (out, tr) \<Rightarrow> (Some out, tr))
         else
           (case LoadBalance_List (env_oauth env) (env_store env) (env_LB env) loginType of
              (h', snap) \<Rightarrow>
                (let hosts = candidates_000 host (elems h' snap)
                 in if length hosts = 0 then
                      (Some (None, Some NoApiAvailable), [LBList loginType])
                    else
                      (let c = \<lparr>cfg_world = env_world env, cfg_hosts = hosts,
                                cfg_loginType = loginType, cfg_api = api, cfg_form = form\<rparr>;
                           s = run_000 c sched (init_000 c)
                       in (returned (consumer_000 s), LBList loginType # trace_000 s)))))"

text \<open>The cancellation discipline, for the earlier revision.\<close>

definition cancel_inv_000 :: "'d hedge_000 \<Rightarrow> bool" where
  "cancel_inv_000 s =
     ((ctx_done_000 s \<longleftrightarrow> returned (consumer_000 s) \<noteq> None)
      \<and> (\<forall>r\<in>set (resultCh_000 s). res_err r = Some Canceled \<longrightarrow> ctx_done_000 s)
      \<and> (\<forall>w\<in>set (workers_000 s). \<forall>rc. w = Holding_000 rc (Some Canceled) \<longrightarrow> ctx_done_000 s)
      \<and> (\<forall>r\<in>set (received (trace_000 s)). res_err r \<noteq> Some Canceled))"

text \<open>The consumer of the earlier revision against the loop \<open>drain\<close> of the later one.\<close>

definition link_inv_000 :: "'d hedge_cfg \<Rightarrow> 'd hedge_000 \<Rightarrow> bool" where
  "link_inv_000 c s =
     (case consumer_000 s of
        Ranging fe \<Rightarrow>
          drain (cfg_loginType c) None (received (trace_000 s)) = (Continue fe, loop_events (trace_000 s), [])
      | Returned d e \<Rightarrow>
          (\<exists>ev. loop_events (trace_000 s) = ev @ [Cancel]
              \<and> range_resultCh (cfg_loginType c) (received (trace_000 s)) = ((d, e), ev, [])))"

fun weight_000 :: "'d worker_000 \<Rightarrow> nat" where
  "weight_000 Spawned_000 = 13"
| "weight_000 (Round_000 j rc) = (if j < 5 then 2 * (5 - j) + 2 else 2)"
| "weight_000 (Posting_000 j rc) = (if j < 5 then 2 * (5 - j) + 1 else 3)"
| "weight_000 (Holding_000 rc err) = 1"
| "weight_000 Exited_000 = 0"

definition potential_000 :: "'d hedge_000 \<Rightarrow> nat" where
  "potential_000 s =
     2 * sum_list (map weight_000 (workers_000 s)) + length (resultCh_000 s)
       + (case consumer_000 s of Ranging firstErr \<Rightarrow> 1 | Returned d e \<Rightarrow> 0)"


section \<open>Surroundings for worked examples\<close>

text \<open>
  A world in which the node behind each URL either does not answer or answers with an
  envelope of a fixed code, and one ZF pool holding the given nodes.
\<close>

definition nodes_env :: "(string \<Rightarrow> int option) \<Rightarrow> string list \<Rightarrow> nat env" where
  "nodes_env answer pool =
     \<lparr>env_world = \<lparr>PostForm = (\<lambda>k url f. map_option (\<lambda>n. url) (answer url)),
                    Unmarshal = (\<lambda>res rc. map_option (\<lambda>n. rc\<lparr>Code := n\<rparr>) (answer res))\<rparr>,
      env_store = [pool],
      env_LB = \<lparr>zfLB = Some (newRandomLB (Slice 0 0 (length pool) (length pool))), oauthLB = None\<rparr>,
      env_oauth = ''oauth''\<rparr>"


section \<open>Where a result comes from\<close>

text \<open>
  The value a goroutine sends, \<^verbatim>\<open>result{host: h, rc: rc, err: err}\<close>, from the pair that
  \<^verbatim>\<open>singleHostRequest\<close> returned.
\<close>

definition mk_result :: "string \<Rightarrow> 'd FunnelResponse \<times> error option \<Rightarrow> 'd result" where
  "mk_result h p = \<lparr>res_host = h, res_rc = fst p, res_err = snd p\<rparr>"

text \<open>
  \<^verbatim>\<open>part_001\<close>: the pair is one that \<^verbatim>\<open>singleHostRequest\<close> returns for candidate \<open>i\<close>, after
  some number of earlier outbound calls and with the context open or cancelled.
\<close>

definition produced :: "'d hedge_cfg \<Rightarrow> nat \<Rightarrow> 'd FunnelResponse \<Rightarrow> error option \<Rightarrow> bool" where
  "produced c i rc err =
     (\<exists>k d. fst (singleHostRequest (cfg_world c) k d (cfg_hosts c ! i) (cfg_api c) (cfg_form c))
              = (rc, err))"

text \<open>
  Every pair in a goroutine's hands, and every result in the channel or received by
  the consumer, is one that \<^verbatim>\<open>singleHostRequest\<close> returned for the candidate whose name
  the result carries.
\<close>

definition origin_inv :: "'d hedge_cfg \<Rightarrow> 'd hedge \<Rightarrow> bool" where
  "origin_inv c s =
     ((\<forall>i<length (workers s). \<forall>rc err. workers s ! i = Holding rc err \<longrightarrow> produced c i rc err)
      \<and> (\<forall>r\<in>set (resultCh s) \<union> set (received (trace s)).
            \<exists>i<length (workers s). res_host r = cfg_hosts c ! i \<and> produced c i (res_rc r) (res_err r)))"

text \<open>
  While no terminal result has been received: a goroutine that is gone has sent its
  result, and once the consumer has returned it has received a result of every
  candidate.
\<close>

definition complete_inv :: "'d hedge_cfg \<Rightarrow> 'd hedge \<Rightarrow> bool" where
  "complete_inv c s =
     ((\<exists>r\<in>set (received (trace s)). terminal r)
      \<or> (case consumer s of
            Ranging fe \<Rightarrow>
              (\<forall>i<length (workers s). workers s ! i = Exited \<longrightarrow>
                 cfg_hosts c ! i \<in> res_host ` (set (received (trace s)) \<union> set (resultCh s)))
          | Returned d e \<Rightarrow>
              (\<forall>i<length (workers s). cfg_hosts c ! i \<in> res_host ` set (received (trace s)))))"

text \<open>
  \<^verbatim>\<open>part_000\<close>. An envelope is an answer of candidate \<open>i\<close> when it was decoded from a body
  that a call to the candidate's URL returned. The pair a goroutine gets from the
  retry loop is the zero envelope with \<^verbatim>\<open>ctx.Err()\<close> or with the request error, or an
  answer of the candidate with a nil error.
\<close>

definition answered :: "'d hedge_cfg \<Rightarrow> nat \<Rightarrow> 'd FunnelResponse \<Rightarrow> bool" where
  "answered c i rc =
     (\<exists>k res rc0. PostForm (cfg_world c) k (cfg_hosts c ! i @ cfg_api c) (cfg_form c) = Some res
                \<and> Unmarshal (cfg_world c) res rc0 = Some rc)"

definition produced_000 :: "'d hedge_cfg \<Rightarrow> nat \<Rightarrow> 'd FunnelResponse \<Rightarrow> error option \<Rightarrow> bool" where
  "produced_000 c i rc err =
     ((rc = FunnelResponse_zero \<and> (err = Some Canceled \<or> err = Some RequestError))
      \<or> (err = None \<and> answered c i rc))"

definition origin_inv_000 :: "'d hedge_cfg \<Rightarrow> 'd hedge_000 \<Rightarrow> bool" where
  "origin_inv_000 c s =
     ((\<forall>i<length (workers_000 s). \<forall>j rc. workers_000 s ! i = Round_000 j rc \<longrightarrow>
          j < 5 \<or> (Code rc = 413 \<and> answered c i rc))
      \<and> (\<forall>i<length (workers_000 s). \<forall>rc err. workers_000 s ! i = Holding_000 rc err \<longrightarrow>
            produced_000 c i rc err)
      \<and> (\<forall>r\<in>set (resultCh_000 s) \<union> set (received (trace_000 s)).
            \<exists>i<length (workers_000 s). res_host r = cfg_hosts c ! i
               \<and> produced_000 c i (res_rc r) (res_err r)))"

definition complete_inv_000 :: "'d hedge_cfg \<Rightarrow> 'd hedge_000 \<Rightarrow> bool" where
  "complete_inv_000 c s =
     ((\<exists>r\<in>set (received (trace_000 s)). terminal r)
      \<or> (case consumer_000 s of
            Ranging fe \<Rightarrow>
              (\<forall>i<length (workers_000 s). workers_000 s ! i = Exited_000 \<longrightarrow>
                 cfg_hosts c ! i \<in> res_host ` (set (received (trace_000 s)) \<union> set (resultCh_000 s)))
          | Returned d e \<Rightarrow>
              (\<forall>i<length (workers_000 s). cfg_hosts c ! i \<in> res_host ` set (received (trace_000 s)))))"

text \<open>
  The configuration of the race that a hedged dispatch runs: the candidates made from
  the snapshot and the preferred host, and the login type read from the form.
\<close>

definition hedge_of :: "'d env \<Rightarrow> Values \<Rightarrow> string \<Rightarrow> string \<Rightarrow> 'd hedge_cfg" where
  "hedge_of env form host api =
     (case LoadBalance_List (env_oauth env) (env_store env) (env_LB env) (Values_Get form ''type'') of
        (h', snap) \<Rightarrow>
          \<lparr>cfg_world = env_world env, cfg_hosts = candidates host (elems h' snap),
           cfg_loginType = Values_Get form ''type'', cfg_api = api, cfg_form = form\<rparr>)"

definition hedge_of_000 :: "'d env \<Rightarrow> Values \<Rightarrow> string \<Rightarrow> string \<Rightarrow> 'd hedge_cfg" where
  "hedge_of_000 env form host api =
     (case LoadBalance_List (env_oauth env) (env_store env) (env_LB env) (Values_Get form ''type'') of
        (h', snap) \<Rightarrow>
          \<lparr>cfg_world = env_world env, cfg_hosts = candidates_000 host (elems h' snap),
           cfg_loginType = Values_Get form ''type'', cfg_api = api, cfg_form = form\<rparr>)"

text \<open>The state of that race after the interleaving \<open>sched\<close>.\<close>

definition race :: "'d env \<Rightarrow> Values \<Rightarrow> string \<Rightarrow> string \<Rightarrow> action list \<Rightarrow> 'd hedge" where
  "race env form host api sched =
     run (hedge_of env form host api) sched (init (hedge_of env form host api))"

definition race_000 :: "'d env \<Rightarrow> Values \<Rightarrow> string \<Rightarrow> string \<Rightarrow> action list \<Rightarrow> 'd hedge_000" where
  "race_000 env form host api sched =
     run_000 (hedge_of_000 env form host api) sched (init_000 (hedge_of_000 env form host api))"

section \<open>Facts about slices\<close>

lemma first_index_None: "first_index xs x i = None \<longleftrightarrow> x \<notin> set xs"
  by (induction xs arbitrary: i) auto

lemma first_index_Some:
  "first_index xs x i = Some j \<Longrightarrow>
     i \<le> j \<and> j - i < length xs \<and> xs ! (j - i) = x \<and> x \<notin> set (take (j - i) xs)"
proof (induction xs arbitrary: i)
  case Nil
  then show ?case by simp
next
  case (Cons s ss)
  show ?case
  proof (cases "s = x")
    case True
    with Cons.prems show ?thesis by simp
  next
    case False
    with Cons.prems have rec: "first_index ss x (Suc i) = Some j" by simp
    from Cons.IH [OF rec] have ih: "Suc i \<le> j" "j - Suc i < length ss"
      "ss ! (j - Suc i) = x" "x \<notin> set (take (j - Suc i) ss)" by auto
    from ih(1) have step: "j - i = Suc (j - Suc i)" by arith
    show ?thesis using ih False by (simp add: step)
  qed
qed

lemma remove1_at_first:
  "i < length xs \<Longrightarrow> xs ! i = x \<Longrightarrow> x \<notin> set (take i xs) \<Longrightarrow>
     remove1 x xs = take i xs @ drop (Suc i) xs"
proof (induction xs arbitrary: i)
  case Nil
  then show ?case by simp
next
  case (Cons s ss)
  show ?case
  proof (cases i)
    case 0
    with Cons.prems show ?thesis by simp
  next
    case (Suc k)
    with Cons.prems have "s \<noteq> x" "k < length ss" "ss ! k = x" "x \<notin> set (take k ss)"
      by auto
    with Cons.IH [of k] Suc show ?thesis by simp
  qed
qed


lemma elems_length: "valid h s \<Longrightarrow> length (elems h s) = len_s s"
  by (cases s) auto

lemma len_le_cap: "valid h s \<Longrightarrow> len_s s \<le> cap_s s"
  by (cases s) auto

lemma append_s_inplace:
  assumes v: "valid h (Slice a off n c)" and fits: "n + length vs \<le> c"
  shows "append_s grow h (Slice a off n c) vs =
           (h[a := take (off + n) (h ! a) @ vs @ drop (off + (n + length vs)) (h ! a)],
            Slice a off (n + length vs) c)"
  using fits by (simp add: append_s_def Let_def)

lemma inplace_array:
  assumes "off + c \<le> length arr" "n + length vs \<le> c"
  shows "length (take (off + n) arr @ vs @ drop (off + (n + length vs)) arr) = length arr"
    and "take (n + length vs) (drop off (take (off + n) arr @ vs @ drop (off + (n + length vs)) arr))
           = take n (drop off arr) @ vs"
proof -
  from assms have le: "off + n \<le> length arr" by arith
  then show "length (take (off + n) arr @ vs @ drop (off + (n + length vs)) arr) = length arr"
    using assms by simp
  have A: "drop off (take (off + n) arr) = take n (drop off arr)"
    by (simp add: drop_take)
  have lenA: "length (take n (drop off arr)) = n"
    using le by simp
  have "drop off (take (off + n) arr @ vs @ drop (off + (n + length vs)) arr)
          = take n (drop off arr) @ vs @ drop (off + (n + length vs)) arr"
    using le A by simp
  then show "take (n + length vs) (drop off (take (off + n) arr @ vs @ drop (off + (n + length vs)) arr))
           = take n (drop off arr) @ vs"
    using lenA by simp
qed

lemma append_s_props:
  assumes v: "valid h s" and ap: "append_s grow h s vs = (h', s')"
  shows "elems h' s' = elems h s @ vs"
    and "len_s s' = len_s s + length vs"
    and "valid h' s'"
    and "length h \<le> length h'"
    and "\<forall>a<length h. length (h' ! a) = length (h ! a)"
    and "\<forall>a<length h. base s \<noteq> Some a \<longrightarrow> h' ! a = h ! a"
    and "\<forall>a<length h. base s \<noteq> Some a \<longrightarrow> base s' \<noteq> Some a"
proof -
  show "elems h' s' = elems h s @ vs"
  proof (cases s)
    case NilSlice
    with ap show ?thesis by (auto simp: append_s_def Let_def split: if_splits)
  next
    case (Slice a off n c)
    show ?thesis
    proof (cases "n + length vs \<le> c")
      case True
      with v ap Slice inplace_array(2) [of off c "h ! a" n vs] show ?thesis
        by (auto simp: append_s_def Let_def)
    next
      case False
      with v ap Slice show ?thesis
        by (auto simp: append_s_def Let_def nth_append)
    qed
  qed
  show "len_s s' = len_s s + length vs"
    using ap by (cases s) (auto simp: append_s_def Let_def split: if_splits)
  show "valid h' s'"
  proof (cases s)
    case NilSlice
    with ap show ?thesis by (auto simp: append_s_def Let_def split: if_splits)
  next
    case (Slice a off n c)
    show ?thesis
    proof (cases "n + length vs \<le> c")
      case True
      with v ap Slice inplace_array(1) [of off c "h ! a" n vs] show ?thesis
        by (auto simp: append_s_def Let_def)
    next
      case False
      with v ap Slice show ?thesis
        by (auto simp: append_s_def Let_def nth_append)
    qed
  qed
  show "length h \<le> length h'"
    using ap by (cases s) (auto simp: append_s_def Let_def split: if_splits)
  show "\<forall>a<length h. length (h' ! a) = length (h ! a)"
  proof (cases s)
    case NilSlice
    with ap show ?thesis by (auto simp: append_s_def Let_def nth_append split: if_splits)
  next
    case (Slice a off n c)
    show ?thesis
    proof (cases "n + length vs \<le> c")
      case True
      with v ap Slice inplace_array(1) [of off c "h ! a" n vs] show ?thesis
        by (auto simp: append_s_def Let_def nth_list_update)
    next
      case False
      with v ap Slice show ?thesis
        by (auto simp: append_s_def Let_def nth_append)
    qed
  qed
  show "\<forall>a<length h. base s \<noteq> Some a \<longrightarrow> h' ! a = h ! a"
    using ap by (cases s) (auto simp: append_s_def Let_def nth_append split: if_splits)
  show "\<forall>a<length h. base s \<noteq> Some a \<longrightarrow> base s' \<noteq> Some a"
    using ap by (cases s) (auto simp: append_s_def Let_def split: if_splits)
qed


lemma randomLB_Remove_props:
  assumes v: "valid h (Api b)"
  shows "\<exists>h' b'. randomLB_Remove grow h b api = Some (h', b')
           \<and> elems h' (Api b') = remove1 api (elems h (Api b))
           \<and> Size b' = len_s (Api b')
           \<and> valid h' (Api b')
           \<and> length h \<le> length h'
           \<and> (\<forall>a<length h. length (h' ! a) = length (h ! a))
           \<and> (\<forall>a<length h. base (Api b) \<noteq> Some a \<longrightarrow> h' ! a = h ! a \<and> base (Api b') \<noteq> Some a)
           \<and> (api \<notin> set (elems h (Api b)) \<longrightarrow> h' = h \<and> Api b' = Api b)"
proof (cases "first_index (elems h (Api b)) api 0")
  case None
  then have "api \<notin> set (elems h (Api b))" by (simp add: first_index_None)
  with None v show ?thesis
    by (simp add: randomLB_Remove_def remove1_idem)
next
  case (Some i)
  let ?xs = "elems h (Api b)"
  from first_index_Some [OF Some]
  have i: "i < length ?xs" "?xs ! i = api" "api \<notin> set (take i ?xs)" by auto
  then have mem: "api \<in> set ?xs" by (metis nth_mem)
  from i(1) obtain a off n c where sl: "Api b = Slice a off n c"
    by (cases "Api b") auto
  from v sl have bounds: "a < length h" "n \<le> c" "off + c \<le> length (h ! a)" by auto
  from i(1) v sl have "i < n" using elems_length [OF v] by simp
  let ?lo = "Slice a off i c"
  let ?hi = "Slice a (off + (i + 1)) (n - (i + 1)) (c - (i + 1))"
  have lo: "slice_to (Api b) i = Some ?lo" using sl \<open>i < n\<close> bounds by simp
  have hi: "slice_from (Api b) (i + 1) = Some ?hi" using sl \<open>i < n\<close> by simp
  have vlo: "valid h ?lo" using bounds \<open>i < n\<close> by simp
  obtain h' s where ap: "append_s grow h ?lo (elems h ?hi) = (h', s)"
    by (cases "append_s grow h ?lo (elems h ?hi)")
  have rm: "randomLB_Remove grow h b api = Some (h', \<lparr>Api = s, Size = len_s s\<rparr>)"
    using Some lo hi ap by (simp add: randomLB_Remove_def)
  have e_lo: "elems h ?lo = take i ?xs" using sl \<open>i < n\<close> by (simp add: min_def)
  have e_hi: "elems h ?hi = drop (Suc i) ?xs" using sl by (simp add: drop_take add.commute)
  note P = append_s_props [OF vlo ap]
  have "elems h' s = take i ?xs @ drop (Suc i) ?xs" using P(1) e_lo e_hi by simp
  also have "\<dots> = remove1 api ?xs" using remove1_at_first [OF i] by simp
  finally have el: "elems h' s = remove1 api ?xs" .
  have fr: "\<forall>a'<length h. base (Api b) \<noteq> Some a' \<longrightarrow> h' ! a' = h ! a' \<and> base s \<noteq> Some a'"
    using P(6) P(7) sl by simp
  show ?thesis using rm el P(3) P(4) P(5) fr mem by simp
qed

lemma randomLB_Add_props:
  assumes v: "valid h (Api b)" and ad: "randomLB_Add grow h b api = (h', b')"
  shows "elems h' (Api b') = elems h (Api b) @ api"
    and "Size b' = len_s (Api b')"
    and "valid h' (Api b')"
    and "length h \<le> length h'"
    and "\<forall>a<length h. length (h' ! a) = length (h ! a)"
    and "\<forall>a<length h. base (Api b) \<noteq> Some a \<longrightarrow> h' ! a = h ! a \<and> base (Api b') \<noteq> Some a"
proof -
  obtain s where ap: "append_s grow h (Api b) api = (h', s)" and b': "b' = \<lparr>Api = s, Size = len_s s\<rparr>"
    using ad by (auto simp: randomLB_Add_def split: prod.splits)
  note P = append_s_props [OF v ap]
  show "elems h' (Api b') = elems h (Api b) @ api" using P(1) b' by simp
  show "Size b' = len_s (Api b')" using b' by simp
  show "valid h' (Api b')" using P(3) b' by simp
  show "length h \<le> length h'" using P(4) .
  show "\<forall>a<length h. length (h' ! a) = length (h ! a)" using P(5) .
  show "\<forall>a<length h. base (Api b) \<noteq> Some a \<longrightarrow> h' ! a = h ! a \<and> base (Api b') \<noteq> Some a"
    using P(6) P(7) b' by simp
qed

lemma index_s_elems: "valid h s \<Longrightarrow> i < len_s s \<Longrightarrow> index_s h s i = Some (elems h s ! i)"
  by (cases s) auto

lemma randomLB_Pick_props:
  assumes "lb_inv b" "valid h (Api b)" "\<And>n. 0 < n \<Longrightarrow> intn n < n"
  shows "Size b = 0 \<Longrightarrow> randomLB_Pick intn h b = Some []"
    and "Size b \<noteq> 0 \<Longrightarrow> \<exists>x. randomLB_Pick intn h b = Some x \<and> x \<in> set (elems h (Api b))"
proof -
  show "Size b = 0 \<Longrightarrow> randomLB_Pick intn h b = Some []"
    by (simp add: randomLB_Pick_def)
  assume ne: "Size b \<noteq> 0"
  let ?k = "if Size b = 1 then 0 else intn (Size b)"
  have k: "?k < len_s (Api b)" using ne assms(1) assms(3) [of "Size b"] by (auto simp: lb_inv_def)
  have "randomLB_Pick intn h b = index_s h (Api b) ?k" using ne by (simp add: randomLB_Pick_def)
  also have "\<dots> = Some (elems h (Api b) ! ?k)" using index_s_elems [OF assms(2) k] .
  finally have "randomLB_Pick intn h b = Some (elems h (Api b) ! ?k)" .
  moreover have "elems h (Api b) ! ?k \<in> set (elems h (Api b))"
    using k elems_length [OF assms(2)] by (metis nth_mem)
  ultimately show "\<exists>x. randomLB_Pick intn h b = Some x \<and> x \<in> set (elems h (Api b))" by blast
qed


lemma ext_refl: "ext h h"
  by (simp add: ext_def)

lemma ext_trans: "ext h0 h \<Longrightarrow> ext h h' \<Longrightarrow> ext h0 h'"
  by (auto simp: ext_def)

lemma valid_ext: "valid h s \<Longrightarrow> ext h h' \<Longrightarrow> valid h' s"
  by (cases s) (auto simp: ext_def)

lemma randomLB_list_props:
  assumes v: "valid h (Api b)" and inv: "lb_inv b" and l: "randomLB_list h b = (h1, snap)"
  shows "Size b = 0 \<Longrightarrow> snap = NilSlice \<and> h1 = h"
    and "Size b \<noteq> 0 \<Longrightarrow> snap = Slice (length h) 0 (Size b) (Size b) \<and> h1 = h @ [elems h (Api b)]"
proof -
  show "Size b = 0 \<Longrightarrow> snap = NilSlice \<and> h1 = h"
    using l by (auto simp: randomLB_list_def)
  assume ne: "Size b \<noteq> 0"
  let ?n = "Size b"
  let ?xs = "elems h (Api b)"
  have len: "length ?xs = ?n" using elems_length [OF v] inv by (simp add: lb_inv_def)
  from ne inv obtain a off c where sl: "Api b = Slice a off ?n c"
    by (cases "Api b") (auto simp: lb_inv_def)
  with v have a: "a < length h" by simp
  have same: "elems (h @ [replicate ?n []]) (Api b) = ?xs"
    using sl a by (simp add: nth_append)
  have cp: "copy_s (h @ [replicate ?n []]) (Slice (length h) 0 ?n ?n) (Api b) = (h @ [?xs], ?n)"
    using same len by simp
  have "randomLB_list h b = (h @ [?xs], Slice (length h) 0 ?n ?n)"
    unfolding randomLB_list_def make_s_def using ne by (simp add: cp del: copy_s.simps)
  with l show "snap = Slice (length h) 0 ?n ?n \<and> h1 = h @ [?xs]" by simp
qed

lemma elems_cong: "(\<forall>a. base s = Some a \<longrightarrow> h' ! a = h ! a) \<Longrightarrow> elems h' s = elems h s"
  by (cases s) auto

lemma apply_ops_frame:
  assumes "ext h0 h" "valid h (Api b)" "\<forall>p\<in>set ps. arg_ok h0 snap p"
    and "\<forall>a. base snap = Some a \<longrightarrow> a < length h0 \<and> h ! a = h0 ! a \<and> base (Api b) \<noteq> Some a"
  shows "\<exists>h2 b2. apply_ops grow ps (h, b) = Some (h2, b2) \<and> ext h0 h2
           \<and> valid h2 (Api b2) \<and> (lb_inv b \<longrightarrow> lb_inv b2)
           \<and> (\<forall>a. base snap = Some a \<longrightarrow> h2 ! a = h0 ! a)"
  using assms
proof (induction ps arbitrary: h b)
  case Nil
  then show ?case by simp
next
  case (Cons p ps)
  from Cons.prems(1,4) have ah: "\<forall>a. base snap = Some a \<longrightarrow> a < length h" by (auto simp: ext_def)
  have "\<exists>h' b'. apply_op grow p (h, b) = Some (h', b') \<and> ext h h' \<and> valid h' (Api b')
          \<and> lb_inv b'
          \<and> (\<forall>a. base snap = Some a \<longrightarrow> h' ! a = h ! a \<and> base (Api b') \<noteq> Some a)"
  proof (cases p)
    case (OpAdd api)
    obtain h' b' where ad: "randomLB_Add grow h b api = (h', b')"
      by (cases "randomLB_Add grow h b api")
    note P = randomLB_Add_props [OF Cons.prems(2) ad]
    show ?thesis using OpAdd ad P(2) P(3) P(4) P(5) P(6) ah Cons.prems(4)
      by (simp add: ext_def lb_inv_def)
  next
    case (OpRemove api)
    from randomLB_Remove_props [OF Cons.prems(2), of grow api] ah Cons.prems(4) OpRemove
    show ?thesis by (auto simp: ext_def lb_inv_def)
  next
    case (OpReBalance apis)
    with Cons.prems(3) have ok: "valid h0 apis" "base apis = None \<or> base apis \<noteq> base snap" by auto
    from valid_ext [OF ok(1) Cons.prems(1)] ok(2) OpReBalance show ?thesis
      by (auto simp: randomLB_ReBalance_def ext_refl lb_inv_def)
  qed
  then obtain h' b' where st: "apply_op grow p (h, b) = Some (h', b')" and e: "ext h h'"
    and v': "valid h' (Api b')" and li: "lb_inv b'"
    and fr: "\<forall>a. base snap = Some a \<longrightarrow> h' ! a = h ! a \<and> base (Api b') \<noteq> Some a"
    by blast
  from Cons.prems(3) have rest: "\<forall>p\<in>set ps. arg_ok h0 snap p" by simp
  from fr Cons.prems(4)
  have inv': "\<forall>a. base snap = Some a \<longrightarrow> a < length h0 \<and> h' ! a = h0 ! a \<and> base (Api b') \<noteq> Some a"
    by simp
  from Cons.IH [OF ext_trans [OF Cons.prems(1) e] v' rest inv']
  show ?case using st li by auto
qed

text \<open>
  Why a snapshot must not be handed back: \<^verbatim>\<open>ReBalance\<close> keeps the caller's slice, and the
  next \<^verbatim>\<open>Remove\<close> shifts the elements of that very array.
\<close>

lemma snapshot_handed_back_is_altered:
  "randomLB_list [[''a'', ''b'']] (newRandomLB (Slice 0 0 2 2))
     = ([[''a'', ''b''], [''a'', ''b'']], Slice 1 0 2 2)
   \<and> (case apply_ops (\<lambda>c n. n) [OpReBalance (Slice 1 0 2 2), OpRemove ''a'']
              ([[''a'', ''b''], [''a'', ''b'']], newRandomLB (Slice 0 0 2 2)) of
         None \<Rightarrow> False
       | Some (h2, b2) \<Rightarrow> elems h2 (Slice 1 0 2 2) = [''b'', ''b''])"
  by code_simp

section \<open>Claims about the pools\<close>

text \<open>
  C8, as the code has it. \<^verbatim>\<open>randomLB.list\<close> on a pool whose count is the length of its
  slice returns the members in order; the pool itself is unchanged; on an empty pool
  the result is the nil slice (the source says \<^verbatim>\<open>return nil\<close>), and otherwise it lives
  in a freshly allocated array. After any later sequence of \<^verbatim>\<open>Add\<close>, \<^verbatim>\<open>Remove\<close> and
  \<^verbatim>\<open>ReBalance\<close> calls, none of which panics, the snapshot still holds the members it was
  taken from, provided no \<^verbatim>\<open>ReBalance\<close> is handed the snapshot itself.
  \<^verbatim>\<open>LoadBalance.List\<close> is \<^verbatim>\<open>list\<close> of the pool of the login type, and nil when that pool
  is a nil pointer.
\<close>

theorem list_snapshot_independent:
  assumes v: "valid h (Api b)" and inv: "lb_inv b" and l: "randomLB_list h b = (h1, snap)"
    and args: "\<forall>p\<in>set ps. arg_ok h1 snap p"
  shows "elems h1 snap = elems h (Api b)
       \<and> elems h1 (Api b) = elems h (Api b)
       \<and> (Size b = 0 \<longrightarrow> snap = NilSlice)
       \<and> (Size b \<noteq> 0 \<longrightarrow> base snap = Some (length h))
       \<and> (\<exists>h2 b2. apply_ops grow ps (h1, b) = Some (h2, b2) \<and> elems h2 snap = elems h (Api b))
       \<and> LoadBalance_List oauth h lb loginType =
           (case (if loginType = oauth then oauthLB lb else zfLB lb) of
              None \<Rightarrow> (h, NilSlice)
            | Some p \<Rightarrow> randomLB_list h p)"
proof -
  let ?xs = "elems h (Api b)"
  have len: "length ?xs = Size b" using elems_length [OF v] inv by (simp add: lb_inv_def)
  have shape: "(Size b = 0 \<longrightarrow> snap = NilSlice \<and> h1 = h)
     \<and> (Size b \<noteq> 0 \<longrightarrow> snap = Slice (length h) 0 (Size b) (Size b) \<and> h1 = h @ [?xs])"
    using randomLB_list_props [OF v inv l] by blast
  have e: "ext h h1" using shape by (cases "Size b = 0") (auto simp: ext_def nth_append)
  have v1: "valid h1 (Api b)" using valid_ext [OF v e] .
  have snap_elems: "elems h1 snap = ?xs" using shape len by (cases "Size b = 0") auto
  have pool_elems: "elems h1 (Api b) = ?xs"
  proof (rule elems_cong, intro allI impI)
    fix a assume "base (Api b) = Some a"
    with v have "a < length h" by (cases "Api b") auto
    with shape show "h1 ! a = h ! a" by (cases "Size b = 0") (auto simp: nth_append)
  qed
  have sep: "\<forall>a. base snap = Some a \<longrightarrow> a < length h1 \<and> h1 ! a = h1 ! a \<and> base (Api b) \<noteq> Some a"
  proof (intro allI impI)
    fix a assume a: "base snap = Some a"
    with shape have "Size b \<noteq> 0" "a = length h" "h1 = h @ [?xs]" by (cases "Size b = 0"; auto)+
    moreover have "base (Api b) \<noteq> Some (length h)" using v by (cases "Api b") auto
    ultimately show "a < length h1 \<and> h1 ! a = h1 ! a \<and> base (Api b) \<noteq> Some a" by simp
  qed
  from apply_ops_frame [OF ext_refl v1 args sep, of grow]
  obtain h2 b2 where run: "apply_ops grow ps (h1, b) = Some (h2, b2)"
    and fr: "\<forall>a. base snap = Some a \<longrightarrow> h2 ! a = h1 ! a" by blast
  have "elems h2 snap = elems h1 snap" using elems_cong [OF fr] .
  with run snap_elems have last: "\<exists>h2 b2. apply_ops grow ps (h1, b) = Some (h2, b2) \<and> elems h2 snap = ?xs"
    by simp
  have fresh: "Size b \<noteq> 0 \<longrightarrow> base snap = Some (length h)" using shape by auto
  have both: "LoadBalance_List oauth h lb loginType =
           (case (if loginType = oauth then oauthLB lb else zfLB lb) of
              None \<Rightarrow> (h, NilSlice)
            | Some p \<Rightarrow> randomLB_list h p)"
    by (simp add: LoadBalance_List_def)
  show ?thesis using snap_elems pool_elems shape fresh last both by blast
qed

text \<open>
  The theorem at a pool of three nodes: the snapshot survives a removal, an addition
  that reallocates, and a rebalance onto another array.
\<close>

theorem list_snapshot_independent_witness:
  "valid [[''a'', ''b'', ''c''], [''x'']] (Api (newRandomLB (Slice 0 0 3 3)))
   \<and> lb_inv (newRandomLB (Slice 0 0 3 3))
   \<and> randomLB_list [[''a'', ''b'', ''c''], [''x'']] (newRandomLB (Slice 0 0 3 3))
       = ([[''a'', ''b'', ''c''], [''x''], [''a'', ''b'', ''c'']], Slice 2 0 3 3)
   \<and> list_all (arg_ok [[''a'', ''b'', ''c''], [''x''], [''a'', ''b'', ''c'']] (Slice 2 0 3 3))
         [OpRemove ''a'', OpAdd [''d'', ''e''], OpReBalance (Slice 1 0 1 1)]
   \<and> (\<exists>h2 b2. apply_ops (\<lambda>c n. 2 * n) [OpRemove ''a'', OpAdd [''d'', ''e''], OpReBalance (Slice 1 0 1 1)]
                 ([[''a'', ''b'', ''c''], [''x''], [''a'', ''b'', ''c'']], newRandomLB (Slice 0 0 3 3)) = Some (h2, b2)
              \<and> elems h2 (Slice 2 0 3 3) = [''a'', ''b'', ''c''])"
proof -
  let ?h = "[[''a'', ''b'', ''c''], [''x'']]"
  let ?b = "newRandomLB (Slice 0 0 3 3)"
  let ?ps = "[OpRemove ''a'', OpAdd [''d'', ''e''], OpReBalance (Slice 1 0 1 1)]"
  have v: "valid ?h (Api ?b)" by (simp add: newRandomLB_def)
  have i: "lb_inv ?b" by (simp add: newRandomLB_def lb_inv_def)
  have l: "randomLB_list ?h ?b = ([[''a'', ''b'', ''c''], [''x''], [''a'', ''b'', ''c'']], Slice 2 0 3 3)"
    by (simp add: randomLB_list_def newRandomLB_def make_s_def Let_def)
  have a: "\<forall>p\<in>set ?ps. arg_ok [[''a'', ''b'', ''c''], [''x''], [''a'', ''b'', ''c'']] (Slice 2 0 3 3) p"
    by simp
  have e: "elems ?h (Api ?b) = [''a'', ''b'', ''c'']" by (simp add: newRandomLB_def)
  from list_snapshot_independent [OF v i l a, of "\<lambda>c n. 2 * n"] e v i l
  show ?thesis by simp
qed

text \<open>
  C8 as stated fails in its last part: on a pool with zero elements (here one built on
  an empty, non-nil slice) \<^verbatim>\<open>list\<close> returns the nil slice, not an empty non-nil one.
\<close>

theorem list_empty_pool_counterexample:
  "lb_inv (newRandomLB (Slice 0 0 0 0)) \<and> valid [[]] (Api (newRandomLB (Slice 0 0 0 0)))
   \<and> snd (randomLB_list [[]] (newRandomLB (Slice 0 0 0 0))) = NilSlice"
  by (simp add: randomLB_list_def newRandomLB_def lb_inv_def)

text \<open>
  C9. \<^verbatim>\<open>Remove\<close> never panics on a pool whose slice is well formed. The members
  afterwards are the members before with the first occurrence of the address taken out
  and every other element where it was, in order; the count is the new length. When the
  address is not a member, neither the store nor the slice header changes, and a pool
  that satisfied the invariant is returned as it was.
\<close>

theorem Remove_first_occurrence_only:
  assumes v: "valid h (Api b)"
  shows "\<exists>h' b'. randomLB_Remove grow h b api = Some (h', b')
           \<and> elems h' (Api b') = remove1 api (elems h (Api b))
           \<and> Size b' = length (elems h' (Api b'))
           \<and> (api \<notin> set (elems h (Api b)) \<longrightarrow>
                 h' = h \<and> elems h' (Api b') = elems h (Api b) \<and> (lb_inv b \<longrightarrow> b' = b))
           \<and> (\<forall>i. first_index (elems h (Api b)) api 0 = Some i \<longrightarrow>
                 elems h' (Api b') = take i (elems h (Api b)) @ drop (Suc i) (elems h (Api b))
                 \<and> length (elems h' (Api b')) + 1 = length (elems h (Api b)))"
proof -
  from randomLB_Remove_props [OF v, of grow api]
  obtain h' b' where rm: "randomLB_Remove grow h b api = Some (h', b')"
    and el: "elems h' (Api b') = remove1 api (elems h (Api b))"
    and sz: "Size b' = len_s (Api b')" and v': "valid h' (Api b')"
    and same: "api \<notin> set (elems h (Api b)) \<longrightarrow> h' = h \<and> Api b' = Api b"
    by blast
  have cnt: "Size b' = length (elems h' (Api b'))" using sz elems_length [OF v'] by simp
  have absent: "api \<notin> set (elems h (Api b)) \<longrightarrow>
                 h' = h \<and> elems h' (Api b') = elems h (Api b) \<and> (lb_inv b \<longrightarrow> b' = b)"
  proof
    assume na: "api \<notin> set (elems h (Api b))"
    with same have s: "h' = h" "Api b' = Api b" by auto
    then have "lb_inv b \<longrightarrow> b' = b" using sz by (simp add: lb_inv_def)
    with s show "h' = h \<and> elems h' (Api b') = elems h (Api b) \<and> (lb_inv b \<longrightarrow> b' = b)" by simp
  qed
  have present: "\<forall>i. first_index (elems h (Api b)) api 0 = Some i \<longrightarrow>
                 elems h' (Api b') = take i (elems h (Api b)) @ drop (Suc i) (elems h (Api b))
                 \<and> length (elems h' (Api b')) + 1 = length (elems h (Api b))"
  proof (intro allI impI)
    fix i assume fi: "first_index (elems h (Api b)) api 0 = Some i"
    from first_index_Some [OF fi]
    have i: "i < length (elems h (Api b))" "elems h (Api b) ! i = api"
      "api \<notin> set (take i (elems h (Api b)))" by auto
    from remove1_at_first [OF i] el
    have "elems h' (Api b') = take i (elems h (Api b)) @ drop (Suc i) (elems h (Api b))" by simp
    then show "elems h' (Api b') = take i (elems h (Api b)) @ drop (Suc i) (elems h (Api b))
                 \<and> length (elems h' (Api b')) + 1 = length (elems h (Api b))"
      using i(1) by simp
  qed
  show ?thesis using rm el cnt absent present by blast
qed

text \<open>The theorem at a pool in which the removed address occurs twice.\<close>

theorem Remove_first_occurrence_only_witness:
  "valid [[''a'', ''b'', ''a'', ''c'']] (Api (newRandomLB (Slice 0 0 4 4)))
   \<and> first_index (elems [[''a'', ''b'', ''a'', ''c'']] (Api (newRandomLB (Slice 0 0 4 4)))) ''a'' 0 = Some 0
   \<and> (\<exists>h' b'. randomLB_Remove (\<lambda>c n. n) [[''a'', ''b'', ''a'', ''c'']] (newRandomLB (Slice 0 0 4 4)) ''a''
                 = Some (h', b')
              \<and> elems h' (Api b') = [''b'', ''a'', ''c''] \<and> Size b' = 3)"
proof -
  let ?h = "[[''a'', ''b'', ''a'', ''c'']]"
  let ?b = "newRandomLB (Slice 0 0 4 4)"
  have v: "valid ?h (Api ?b)" by (simp add: newRandomLB_def)
  have e: "elems ?h (Api ?b) = [''a'', ''b'', ''a'', ''c'']" by (simp add: newRandomLB_def)
  from Remove_first_occurrence_only [OF v, of "\<lambda>c n. n" "''a''"]
  obtain h' b' where "randomLB_Remove (\<lambda>c n. n) ?h ?b ''a'' = Some (h', b')"
    and "elems h' (Api b') = remove1 ''a'' (elems ?h (Api ?b))"
    and "Size b' = length (elems h' (Api b'))" by blast
  then have "randomLB_Remove (\<lambda>c n. n) ?h ?b ''a'' = Some (h', b')
      \<and> elems h' (Api b') = [''b'', ''a'', ''c''] \<and> Size b' = 3"
    by (simp add: e)
  then show ?thesis using v e by auto
qed

text \<open>
  C10. \<^verbatim>\<open>Size == len(Api)\<close> holds for a pool as \<^verbatim>\<open>newRandomLB\<close> builds it and after
  \<^verbatim>\<open>Add\<close>, \<^verbatim>\<open>ReBalance\<close> and \<^verbatim>\<open>Remove\<close> (which does not panic), hence after every sequence
  of them. On a pool that satisfies it, with \<^verbatim>\<open>fastrand.Intn(n)\<close> returning a value
  below \<open>n\<close>, \<^verbatim>\<open>Pick\<close> does not panic: it returns the empty string on an empty pool and a
  member of the pool otherwise.
\<close>

theorem randomLB_Size_invariant:
  "lb_inv (newRandomLB apis)
   \<and> lb_inv (snd (randomLB_Add grow h b api))
   \<and> lb_inv (snd (randomLB_ReBalance h b apis))
   \<and> (valid h (Api b) \<longrightarrow> (\<exists>h' b'. randomLB_Remove grow h b x = Some (h', b') \<and> lb_inv b'))
   \<and> (valid h apis \<and> (\<forall>p\<in>set ps. arg_ok h NilSlice p) \<longrightarrow>
        (\<exists>h2 b2. apply_ops grow ps (h, newRandomLB apis) = Some (h2, b2) \<and> lb_inv b2))
   \<and> (lb_inv b \<and> valid h (Api b) \<and> (\<forall>n>0. intn n < n) \<longrightarrow>
        (elems h (Api b) = [] \<longrightarrow> randomLB_Pick intn h b = Some [])
      \<and> (elems h (Api b) \<noteq> [] \<longrightarrow>
           (\<exists>y. randomLB_Pick intn h b = Some y \<and> y \<in> set (elems h (Api b)))))"
proof -
  have new: "lb_inv (newRandomLB apis)" by (simp add: newRandomLB_def lb_inv_def)
  have add: "lb_inv (snd (randomLB_Add grow h b api))"
    by (simp add: randomLB_Add_def lb_inv_def split: prod.splits)
  have reb: "lb_inv (snd (randomLB_ReBalance h b apis))"
    by (simp add: randomLB_ReBalance_def lb_inv_def)
  have rem: "valid h (Api b) \<longrightarrow> (\<exists>h' b'. randomLB_Remove grow h b x = Some (h', b') \<and> lb_inv b')"
  proof
    assume v: "valid h (Api b)"
    from randomLB_Remove_props [OF v, of grow x]
    show "\<exists>h' b'. randomLB_Remove grow h b x = Some (h', b') \<and> lb_inv b'"
      by (auto simp: lb_inv_def)
  qed
  have seq: "valid h apis \<and> (\<forall>p\<in>set ps. arg_ok h NilSlice p) \<longrightarrow>
        (\<exists>h2 b2. apply_ops grow ps (h, newRandomLB apis) = Some (h2, b2) \<and> lb_inv b2)"
  proof
    assume a: "valid h apis \<and> (\<forall>p\<in>set ps. arg_ok h NilSlice p)"
    then have v: "valid h (Api (newRandomLB apis))" by (simp add: newRandomLB_def)
    have none: "\<forall>a. base NilSlice = Some a \<longrightarrow>
        a < length h \<and> h ! a = h ! a \<and> base (Api (newRandomLB apis)) \<noteq> Some a" by simp
    from apply_ops_frame [OF ext_refl v _ none, of ps grow] a new
    show "\<exists>h2 b2. apply_ops grow ps (h, newRandomLB apis) = Some (h2, b2) \<and> lb_inv b2"
      by blast
  qed
  have pick: "lb_inv b \<and> valid h (Api b) \<and> (\<forall>n>0. intn n < n) \<longrightarrow>
        (elems h (Api b) = [] \<longrightarrow> randomLB_Pick intn h b = Some [])
      \<and> (elems h (Api b) \<noteq> [] \<longrightarrow>
           (\<exists>y. randomLB_Pick intn h b = Some y \<and> y \<in> set (elems h (Api b))))"
  proof
    assume a: "lb_inv b \<and> valid h (Api b) \<and> (\<forall>n>0. intn n < n)"
    then have i: "lb_inv b" and v: "valid h (Api b)" and r: "\<And>n. 0 < n \<Longrightarrow> intn n < n" by auto
    have sz: "Size b = length (elems h (Api b))" using i elems_length [OF v] by (simp add: lb_inv_def)
    from randomLB_Pick_props [OF i v r] sz
    show "(elems h (Api b) = [] \<longrightarrow> randomLB_Pick intn h b = Some [])
      \<and> (elems h (Api b) \<noteq> [] \<longrightarrow>
           (\<exists>y. randomLB_Pick intn h b = Some y \<and> y \<in> set (elems h (Api b))))"
      by auto
  qed
  show ?thesis using new add reb rem seq pick by blast
qed

text \<open>
  The theorem at a pool of three nodes from which one is removed, and at a generator
  that returns the largest index.
\<close>

theorem randomLB_Size_invariant_witness:
  "valid [[''a'', ''b'', ''c'']] (Slice 0 0 3 3)
   \<and> list_all (arg_ok [[''a'', ''b'', ''c'']] NilSlice) [OpRemove ''b'', OpAdd [''d'']]
   \<and> lb_inv (newRandomLB (Slice 0 0 3 3))
   \<and> elems [[''a'', ''b'', ''c'']] (Api (newRandomLB (Slice 0 0 3 3))) \<noteq> []
   \<and> (\<exists>h' b'. randomLB_Remove (\<lambda>c n. n) [[''a'', ''b'', ''c'']] (newRandomLB (Slice 0 0 3 3)) ''b'' = Some (h', b')
         \<and> lb_inv b')
   \<and> (\<exists>h2 b2. apply_ops (\<lambda>c n. n) [OpRemove ''b'', OpAdd [''d'']]
                 ([[''a'', ''b'', ''c'']], newRandomLB (Slice 0 0 3 3)) = Some (h2, b2) \<and> lb_inv b2)
   \<and> (\<exists>y. randomLB_Pick (\<lambda>n. n - 1) [[''a'', ''b'', ''c'']] (newRandomLB (Slice 0 0 3 3)) = Some y
         \<and> y \<in> set [''a'', ''b'', ''c''])"
proof -
  let ?h = "[[''a'', ''b'', ''c'']]"
  let ?b = "newRandomLB (Slice 0 0 3 3)"
  have v: "valid ?h (Slice 0 0 3 3)" by simp
  have vb: "valid ?h (Api ?b)" by (simp add: newRandomLB_def)
  have a: "\<forall>p\<in>set [OpRemove ''b'', OpAdd [''d'']]. arg_ok ?h NilSlice p" by simp
  have r: "\<forall>n>0. (\<lambda>n. n - 1) n < (n::nat)" by simp
  have e: "elems ?h (Api ?b) = [''a'', ''b'', ''c'']" by (simp add: newRandomLB_def)
  note T = randomLB_Size_invariant [of "Slice 0 0 3 3" "\<lambda>c n. n" ?h ?b "[]" "''b''"
      "[OpRemove ''b'', OpAdd [''d'']]" "\<lambda>n. n - 1"]
  from T have i: "lb_inv ?b" by blast
  from T vb have rm: "\<exists>h' b'. randomLB_Remove (\<lambda>c n. n) ?h ?b ''b'' = Some (h', b') \<and> lb_inv b'"
    by blast
  from T v a have sq: "\<exists>h2 b2. apply_ops (\<lambda>c n. n) [OpRemove ''b'', OpAdd [''d'']] (?h, ?b) = Some (h2, b2)
      \<and> lb_inv b2" by blast
  from T i vb r e have pk: "\<exists>y. randomLB_Pick (\<lambda>n. n - 1) ?h ?b = Some y \<and> y \<in> set [''a'', ''b'', ''c'']"
    by force
  show ?thesis by (intro conjI) (rule v i rm sq pk | simp add: e)+
qed

section \<open>Facts about the consumer loop and the candidates\<close>

lemma on_result_terminal:
  "terminal r \<Longrightarrow>
     on_result lt r fe = (Return (fst (verdict r)) (snd (verdict r)), [CBSuccess (res_host r) lt, Cancel])"
  by (auto simp: terminal_def on_result_def verdict_def)

lemma on_result_nonterminal:
  "\<not> terminal r \<Longrightarrow>
     on_result lt r fe =
       (if res_err r = Some Canceled then (Continue fe, [])
        else (Continue (if fe = None then Some ServerError else fe), [CBFail (res_host r) lt]))"
  by (auto simp: terminal_def on_result_def split: option.splits)

lemma drain_nonterminal_prefix:
  "\<forall>x\<in>set pre. \<not> terminal x \<Longrightarrow>
     drain lt fe (pre @ rs) =
       (case drain lt (if fe = None \<and> (\<exists>x\<in>set pre. res_err x \<noteq> Some Canceled)
                        then Some ServerError else fe) rs of
          (c, ev, rest) \<Rightarrow> (c, [CBFail (res_host x) lt. x \<leftarrow> pre, res_err x \<noteq> Some Canceled] @ ev, rest))"
proof (induction pre arbitrary: fe)
  case Nil
  then show ?case by (simp split: prod.splits)
next
  case (Cons p pre)
  then have p: "\<not> terminal p" and rest: "\<forall>x\<in>set pre. \<not> terminal x" by auto
  show ?case
  proof (cases "res_err p = Some Canceled")
    case True
    then show ?thesis
      using Cons.IH [OF rest, of fe] on_result_nonterminal [OF p, of lt fe]
      by (simp split: prod.splits)
  next
    case False
    then show ?thesis
      using Cons.IH [OF rest, of "if fe = None then Some ServerError else fe"]
        on_result_nonterminal [OF p, of lt fe]
      by (auto split: prod.splits)
  qed
qed

lemma drain_nonterminal:
  "\<forall>x\<in>set rs. \<not> terminal x \<Longrightarrow>
     drain lt fe rs =
       (Continue (if fe = None \<and> (\<exists>x\<in>set rs. res_err x \<noteq> Some Canceled) then Some ServerError else fe),
        [CBFail (res_host x) lt. x \<leftarrow> rs, res_err x \<noteq> Some Canceled], [])"
  using drain_nonterminal_prefix [of rs lt fe "[]"] by simp

lemma drain_first_terminal:
  assumes "\<forall>x\<in>set pre. \<not> terminal x" "terminal r"
  shows "drain lt fe (pre @ r # post) =
           (Return (fst (verdict r)) (snd (verdict r)),
            [CBFail (res_host x) lt. x \<leftarrow> pre, res_err x \<noteq> Some Canceled]
              @ [CBSuccess (res_host r) lt, Cancel],
            post)"
  using drain_nonterminal_prefix [OF assms(1), of lt fe "r # post"] on_result_terminal [OF assms(2)]
  by simp

lemma range_resultCh_spec:
  "range_resultCh lt rs =
     (case dropWhile (\<lambda>x. \<not> terminal x) rs of
        [] \<Rightarrow> ((None, Some ServerError),
               [CBFail (res_host x) lt. x \<leftarrow> rs, res_err x \<noteq> Some Canceled], [])
      | r # post \<Rightarrow>
          (verdict r,
           [CBFail (res_host x) lt. x \<leftarrow> takeWhile (\<lambda>x. \<not> terminal x) rs, res_err x \<noteq> Some Canceled]
             @ [CBSuccess (res_host r) lt, Cancel],
           post))"
proof (cases "dropWhile (\<lambda>x. \<not> terminal x) rs")
  case Nil
  then have nt: "\<forall>x\<in>set rs. \<not> terminal x" by (simp add: dropWhile_eq_Nil_conv)
  show ?thesis
    by (simp add: Nil range_resultCh_def after_loop_def drain_nonterminal [OF nt])
next
  case (Cons r post)
  let ?pre = "takeWhile (\<lambda>x. \<not> terminal x) rs"
  have split: "rs = ?pre @ r # post" using Cons by (metis takeWhile_dropWhile_id)
  have pre: "\<forall>x\<in>set ?pre. \<not> terminal x" by (auto dest: set_takeWhileD)
  have r: "terminal r" using Cons by (metis dropWhile_eq_Cons_conv)
  have "drain lt None rs = (Return (fst (verdict r)) (snd (verdict r)),
            [CBFail (res_host x) lt. x \<leftarrow> ?pre, res_err x \<noteq> Some Canceled]
              @ [CBSuccess (res_host r) lt, Cancel], post)"
    using drain_first_terminal [OF pre r, of lt None post] split by simp
  then show ?thesis by (simp add: Cons range_resultCh_def)
qed

lemma range_resultCh_error_nil:
  assumes "snd (fst (range_resultCh lt rs)) = None"
  shows "\<exists>r\<in>set rs. terminal r \<and> Code (res_rc r) = 200 \<and> fst (fst (range_resultCh lt rs)) = Data (res_rc r)"
proof (cases "dropWhile (\<lambda>x. \<not> terminal x) rs")
  case Nil
  with assms show ?thesis by (simp add: Nil range_resultCh_spec)
next
  case (Cons r post)
  then have r: "terminal r" by (metis dropWhile_eq_Cons_conv)
  have mem: "r \<in> set rs" using Cons by (metis list.set_intros(1) set_dropWhileD)
  from assms Cons have "snd (verdict r) = None" by (simp add: range_resultCh_spec)
  then have "Code (res_rc r) = 200" by (auto simp: verdict_def split: if_splits)
  moreover have "fst (fst (range_resultCh lt rs)) = fst (verdict r)"
    using Cons by (simp add: range_resultCh_spec)
  ultimately show ?thesis using r mem by (auto simp: verdict_def)
qed


lemma singleHostRequest_Canceled:
  "(snd (fst (singleHostRequest w k d host api form)) = Some Canceled) = d"
  by (simp add: singleHostRequest_def split: option.splits)

lemma singleHostRequest_error_zero:
  "snd (fst (singleHostRequest w k d host api form)) \<noteq> None \<Longrightarrow>
     fst (fst (singleHostRequest w k d host api form)) = FunnelResponse_zero"
  by (simp add: singleHostRequest_def split: option.splits if_splits)

lemma candidates_props:
  assumes "host \<noteq> []"
  shows "candidates host hosts \<noteq> []"
    and "candidates host hosts ! 0 = host"
    and "host \<notin> set hosts \<Longrightarrow> candidates host hosts = host # hosts"
    and "host \<in> set hosts \<Longrightarrow> mset (candidates host hosts) = mset hosts"
proof -
  have all: "candidates host hosts \<noteq> [] \<and> candidates host hosts ! 0 = host
      \<and> (host \<notin> set hosts \<longrightarrow> candidates host hosts = host # hosts)
      \<and> (host \<in> set hosts \<longrightarrow> mset (candidates host hosts) = mset hosts)"
  proof (cases "first_index hosts host 0")
    case None
    then have "host \<notin> set hosts" by (simp add: first_index_None)
    with None assms show ?thesis by (simp add: candidates_def)
  next
    case (Some idx)
    from first_index_Some [OF Some] have i: "idx < length hosts" "hosts ! idx = host" by auto
    then have mem: "host \<in> set hosts" by (metis nth_mem)
    show ?thesis
    proof (cases "idx > 0")
      case True
      have c: "candidates host hosts = hosts[0 := hosts ! idx, idx := hosts ! 0]"
        using Some True assms by (simp add: candidates_def)
      have "0 < length hosts" using i(1) by (cases hosts) auto
      with i(1) have "mset (hosts[0 := hosts ! idx, idx := hosts ! 0]) = mset hosts"
        by (rule mset_swap)
      moreover have "hosts[0 := hosts ! idx, idx := hosts ! 0] ! 0 = host"
        using i True \<open>0 < length hosts\<close> by simp
      moreover have "hosts[0 := hosts ! idx, idx := hosts ! 0] \<noteq> []"
        using \<open>0 < length hosts\<close> by simp
      ultimately show ?thesis using c mem by simp
    next
      case False
      with Some assms i mem show ?thesis by (auto simp: candidates_def)
    qed
  qed
  from all show "candidates host hosts \<noteq> []" "candidates host hosts ! 0 = host"
    "host \<notin> set hosts \<Longrightarrow> candidates host hosts = host # hosts"
    "host \<in> set hosts \<Longrightarrow> mset (candidates host hosts) = mset hosts" by auto
qed

lemma candidates_000_props:
  assumes "host \<noteq> []"
  shows "candidates_000 host hosts =
           (if host \<in> set hosts \<and> hosts ! 0 \<noteq> host then host # remove1 host hosts
            else if host \<in> set hosts then hosts else host # hosts)"
proof (cases "first_index hosts host 0")
  case None
  then have "host \<notin> set hosts" by (simp add: first_index_None)
  with None assms show ?thesis by (simp add: candidates_000_def)
next
  case (Some idx)
  from first_index_Some [OF Some]
  have i: "idx < length hosts" "hosts ! idx = host" "host \<notin> set (take idx hosts)" by auto
  then have mem: "host \<in> set hosts" by (metis nth_mem)
  show ?thesis
  proof (cases "idx > 0")
    case True
    have "take idx hosts ! 0 \<in> set (take idx hosts)"
      using i(1) True by (intro nth_mem) simp
    then have "hosts ! 0 \<in> set (take idx hosts)" using True by simp
    with i(3) have "hosts ! 0 \<noteq> host" by auto
    with Some True assms mem remove1_at_first [OF i] show ?thesis
      by (simp add: candidates_000_def)
  next
    case False
    with Some assms i mem show ?thesis by (auto simp: candidates_000_def)
  qed
qed

section \<open>Facts about the race\<close>

lemma received_append: "received (xs @ ys) = received xs @ received ys"
  by (simp add: received_def)

lemma loop_events_append: "loop_events (xs @ ys) = loop_events xs @ loop_events ys"
  by (simp add: loop_events_def)

lemma on_result_events:
  "received (snd (on_result lt r fe)) = []"
  "loop_events (snd (on_result lt r fe)) = snd (on_result lt r fe)"
  "count_posts (snd (on_result lt r fe)) = 0"
  by (auto simp: on_result_def received_def loop_events_def count_posts_def split: option.splits)

lemma singleHostRequest_events:
  "received (snd (singleHostRequest w k d host api form)) = []"
  "loop_events (snd (singleHostRequest w k d host api form)) = []"
  "count_posts (snd (singleHostRequest w k d host api form)) = (if d then 0 else 1)"
  by (auto simp: singleHostRequest_def received_def loop_events_def count_posts_def split: option.splits)

lemma set_update_cases: "w \<in> set (ws[i := v]) \<Longrightarrow> w = v \<or> w \<in> set ws"
  using set_update_subset_insert [of ws i v] by auto

lemma worker_step_cancel_inv:
  assumes "cancel_inv s"
  shows "cancel_inv (worker_step c i s)"
proof (cases "i < length (workers s)")
  case False
  with assms show ?thesis by (simp add: worker_step_def)
next
  case True
  show ?thesis
  proof (cases "workers s ! i")
    case Spawned
    with True assms show ?thesis
      by (auto simp: worker_step_def cancel_inv_def dest!: set_update_cases)
  next
    case Entered
    with True assms show ?thesis
      by (auto simp: worker_step_def cancel_inv_def singleHostRequest_def dest!: set_update_cases)
  next
    case Posting
    obtain rc err tr where sh: "singleHostRequest (cfg_world c) (count_posts (trace s)) False
        (cfg_hosts c ! i) (cfg_api c) (cfg_form c) = ((rc, err), tr)"
      by (metis prod.exhaust)
    from singleHostRequest_Canceled [of "cfg_world c" "count_posts (trace s)" False
        "cfg_hosts c ! i" "cfg_api c" "cfg_form c"] sh
    have ne: "err \<noteq> Some Canceled" by simp
    from singleHostRequest_events(1) [of "cfg_world c" "count_posts (trace s)" False
        "cfg_hosts c ! i" "cfg_api c" "cfg_form c"] sh
    have nr: "received tr = []" by simp
    from Posting True assms sh ne nr show ?thesis
      by (auto simp: worker_step_def cancel_inv_def received_append dest!: set_update_cases)
  next
    case (Holding rc err)
    from True Holding have mem: "Holding rc err \<in> set (workers s)" by (metis nth_mem)
    from Holding True assms mem show ?thesis
      by (auto simp: worker_step_def cancel_inv_def dest!: set_update_cases)
  next
    case Exited
    with True assms show ?thesis by (simp add: worker_step_def)
  qed
qed

lemma discard_step_cancel_inv:
  assumes "cancel_inv s"
  shows "cancel_inv (discard_step i s)"
  using assms
  by (auto simp: discard_step_def cancel_inv_def split: worker.splits dest!: set_update_cases)

lemma consumer_step_cancel_inv:
  assumes "cancel_inv s"
  shows "cancel_inv (consumer_step c s)"
proof (cases "consumer s")
  case (Returned d e)
  with assms show ?thesis by (simp add: consumer_step_def)
next
  case (Ranging fe)
  with assms have nd: "\<not> ctx_done s" by (simp add: cancel_inv_def)
  show ?thesis
  proof (cases "resultCh s")
    case Nil
    with Ranging assms show ?thesis
      by (auto simp: consumer_step_def cancel_inv_def received_append received_def
          split: prod.splits)
  next
    case (Cons r rest)
    with assms nd have r: "res_err r \<noteq> Some Canceled" by (auto simp: cancel_inv_def)
    obtain ct ev where o: "on_result (cfg_loginType c) r fe = (ct, ev)" by (metis prod.exhaust)
    from on_result_events(1) [of "cfg_loginType c" r fe] o have nr: "received ev = []" by simp
    have rc: "received [Cancel] = []" by (simp add: received_def)
    have rr: "received [Recv r] = [r]" by (simp add: received_def)
    have tr1: "received (trace s @ Recv r # ev) = received (trace s) @ [r]"
      using received_append [of "trace s" "[Recv r] @ ev"] received_append [of "[Recv r]" ev] nr rr
      by simp
    have tr2: "received (trace s @ Recv r # ev @ [Cancel]) = received (trace s) @ [r]"
      using received_append [of "trace s @ Recv r # ev" "[Cancel]"] tr1 rc by simp
    show ?thesis
    proof (cases ct)
      case (Continue fe')
      with Ranging Cons o assms r tr1 show ?thesis
        by (auto simp: consumer_step_def cancel_inv_def)
    next
      case (Return d e)
      with Ranging Cons o assms r tr2 show ?thesis
        by (auto simp: consumer_step_def cancel_inv_def)
    qed
  qed
qed

lemma step_cancel_inv: "cancel_inv s \<Longrightarrow> cancel_inv (step c a s)"
  by (cases a) (simp_all add: worker_step_cancel_inv discard_step_cancel_inv consumer_step_cancel_inv)

lemma run_cancel_inv: "cancel_inv s \<Longrightarrow> cancel_inv (run c sched s)"
  by (induction sched arbitrary: s) (simp_all add: step_cancel_inv)

lemma init_cancel_inv: "cancel_inv (init c)"
  by (simp add: cancel_inv_def init_def received_def)

lemma drain_snoc:
  "drain lt fe0 rs = (Continue fe, ev, rest) \<Longrightarrow>
     rest = [] \<and> drain lt fe0 (rs @ [r]) = (case on_result lt r fe of (ct, ev') \<Rightarrow> (ct, ev @ ev', []))"
proof (induction rs arbitrary: fe0 ev)
  case Nil
  then show ?case by (auto split: prod.splits ctl.splits)
next
  case (Cons x rs)
  obtain ct1 ev1 where o: "on_result lt x fe0 = (ct1, ev1)" by (metis prod.exhaust)
  show ?case
  proof (cases ct1)
    case (Return d e)
    with o Cons.prems show ?thesis by simp
  next
    case (Continue fe1)
    obtain c2 ev2 rest2 where d: "drain lt fe1 rs = (c2, ev2, rest2)" by (metis prod.exhaust)
    with o Continue Cons.prems have c2: "c2 = Continue fe" "ev = ev1 @ ev2" "rest = rest2" by auto
    from Cons.IH [of fe1 ev2] d c2 have
      "rest2 = [] \<and> drain lt fe1 (rs @ [r]) = (case on_result lt r fe of (ct, ev') \<Rightarrow> (ct, ev2 @ ev', []))"
      by simp
    with o Continue c2 show ?thesis by (auto split: prod.splits)
  qed
qed

lemma link_inv_cong:
  "consumer s' = consumer s \<Longrightarrow> received (trace s') = received (trace s) \<Longrightarrow>
     loop_events (trace s') = loop_events (trace s) \<Longrightarrow> link_inv c s' = link_inv c s"
  by (simp add: link_inv_def split: consumer.splits)

lemma worker_step_frame:
  "consumer (worker_step c i s) = consumer s"
  "ctx_done (worker_step c i s) = ctx_done s"
  "received (trace (worker_step c i s)) = received (trace s)"
  "loop_events (trace (worker_step c i s)) = loop_events (trace s)"
proof -
  have ev: "\<And>d rc err tr. singleHostRequest (cfg_world c) (count_posts (trace s)) d
      (cfg_hosts c ! i) (cfg_api c) (cfg_form c) = ((rc, err), tr)
      \<Longrightarrow> received tr = [] \<and> loop_events tr = []"
  proof -
    fix d rc err tr
    assume sh: "singleHostRequest (cfg_world c) (count_posts (trace s)) d
      (cfg_hosts c ! i) (cfg_api c) (cfg_form c) = ((rc, err), tr)"
    from singleHostRequest_events(1,2) [of "cfg_world c" "count_posts (trace s)" d
        "cfg_hosts c ! i" "cfg_api c" "cfg_form c"] sh
    show "received tr = [] \<and> loop_events tr = []" by simp
  qed
  show "consumer (worker_step c i s) = consumer s"
    by (simp add: worker_step_def split: worker.splits prod.splits)
  show "ctx_done (worker_step c i s) = ctx_done s"
    by (simp add: worker_step_def split: worker.splits prod.splits)
  show "received (trace (worker_step c i s)) = received (trace s)"
    by (auto simp: worker_step_def received_append split: worker.splits prod.splits dest: ev)
  show "loop_events (trace (worker_step c i s)) = loop_events (trace s)"
    by (auto simp: worker_step_def loop_events_append split: worker.splits prod.splits dest: ev)
qed

lemma discard_step_frame:
  "consumer (discard_step i s) = consumer s"
  "ctx_done (discard_step i s) = ctx_done s"
  "trace (discard_step i s) = trace s"
  "resultCh (discard_step i s) = resultCh s"
  by (simp_all add: discard_step_def split: worker.splits)

lemma worker_step_link_inv: "link_inv c s \<Longrightarrow> link_inv c (worker_step c i s)"
  using link_inv_cong [OF worker_step_frame(1) worker_step_frame(3) worker_step_frame(4)]
  by blast

lemma discard_step_link_inv: "link_inv c s \<Longrightarrow> link_inv c (discard_step i s)"
  using link_inv_cong [of "discard_step i s" s c] by (simp add: discard_step_frame)

lemma consumer_step_link_inv:
  assumes "link_inv c s"
  shows "link_inv c (consumer_step c s)"
proof (cases "consumer s")
  case (Returned d e)
  with assms show ?thesis by (simp add: consumer_step_def)
next
  case (Ranging fe)
  let ?lt = "cfg_loginType c"
  from assms Ranging
  have dr: "drain ?lt None (received (trace s)) = (Continue fe, loop_events (trace s), [])"
    by (simp add: link_inv_def)
  show ?thesis
  proof (cases "resultCh s")
    case Nil
    show ?thesis
    proof (cases "list_all (\<lambda>w. w = Exited) (workers s)")
      case False
      with Ranging Nil assms show ?thesis by (simp add: consumer_step_def)
    next
      case True
      have "range_resultCh ?lt (received (trace s)) = (after_loop fe, loop_events (trace s), [])"
        using dr by (simp add: range_resultCh_def)
      moreover have "received (trace s @ [Cancel]) = received (trace s)"
        by (simp add: received_def)
      moreover have "loop_events (trace s @ [Cancel]) = loop_events (trace s) @ [Cancel]"
        by (simp add: loop_events_def)
      ultimately show ?thesis using Ranging Nil True
        by (auto simp: consumer_step_def link_inv_def split: prod.splits)
    qed
  next
    case (Cons r rest)
    obtain ct ev where o: "on_result ?lt r fe = (ct, ev)" by (metis prod.exhaust)
    from on_result_events(1,2) [of ?lt r fe] o
    have nr: "received ev = []" and le: "loop_events ev = ev" by simp_all
    have rcv1: "received (trace s @ Recv r # ev) = received (trace s) @ [r]"
      using nr by (simp add: received_def)
    have rcv2: "received (trace s @ Recv r # ev @ [Cancel]) = received (trace s) @ [r]"
      using nr by (simp add: received_def)
    have lev1: "loop_events (trace s @ Recv r # ev) = loop_events (trace s) @ ev"
      using le by (simp add: loop_events_def)
    have lev2: "loop_events (trace s @ Recv r # ev @ [Cancel]) = (loop_events (trace s) @ ev) @ [Cancel]"
      using le by (simp add: loop_events_def)
    from drain_snoc [OF dr, of r] o
    have ds: "drain ?lt None (received (trace s) @ [r]) = (ct, loop_events (trace s) @ ev, [])"
      by simp
    show ?thesis
    proof (cases ct)
      case (Continue fe')
      with Ranging Cons o ds rcv1 lev1 show ?thesis
        by (simp add: consumer_step_def link_inv_def)
    next
      case (Return d e)
      with ds have "range_resultCh ?lt (received (trace s) @ [r]) = ((d, e), loop_events (trace s) @ ev, [])"
        by (simp add: range_resultCh_def)
      with Return Ranging Cons o rcv2 lev2 show ?thesis
        by (simp add: consumer_step_def link_inv_def)
    qed
  qed
qed

lemma step_link_inv: "link_inv c s \<Longrightarrow> link_inv c (step c a s)"
  by (cases a) (simp_all add: worker_step_link_inv discard_step_link_inv consumer_step_link_inv)

lemma run_link_inv: "link_inv c s \<Longrightarrow> link_inv c (run c sched s)"
  by (induction sched arbitrary: s) (simp_all add: step_link_inv)

lemma init_link_inv: "link_inv c (init c)"
  by (simp add: link_inv_def init_def received_def loop_events_def)

lemma sum_list_map_update:
  fixes f :: "'a \<Rightarrow> nat"
  shows "i < length ws \<Longrightarrow> sum_list (map f (ws[i := w])) + f (ws ! i) = sum_list (map f ws) + f w"
proof (induction ws arbitrary: i)
  case Nil
  then show ?case by simp
next
  case (Cons x ws)
  then show ?case by (cases i) (auto simp: add.assoc)
qed

lemma worker_step_potential:
  assumes i: "i < length (workers s)" and live: "workers s ! i \<noteq> Exited"
  shows "potential (worker_step c i s) < potential s"
proof -
  let ?S = "sum_list (map weight (workers s))"
  have upd: "\<And>w. sum_list (map weight ((workers s)[i := w])) + weight (workers s ! i) = ?S + weight w"
    using sum_list_map_update [OF i, of weight] by simp
  show ?thesis
  proof (cases "workers s ! i")
    case Spawned
    with i upd [of Exited] upd [of Entered] show ?thesis
      by (simp add: worker_step_def potential_def)
  next
    case Entered
    with i upd [of Posting] upd [of "Holding FunnelResponse_zero (Some Canceled)"] show ?thesis
      by (simp add: worker_step_def potential_def singleHostRequest_def)
  next
    case Posting
    obtain rc err tr where sh: "singleHostRequest (cfg_world c) (count_posts (trace s)) False
        (cfg_hosts c ! i) (cfg_api c) (cfg_form c) = ((rc, err), tr)"
      by (metis prod.exhaust)
    with Posting i upd [of "Holding rc err"] show ?thesis
      by (simp add: worker_step_def potential_def)
  next
    case (Holding rc err)
    with i upd [of Exited] show ?thesis
      by (simp add: worker_step_def potential_def)
  next
    case Exited
    with live show ?thesis by simp
  qed
qed

lemma all_Exited_or_live:
  "list_all (\<lambda>w. w = Exited) ws \<or> (\<exists>i<length ws. ws ! i \<noteq> Exited)"
  by (auto simp: list_all_iff in_set_conv_nth)

lemma consumer_step_potential:
  assumes "consumer s = Ranging fe" and "list_all (\<lambda>w. w = Exited) (workers s)"
  shows "potential (consumer_step c s) < potential s"
proof (cases "resultCh s")
  case Nil
  with assms show ?thesis
    by (simp add: consumer_step_def potential_def split: prod.splits)
next
  case (Cons r rest)
  obtain ct ev where o: "on_result (cfg_loginType c) r fe = (ct, ev)" by (metis prod.exhaust)
  with assms Cons show ?thesis
    by (cases ct) (simp_all add: consumer_step_def potential_def)
qed

lemma progress:
  assumes "consumer s = Ranging fe"
  shows "\<exists>a. potential (step c a s) < potential s"
proof (cases "list_all (\<lambda>w. w = Exited) (workers s)")
  case True
  from consumer_step_potential [OF assms True, of c] have "potential (step c Consume s) < potential s"
    by simp
  then show ?thesis ..
next
  case False
  with all_Exited_or_live [of "workers s"] obtain i where "i < length (workers s)"
    "workers s ! i \<noteq> Exited" by auto
  from worker_step_potential [OF this, of c] have "potential (step c (Step i) s) < potential s"
    by simp
  then show ?thesis ..
qed

lemma some_schedule_returns: "\<exists>sched d e. consumer (run c sched s) = Returned d e"
proof (induction "potential s" arbitrary: s rule: less_induct)
  case less
  show ?case
  proof (cases "consumer s")
    case (Returned d e)
    then have "consumer (run c [] s) = Returned d e" by simp
    then show ?thesis by blast
  next
    case (Ranging fe)
    from progress [OF Ranging, of c] obtain a where "potential (step c a s) < potential s" ..
    from less [OF this] obtain sched d e where "consumer (run c sched (step c a s)) = Returned d e"
      by blast
    then have "consumer (run c (a # sched) s) = Returned d e" by simp
    then show ?thesis by blast
  qed
qed

lemma step_Returned_stable:
  "consumer s = Returned d e \<Longrightarrow> consumer (step c a s) = Returned d e"
  by (cases a) (simp_all add: worker_step_frame discard_step_frame consumer_step_def)

lemma run_Returned_stable:
  "consumer s = Returned d e \<Longrightarrow> consumer (run c sched s) = Returned d e"
  by (induction sched arbitrary: s) (simp_all add: step_Returned_stable)

lemma run_append: "run c (xs @ ys) s = run c ys (run c xs s)"
  by (induction xs arbitrary: s) simp_all

lemma count_posts_append: "count_posts (xs @ ys) = count_posts xs + count_posts ys"
  by (simp add: count_posts_def)

lemma worker_step_bound_inv:
  assumes "bound_inv s"
  shows "bound_inv (worker_step c i s)"
proof (cases "i < length (workers s)")
  case False
  with assms show ?thesis by (simp add: worker_step_def)
next
  case True
  have p: "\<And>w. sum_list (map may_post ((workers s)[i := w])) + may_post (workers s ! i)
      = sum_list (map may_post (workers s)) + may_post w"
    using sum_list_map_update [OF True, of may_post] by simp
  have q: "\<And>w. sum_list (map may_send ((workers s)[i := w])) + may_send (workers s ! i)
      = sum_list (map may_send (workers s)) + may_send w"
    using sum_list_map_update [OF True, of may_send] by simp
  show ?thesis
  proof (cases "workers s ! i")
    case Spawned
    with True assms p [of Exited] p [of Entered] q [of Exited] q [of Entered] show ?thesis
      by (simp add: worker_step_def bound_inv_def)
  next
    case Entered
    with True assms p [of Posting] p [of "Holding FunnelResponse_zero (Some Canceled)"]
      q [of Posting] q [of "Holding FunnelResponse_zero (Some Canceled)"] show ?thesis
      by (simp add: worker_step_def bound_inv_def singleHostRequest_def)
  next
    case Posting
    obtain rc err tr where sh: "singleHostRequest (cfg_world c) (count_posts (trace s)) False
        (cfg_hosts c ! i) (cfg_api c) (cfg_form c) = ((rc, err), tr)"
      by (metis prod.exhaust)
    from singleHostRequest_events(1,3) [of "cfg_world c" "count_posts (trace s)" False
        "cfg_hosts c ! i" "cfg_api c" "cfg_form c"] sh
    have tr: "received tr = []" "count_posts tr = 1" by simp_all
    with Posting True assms sh p [of "Holding rc err"] q [of "Holding rc err"] show ?thesis
      by (simp add: worker_step_def bound_inv_def count_posts_append received_append)
  next
    case (Holding rc err)
    with True assms p [of Exited] q [of Exited] show ?thesis
      by (simp add: worker_step_def bound_inv_def)
  next
    case Exited
    with True assms show ?thesis by (simp add: worker_step_def)
  qed
qed

lemma discard_step_bound_inv:
  assumes "bound_inv s"
  shows "bound_inv (discard_step i s)"
proof (cases "i < length (workers s) \<and> ctx_done s")
  case False
  with assms show ?thesis by (auto simp: discard_step_def)
next
  case True
  then have i: "i < length (workers s)" by simp
  have p: "\<And>w. sum_list (map may_post ((workers s)[i := w])) + may_post (workers s ! i)
      = sum_list (map may_post (workers s)) + may_post w"
    using sum_list_map_update [OF i, of may_post] by simp
  have q: "\<And>w. sum_list (map may_send ((workers s)[i := w])) + may_send (workers s ! i)
      = sum_list (map may_send (workers s)) + may_send w"
    using sum_list_map_update [OF i, of may_send] by simp
  show ?thesis
  proof (cases "workers s ! i")
    case (Holding rc err)
    with True assms p [of Exited] q [of Exited] show ?thesis
      by (simp add: discard_step_def bound_inv_def)
  qed (use True assms in \<open>simp_all add: discard_step_def\<close>)
qed

lemma consumer_step_bound_inv:
  assumes "bound_inv s"
  shows "bound_inv (consumer_step c s)"
proof (cases "consumer s")
  case (Returned d e)
  with assms show ?thesis by (simp add: consumer_step_def)
next
  case (Ranging fe)
  show ?thesis
  proof (cases "resultCh s")
    case Nil
    with Ranging assms show ?thesis
      by (auto simp: consumer_step_def bound_inv_def count_posts_def received_def
          split: prod.splits)
  next
    case (Cons r rest)
    obtain ct ev where o: "on_result (cfg_loginType c) r fe = (ct, ev)" by (metis prod.exhaust)
    from on_result_events(1,3) [of "cfg_loginType c" r fe] o
    have ev: "received ev = []" "count_posts ev = 0" by simp_all
    have r1: "received (trace s @ Recv r # ev) = received (trace s) @ [r]"
      using ev by (simp add: received_def)
    have r2: "received (trace s @ Recv r # ev @ [Cancel]) = received (trace s) @ [r]"
      using ev by (simp add: received_def)
    have c1: "count_posts (trace s @ Recv r # ev) = count_posts (trace s)"
      using ev by (simp add: count_posts_def)
    have c2: "count_posts (trace s @ Recv r # ev @ [Cancel]) = count_posts (trace s)"
      using ev by (simp add: count_posts_def)
    from Ranging Cons o assms r1 r2 c1 c2 show ?thesis
      by (cases ct) (simp_all add: consumer_step_def bound_inv_def)
  qed
qed

lemma step_bound_inv: "bound_inv s \<Longrightarrow> bound_inv (step c a s)"
  by (cases a) (simp_all add: worker_step_bound_inv discard_step_bound_inv consumer_step_bound_inv)

lemma run_bound_inv: "bound_inv s \<Longrightarrow> bound_inv (run c sched s)"
  by (induction sched arbitrary: s) (simp_all add: step_bound_inv)

lemma init_bound_inv: "bound_inv (init c)"
  by (simp add: bound_inv_def init_def count_posts_def received_def sum_list_replicate)

lemma step_length_workers: "length (workers (step c a s)) = length (workers s)"
  by (cases a)
     (auto simp: worker_step_def discard_step_def consumer_step_def
        split: worker.splits prod.splits consumer.splits list.splits ctl.splits)

lemma run_length_workers: "length (workers (run c sched s)) = length (workers s)"
  by (induction sched arbitrary: s) (simp_all add: step_length_workers)

section \<open>The results of a race are results of the candidates\<close>

lemma produced_zero_Canceled: "produced c i FunnelResponse_zero (Some Canceled)"
  unfolding produced_def by (rule exI [of _ 0], rule exI [of _ True]) (simp add: singleHostRequest_def)

lemma worker_step_channel:
  "set (resultCh (worker_step c i s)) \<subseteq>
     set (resultCh s) \<union> {r. \<exists>rc err. i < length (workers s) \<and> workers s ! i = Holding rc err
                              \<and> r = \<lparr>res_host = cfg_hosts c ! i, res_rc = rc, res_err = err\<rparr>}"
  by (auto simp: worker_step_def split: worker.splits prod.splits if_splits)

lemma worker_step_length: "length (workers (worker_step c i s)) = length (workers s)"
  by (simp add: worker_step_def split: worker.splits prod.splits)

lemma worker_step_Holding:
  assumes "j < length (workers s)" and "workers (worker_step c i s) ! j = Holding rc err"
  shows "workers s ! j = Holding rc err
       \<or> (j = i \<and> (\<exists>d. fst (singleHostRequest (cfg_world c) (count_posts (trace s)) d
                              (cfg_hosts c ! i) (cfg_api c) (cfg_form c)) = (rc, err)))"
proof (cases "j = i")
  case False
  with assms show ?thesis
    by (auto simp: worker_step_def split: worker.splits prod.splits if_splits)
next
  case True
  show ?thesis
  proof (cases "workers s ! i")
    case Spawned
    with assms True show ?thesis by (simp add: worker_step_def split: if_splits)
  next
    case Entered
    with assms True show ?thesis
      by (auto simp: worker_step_def split: if_splits prod.splits; metis fst_conv)
  next
    case Posting
    with assms True show ?thesis
      by (auto simp: worker_step_def split: if_splits prod.splits; metis fst_conv)
  next
    case (Holding rc' err')
    with assms True show ?thesis by (simp add: worker_step_def)
  next
    case Exited
    with assms True show ?thesis by (simp add: worker_step_def)
  qed
qed

lemma worker_step_origin_inv:
  assumes "origin_inv c s"
  shows "origin_inv c (worker_step c i s)"
proof -
  let ?s' = "worker_step c i s"
  have h: "\<forall>j<length (workers ?s'). \<forall>rc err. workers ?s' ! j = Holding rc err \<longrightarrow> produced c j rc err"
  proof (intro allI impI)
    fix j rc err
    assume j: "j < length (workers ?s')" and w: "workers ?s' ! j = Holding rc err"
    from j have j': "j < length (workers s)" by (simp add: worker_step_length)
    from worker_step_Holding [OF j' w] assms j' show "produced c j rc err"
      by (auto simp: origin_inv_def produced_def)
  qed
  have r: "\<forall>r\<in>set (resultCh ?s') \<union> set (received (trace ?s')).
            \<exists>j<length (workers ?s'). res_host r = cfg_hosts c ! j \<and> produced c j (res_rc r) (res_err r)"
  proof
    fix r
    assume "r \<in> set (resultCh ?s') \<union> set (received (trace ?s'))"
    then have "r \<in> set (resultCh s) \<union> set (received (trace s))
        \<or> (\<exists>rc err. i < length (workers s) \<and> workers s ! i = Holding rc err
              \<and> r = \<lparr>res_host = cfg_hosts c ! i, res_rc = rc, res_err = err\<rparr>)"
      using worker_step_channel [of c i s] by (auto simp: worker_step_frame)
    then show "\<exists>j<length (workers ?s'). res_host r = cfg_hosts c ! j \<and> produced c j (res_rc r) (res_err r)"
    proof
      assume "r \<in> set (resultCh s) \<union> set (received (trace s))"
      with assms show ?thesis by (simp add: origin_inv_def worker_step_length)
    next
      assume "\<exists>rc err. i < length (workers s) \<and> workers s ! i = Holding rc err
              \<and> r = \<lparr>res_host = cfg_hosts c ! i, res_rc = rc, res_err = err\<rparr>"
      then obtain rc err where i: "i < length (workers s)" and w: "workers s ! i = Holding rc err"
        and r: "r = \<lparr>res_host = cfg_hosts c ! i, res_rc = rc, res_err = err\<rparr>" by blast
      from assms i w have "produced c i rc err" by (simp add: origin_inv_def)
      with i r show ?thesis by (auto simp: worker_step_length)
    qed
  qed
  from h r show ?thesis by (simp add: origin_inv_def)
qed

lemma discard_step_length: "length (workers (discard_step i s)) = length (workers s)"
  by (simp add: discard_step_def split: worker.splits)

lemma discard_step_Holding:
  "j < length (workers s) \<Longrightarrow> workers (discard_step i s) ! j = Holding rc err \<Longrightarrow>
     workers s ! j = Holding rc err"
  by (cases "j = i") (auto simp: discard_step_def split: worker.splits if_splits)

lemma discard_step_origin_inv:
  assumes "origin_inv c s"
  shows "origin_inv c (discard_step i s)"
  using assms discard_step_Holding [of _ s i]
  by (auto simp: origin_inv_def discard_step_frame discard_step_length)

lemma consumer_step_workers: "workers (consumer_step c s) = workers s"
  by (simp add: consumer_step_def split: consumer.splits list.splits prod.splits ctl.splits)

lemma consumer_step_results:
  "set (resultCh (consumer_step c s)) \<union> set (received (trace (consumer_step c s)))
     \<subseteq> set (resultCh s) \<union> set (received (trace s))"
proof (cases "consumer s")
  case (Returned d e)
  then show ?thesis by (simp add: consumer_step_def)
next
  case (Ranging fe)
  show ?thesis
  proof (cases "resultCh s")
    case Nil
    with Ranging show ?thesis
      by (auto simp: consumer_step_def received_def split: prod.splits)
  next
    case (Cons r rest)
    obtain ct ev where o: "on_result (cfg_loginType c) r fe = (ct, ev)" by (metis prod.exhaust)
    from on_result_events(1) [of "cfg_loginType c" r fe] o have nr: "received ev = []" by simp
    have rcv1: "received (trace s @ Recv r # ev) = received (trace s) @ [r]"
      using nr by (simp add: received_def)
    have rcv2: "received (trace s @ Recv r # ev @ [Cancel]) = received (trace s) @ [r]"
      using nr by (simp add: received_def)
    from Ranging Cons o rcv1 rcv2 show ?thesis
      by (cases ct) (auto simp: consumer_step_def)
  qed
qed

lemma consumer_step_origin_inv:
  assumes "origin_inv c s"
  shows "origin_inv c (consumer_step c s)"
  using assms consumer_step_results [of c s]
  unfolding origin_inv_def consumer_step_workers by blast

lemma step_origin_inv: "origin_inv c s \<Longrightarrow> origin_inv c (step c a s)"
  by (cases a) (simp_all add: worker_step_origin_inv discard_step_origin_inv consumer_step_origin_inv)

lemma run_origin_inv: "origin_inv c s \<Longrightarrow> origin_inv c (run c sched s)"
  by (induction sched arbitrary: s) (simp_all add: step_origin_inv)

lemma init_origin_inv: "origin_inv c (init c)"
  by (simp add: origin_inv_def init_def received_def)

subsection \<open>Every candidate is heard when none ends the race\<close>

lemma worker_step_channel_mono: "set (resultCh s) \<subseteq> set (resultCh (worker_step c i s))"
  by (auto simp: worker_step_def split: worker.splits prod.splits)

lemma worker_step_Exited:
  assumes "j < length (workers s)" and "workers (worker_step c i s) ! j = Exited"
  shows "workers s ! j = Exited \<or> ctx_done s
       \<or> cfg_hosts c ! j \<in> res_host ` set (resultCh (worker_step c i s))"
proof (cases "j = i")
  case False
  with assms show ?thesis
    by (auto simp: worker_step_def split: worker.splits prod.splits if_splits)
next
  case True
  show ?thesis
  proof (cases "workers s ! i")
    case Spawned
    with assms True show ?thesis by (simp add: worker_step_def split: if_splits)
  next
    case Entered
    with assms True show ?thesis by (auto simp: worker_step_def split: if_splits prod.splits)
  next
    case Posting
    with assms True show ?thesis by (auto simp: worker_step_def split: if_splits prod.splits)
  next
    case (Holding rc err)
    with assms True show ?thesis by (simp add: worker_step_def)
  next
    case Exited
    with True show ?thesis by simp
  qed
qed

lemma worker_step_complete_inv:
  assumes inv: "complete_inv c s" and ci: "cancel_inv s"
  shows "complete_inv c (worker_step c i s)"
proof (cases "\<exists>r\<in>set (received (trace s)). terminal r")
  case True
  then show ?thesis by (simp add: complete_inv_def worker_step_frame)
next
  case False
  show ?thesis
  proof (cases "consumer s")
    case (Returned d e)
    with inv False show ?thesis
      by (simp add: complete_inv_def worker_step_frame worker_step_length)
  next
    case (Ranging fe)
    with ci have nd: "\<not> ctx_done s" by (simp add: cancel_inv_def)
    from inv False Ranging
    have old: "\<forall>j<length (workers s). workers s ! j = Exited \<longrightarrow>
                 cfg_hosts c ! j \<in> res_host ` (set (received (trace s)) \<union> set (resultCh s))"
      by (simp add: complete_inv_def)
    have "\<forall>j<length (workers s). workers (worker_step c i s) ! j = Exited \<longrightarrow>
             cfg_hosts c ! j \<in> res_host ` (set (received (trace s)) \<union> set (resultCh (worker_step c i s)))"
    proof (intro allI impI)
      fix j
      assume j: "j < length (workers s)" and e: "workers (worker_step c i s) ! j = Exited"
      from worker_step_Exited [OF j e] nd
      have "workers s ! j = Exited \<or> cfg_hosts c ! j \<in> res_host ` set (resultCh (worker_step c i s))"
        by simp
      then show "cfg_hosts c ! j \<in> res_host ` (set (received (trace s)) \<union> set (resultCh (worker_step c i s)))"
      proof
        assume "workers s ! j = Exited"
        with old j have "cfg_hosts c ! j \<in> res_host ` (set (received (trace s)) \<union> set (resultCh s))"
          by simp
        with worker_step_channel_mono [of s c i] show ?thesis by blast
      next
        assume "cfg_hosts c ! j \<in> res_host ` set (resultCh (worker_step c i s))"
        then show ?thesis by blast
      qed
    qed
    with Ranging show ?thesis
      by (simp add: complete_inv_def worker_step_frame worker_step_length)
  qed
qed

lemma discard_step_complete_inv:
  assumes inv: "complete_inv c s" and ci: "cancel_inv s"
  shows "complete_inv c (discard_step i s)"
proof (cases "ctx_done s")
  case False
  then have "discard_step i s = s" by (simp add: discard_step_def)
  with inv show ?thesis by simp
next
  case True
  with ci obtain d e where "consumer s = Returned d e"
    by (cases "consumer s") (auto simp: cancel_inv_def)
  with inv show ?thesis
    by (simp add: complete_inv_def discard_step_frame discard_step_length)
qed

lemma consumer_step_complete_inv:
  assumes inv: "complete_inv c s"
  shows "complete_inv c (consumer_step c s)"
proof (cases "consumer s")
  case (Returned d e)
  with inv show ?thesis by (simp add: consumer_step_def)
next
  case (Ranging fe)
  show ?thesis
  proof (cases "\<exists>r\<in>set (received (trace s)). terminal r")
    case True
    then obtain x where x: "x \<in> set (received (trace s))" "terminal x" by blast
    have "set (received (trace s)) \<subseteq> set (received (trace (consumer_step c s)))"
      by (auto simp: consumer_step_def received_append
          split: consumer.splits list.splits prod.splits ctl.splits)
    with x show ?thesis by (auto simp: complete_inv_def)
  next
    case False
    with inv Ranging
    have old: "\<forall>j<length (workers s). workers s ! j = Exited \<longrightarrow>
                 cfg_hosts c ! j \<in> res_host ` (set (received (trace s)) \<union> set (resultCh s))"
      by (simp add: complete_inv_def)
    show ?thesis
    proof (cases "resultCh s")
      case Nil
      show ?thesis
      proof (cases "list_all (\<lambda>w. w = Exited) (workers s)")
        case nall: False
        with Ranging Nil inv show ?thesis by (simp add: consumer_step_def)
      next
        case all: True
        then have "\<forall>j<length (workers s). workers s ! j = Exited"
          by (simp add: list_all_length)
        with old Nil have "\<forall>j<length (workers s). cfg_hosts c ! j \<in> res_host ` set (received (trace s))"
          by simp
        moreover have "received (trace s @ [Cancel]) = received (trace s)" by (simp add: received_def)
        ultimately show ?thesis using Ranging Nil all
          by (simp add: complete_inv_def consumer_step_def split: prod.splits)
      qed
    next
      case (Cons r rest)
      obtain ct ev where o: "on_result (cfg_loginType c) r fe = (ct, ev)" by (metis prod.exhaust)
      from on_result_events(1) [of "cfg_loginType c" r fe] o have nr: "received ev = []" by simp
      have rcv1: "received (trace s @ Recv r # ev) = received (trace s) @ [r]"
        using nr by (simp add: received_def)
      have rcv2: "received (trace s @ Recv r # ev @ [Cancel]) = received (trace s) @ [r]"
        using nr by (simp add: received_def)
      show ?thesis
      proof (cases ct)
        case (Continue fe')
        from old Cons
        have "\<forall>j<length (workers s). workers s ! j = Exited \<longrightarrow>
                 cfg_hosts c ! j \<in> res_host ` (set (received (trace s) @ [r]) \<union> set rest)"
          by auto
        with Continue Ranging Cons o rcv1 show ?thesis
          by (simp add: complete_inv_def consumer_step_def)
      next
        case (Return d e)
        have "terminal r"
        proof (rule ccontr)
          assume "\<not> terminal r"
          from on_result_nonterminal [OF this, of "cfg_loginType c" fe] o Return show False
            by (simp split: if_splits)
        qed
        with Return Ranging Cons o rcv2 show ?thesis
          by (simp add: complete_inv_def consumer_step_def)
      qed
    qed
  qed
qed

lemma run_complete_inv:
  "complete_inv c s \<Longrightarrow> cancel_inv s \<Longrightarrow> complete_inv c (run c sched s)"
proof (induction sched arbitrary: s)
  case Nil
  then show ?case by simp
next
  case (Cons a sched)
  have "complete_inv c (step c a s)"
    using Cons.prems
    by (cases a)
       (simp_all add: worker_step_complete_inv discard_step_complete_inv consumer_step_complete_inv)
  moreover have "cancel_inv (step c a s)" using Cons.prems(2) by (rule step_cancel_inv)
  ultimately show ?case using Cons.IH by simp
qed

lemma init_complete_inv: "complete_inv c (init c)"
  by (simp add: complete_inv_def init_def received_def)

section \<open>Facts about the dispatcher\<close>


lemma FetchHandleOfPost_single:
  assumes "\<not> sublist ''zf'' api"
  shows "FetchHandleOfPost env form host api sched =
     (case singleHostRequest (env_world env) 0 False host api form of
        ((rc, err), tr) \<Rightarrow>
          (Some (if err \<noteq> None then (None, Some ServerError)
                 else if Code rc = 200 then (Data rc, None)
                 else if Code rc = 412 then (None, Some NoThatPasswordOrWrong)
                 else if Code rc = 416 then (None, Some OAuthNotUpdate)
                 else (None, Some ServerError)), tr))"
  using assms by (simp add: FetchHandleOfPost_def Let_def split: prod.splits)

lemma FetchHandleOfPost_no_candidates:
  assumes "sublist ''zf'' api"
    and "LoadBalance_List (env_oauth env) (env_store env) (env_LB env) (Values_Get form ''type'') = (h', snap)"
    and "candidates host (elems h' snap) = []"
  shows "FetchHandleOfPost env form host api sched =
           (Some (None, Some NoApiAvailable), [LBList (Values_Get form ''type'')])"
  using assms by (simp add: FetchHandleOfPost_def Let_def)

lemma FetchHandleOfPost_hedged:
  assumes "sublist ''zf'' api"
    and "LoadBalance_List (env_oauth env) (env_store env) (env_LB env) (Values_Get form ''type'') = (h', snap)"
    and "candidates host (elems h' snap) \<noteq> []"
    and "c = \<lparr>cfg_world = env_world env, cfg_hosts = candidates host (elems h' snap),
              cfg_loginType = Values_Get form ''type'', cfg_api = api, cfg_form = form\<rparr>"
  shows "FetchHandleOfPost env form host api sched =
           (returned (consumer (run c sched (init c))),
            LBList (Values_Get form ''type'') # trace (run c sched (init c)))"
  using assms by (simp add: FetchHandleOfPost_def Let_def)

lemma candidates_Nil: "candidates host hosts = [] \<longleftrightarrow> host = [] \<and> hosts = []"
proof (cases "host = []")
  case True
  then show ?thesis by (simp add: candidates_def)
next
  case False
  with candidates_props(1) [OF False, of hosts] show ?thesis by simp
qed

lemma dispatch_modes:
  obtains (single) "\<not> sublist ''zf'' api"
  | (none) h' snap where "sublist ''zf'' api"
      "LoadBalance_List (env_oauth env) (env_store env) (env_LB env) (Values_Get form ''type'') = (h', snap)"
      "candidates host (elems h' snap) = []"
  | (hedged) h' snap where "sublist ''zf'' api"
      "LoadBalance_List (env_oauth env) (env_store env) (env_LB env) (Values_Get form ''type'') = (h', snap)"
      "candidates host (elems h' snap) \<noteq> []"
  by (cases "LoadBalance_List (env_oauth env) (env_store env) (env_LB env) (Values_Get form ''type'')")
     blast


lemma dispatch_outcome_is_loop_outcome:
  assumes zf: "sublist ''zf'' api"
    and ls: "LoadBalance_List (env_oauth env) (env_store env) (env_LB env) (Values_Get form ''type'') = (h', snap)"
    and ne: "candidates host (elems h' snap) \<noteq> []"
    and out: "FetchHandleOfPost env form host api sched = (Some out, tr)"
  shows "out = fst (range_resultCh (Values_Get form ''type'') (received tr))
       \<and> loop_events tr = fst (snd (range_resultCh (Values_Get form ''type'') (received tr))) @ [Cancel]
       \<and> snd (snd (range_resultCh (Values_Get form ''type'') (received tr))) = []"
proof -
  let ?lt = "Values_Get form ''type''"
  let ?c = "\<lparr>cfg_world = env_world env, cfg_hosts = candidates host (elems h' snap),
              cfg_loginType = ?lt, cfg_api = api, cfg_form = form\<rparr>"
  let ?s = "run ?c sched (init ?c)"
  have inv: "link_inv ?c ?s" by (rule run_link_inv [OF init_link_inv])
  from out have r: "returned (consumer ?s) = Some out" and t: "tr = LBList ?lt # trace ?s"
    by (simp_all add: FetchHandleOfPost_hedged [OF zf ls ne refl])
  from r obtain d e where ret: "consumer ?s = Returned d e" and o: "out = (d, e)"
    by (cases "consumer ?s") auto
  from inv ret obtain ev where "loop_events (trace ?s) = ev @ [Cancel]"
    "range_resultCh ?lt (received (trace ?s)) = ((d, e), ev, [])"
    by (auto simp: link_inv_def)
  moreover have "received tr = received (trace ?s)" using t by (simp add: received_def)
  moreover have "loop_events tr = loop_events (trace ?s)" using t by (simp add: loop_events_def)
  ultimately show ?thesis using o by simp
qed

lemma dispatch_calls_bounded:
  assumes zf: "sublist ''zf'' api"
    and ls: "LoadBalance_List (env_oauth env) (env_store env) (env_LB env) (Values_Get form ''type'') = (h', snap)"
  shows "count_posts (snd (FetchHandleOfPost env form host api sched))
           \<le> length (candidates host (elems h' snap))"
proof (cases "candidates host (elems h' snap) = []")
  case True
  then show ?thesis
    by (simp add: FetchHandleOfPost_no_candidates [OF zf ls True] count_posts_def)
next
  case False
  let ?c = "\<lparr>cfg_world = env_world env, cfg_hosts = candidates host (elems h' snap),
              cfg_loginType = Values_Get form ''type'', cfg_api = api, cfg_form = form\<rparr>"
  let ?s = "run ?c sched (init ?c)"
  have "bound_inv ?s" by (rule run_bound_inv [OF init_bound_inv])
  then have "count_posts (trace ?s) \<le> length (workers ?s)" by (simp add: bound_inv_def)
  also have "\<dots> = length (candidates host (elems h' snap))"
    by (simp add: run_length_workers init_def)
  finally show ?thesis
    by (simp add: FetchHandleOfPost_hedged [OF zf ls False refl] count_posts_def)
qed

lemma dispatch_returns:
  "\<exists>sched out. fst (FetchHandleOfPost env form host api sched) = Some out"
proof (cases rule: dispatch_modes [where api = api and env = env and form = form and host = host])
  case single
  then show ?thesis by (auto simp: FetchHandleOfPost_single split: prod.splits)
next
  case (none h' snap)
  then show ?thesis by (simp add: FetchHandleOfPost_no_candidates)
next
  case (hedged h' snap)
  let ?c = "\<lparr>cfg_world = env_world env, cfg_hosts = candidates host (elems h' snap),
              cfg_loginType = Values_Get form ''type'', cfg_api = api, cfg_form = form\<rparr>"
  from some_schedule_returns [of ?c "init ?c"] obtain sched d e
    where "consumer (run ?c sched (init ?c)) = Returned d e" by blast
  then have "fst (FetchHandleOfPost env form host api sched) = Some (d, e)"
    by (simp add: FetchHandleOfPost_hedged [OF hedged refl])
  then show ?thesis by blast
qed

lemma dispatch_result_stable:
  assumes "fst (FetchHandleOfPost env form host api sched) = Some out"
  shows "fst (FetchHandleOfPost env form host api (sched @ later)) = Some out"
proof (cases rule: dispatch_modes [where api = api and env = env and form = form and host = host])
  case single
  with assms show ?thesis by (simp add: FetchHandleOfPost_single split: prod.splits)
next
  case (none h' snap)
  with assms show ?thesis by (simp add: FetchHandleOfPost_no_candidates)
next
  case (hedged h' snap)
  let ?c = "\<lparr>cfg_world = env_world env, cfg_hosts = candidates host (elems h' snap),
              cfg_loginType = Values_Get form ''type'', cfg_api = api, cfg_form = form\<rparr>"
  from assms have "returned (consumer (run ?c sched (init ?c))) = Some out"
    by (simp add: FetchHandleOfPost_hedged [OF hedged refl])
  then obtain d e where "consumer (run ?c sched (init ?c)) = Returned d e" "out = (d, e)"
    by (cases "consumer (run ?c sched (init ?c))") auto
  with run_Returned_stable [of "run ?c sched (init ?c)" d e ?c later]
  show ?thesis by (simp add: FetchHandleOfPost_hedged [OF hedged refl] run_append)
qed


lemma hedged_dispatch_outcome:
  assumes zf: "sublist ''zf'' api"
    and out: "FetchHandleOfPost env form host api sched = (Some out, tr)"
  shows "(out = (None, Some NoApiAvailable) \<and> tr = [LBList (Values_Get form ''type'')])
       \<or> (out = fst (range_resultCh (Values_Get form ''type'') (received tr))
          \<and> loop_events tr = fst (snd (range_resultCh (Values_Get form ''type'') (received tr))) @ [Cancel])"
proof (cases rule: dispatch_modes [where api = api and env = env and form = form and host = host])
  case single
  with zf show ?thesis by simp
next
  case (none h' snap)
  with out show ?thesis by (simp add: FetchHandleOfPost_no_candidates)
next
  case (hedged h' snap)
  from dispatch_outcome_is_loop_outcome [OF hedged out] show ?thesis by simp
qed

lemma dispatch_can_always_return:
  "\<exists>later out. fst (FetchHandleOfPost env form host api (sched @ later)) = Some out"
proof (cases rule: dispatch_modes [where api = api and env = env and form = form and host = host])
  case single
  then show ?thesis by (auto simp: FetchHandleOfPost_single split: prod.splits)
next
  case (none h' snap)
  then show ?thesis by (simp add: FetchHandleOfPost_no_candidates)
next
  case (hedged h' snap)
  let ?c = "\<lparr>cfg_world = env_world env, cfg_hosts = candidates host (elems h' snap),
              cfg_loginType = Values_Get form ''type'', cfg_api = api, cfg_form = form\<rparr>"
  from some_schedule_returns [of ?c "run ?c sched (init ?c)"] obtain later d e
    where "consumer (run ?c later (run ?c sched (init ?c))) = Returned d e" by blast
  then have "fst (FetchHandleOfPost env form host api (sched @ later)) = Some (d, e)"
    by (simp add: FetchHandleOfPost_hedged [OF hedged refl] run_append)
  then show ?thesis by blast
qed

section \<open>What a race returns\<close>

lemma all_failures:
  "\<forall>x\<in>set pre. res_err x \<noteq> Some Canceled \<Longrightarrow>
     [CBFail (res_host x) lt. x \<leftarrow> pre, res_err x \<noteq> Some Canceled]
       = map (\<lambda>x. CBFail (res_host x) lt) pre"
  by (induction pre) simp_all

lemma race_terminal_received:
  assumes li: "link_inv c s" and ci: "cancel_inv s"
    and rcv: "received (trace s) = pre @ r # post"
    and pre: "\<forall>x\<in>set pre. \<not> terminal x" and r: "terminal r"
  shows "post = []
       \<and> consumer s = Returned (fst (verdict r)) (snd (verdict r))
       \<and> loop_events (trace s) =
           map (\<lambda>x. CBFail (res_host x) (cfg_loginType c)) pre
             @ [CBSuccess (res_host r) (cfg_loginType c), Cancel, Cancel]
       \<and> ctx_done s"
proof -
  let ?lt = "cfg_loginType c"
  from ci rcv have nc: "\<forall>x\<in>set pre. res_err x \<noteq> Some Canceled" by (auto simp: cancel_inv_def)
  have dr: "drain ?lt None (received (trace s)) =
      (Return (fst (verdict r)) (snd (verdict r)),
       map (\<lambda>x. CBFail (res_host x) ?lt) pre @ [CBSuccess (res_host r) ?lt, Cancel], post)"
    using drain_first_terminal [OF pre r, of ?lt None post] rcv all_failures [OF nc, of ?lt] by simp
  show ?thesis
  proof (cases "consumer s")
    case (Ranging fe)
    with li dr show ?thesis by (simp add: link_inv_def)
  next
    case (Returned d e)
    with li obtain ev where ev: "loop_events (trace s) = ev @ [Cancel]"
      and rr: "range_resultCh ?lt (received (trace s)) = ((d, e), ev, [])"
      by (auto simp: link_inv_def)
    from dr have "range_resultCh ?lt (received (trace s)) =
        ((fst (verdict r), snd (verdict r)),
         map (\<lambda>x. CBFail (res_host x) ?lt) pre @ [CBSuccess (res_host r) ?lt, Cancel], post)"
      by (simp add: range_resultCh_def)
    with rr have "post = []" "d = fst (verdict r)" "e = snd (verdict r)"
      "ev = map (\<lambda>x. CBFail (res_host x) ?lt) pre @ [CBSuccess (res_host r) ?lt, Cancel]"
      by simp_all
    moreover from ci Returned have "ctx_done s" by (simp add: cancel_inv_def)
    ultimately show ?thesis using Returned ev by simp
  qed
qed

lemma race_Ranging:
  assumes li: "link_inv c s" and ci: "cancel_inv s" and rg: "consumer s = Ranging fe"
  shows "(\<forall>x\<in>set (received (trace s)). \<not> terminal x)
       \<and> fe = (if received (trace s) = [] then None else Some ServerError)
       \<and> loop_events (trace s) = map (\<lambda>x. CBFail (res_host x) (cfg_loginType c)) (received (trace s))"
proof -
  let ?lt = "cfg_loginType c"
  let ?rs = "received (trace s)"
  from li rg have dr: "drain ?lt None ?rs = (Continue fe, loop_events (trace s), [])"
    by (simp add: link_inv_def)
  have nt: "\<forall>x\<in>set ?rs. \<not> terminal x"
  proof (rule ccontr)
    assume "\<not> (\<forall>x\<in>set ?rs. \<not> terminal x)"
    then have "\<exists>x\<in>set ?rs. terminal x" by simp
    then obtain pre r post where sp: "?rs = pre @ r # post" and r: "terminal r"
      and pre: "\<forall>x\<in>set pre. \<not> terminal x"
      using split_list_first_prop [of ?rs terminal] by blast
    from drain_first_terminal [OF pre r, of ?lt None post] sp dr show False by simp
  qed
  from ci have nc: "\<forall>x\<in>set ?rs. res_err x \<noteq> Some Canceled" by (simp add: cancel_inv_def)
  then have ex: "(\<exists>x\<in>set ?rs. res_err x \<noteq> Some Canceled) \<longleftrightarrow> ?rs \<noteq> []"
    by (cases ?rs) auto
  have "drain ?lt None ?rs =
      (Continue (if ?rs = [] then None else Some ServerError),
       map (\<lambda>x. CBFail (res_host x) ?lt) ?rs, [])"
    unfolding drain_nonterminal [OF nt, of ?lt None] all_failures [OF nc, of ?lt]
    using ex by simp
  with dr have "fe = (if ?rs = [] then None else Some ServerError)"
    "loop_events (trace s) = map (\<lambda>x. CBFail (res_host x) ?lt) ?rs"
    by simp_all
  with nt show ?thesis by simp
qed

lemma race_exhausted:
  assumes li: "link_inv c s" and ci: "cancel_inv s" and co: "complete_inv c s"
    and nt: "\<forall>x\<in>set (received (trace s)). \<not> terminal x"
    and ret: "consumer s = Returned d e"
  shows "d = None \<and> e = Some ServerError
       \<and> loop_events (trace s) =
           map (\<lambda>x. CBFail (res_host x) (cfg_loginType c)) (received (trace s)) @ [Cancel]
       \<and> (\<forall>i<length (workers s). cfg_hosts c ! i \<in> res_host ` set (received (trace s)))"
proof -
  let ?lt = "cfg_loginType c"
  let ?rs = "received (trace s)"
  from li ret obtain ev where ev: "loop_events (trace s) = ev @ [Cancel]"
    and rr: "range_resultCh ?lt ?rs = ((d, e), ev, [])"
    by (auto simp: link_inv_def)
  from ci have nc: "\<forall>x\<in>set ?rs. res_err x \<noteq> Some Canceled" by (simp add: cancel_inv_def)
  have "range_resultCh ?lt ?rs = ((None, Some ServerError), map (\<lambda>x. CBFail (res_host x) ?lt) ?rs, [])"
    unfolding range_resultCh_def drain_nonterminal [OF nt, of ?lt None] all_failures [OF nc, of ?lt]
    by (simp add: after_loop_def)
  with rr have "d = None" "e = Some ServerError" "ev = map (\<lambda>x. CBFail (res_host x) ?lt) ?rs"
    by simp_all
  moreover from co nt ret
  have "\<forall>i<length (workers s). cfg_hosts c ! i \<in> res_host ` set (received (trace s))"
    by (simp add: complete_inv_def)
  ultimately show ?thesis using ev by simp
qed

lemma race_Returned:
  assumes li: "link_inv c s" and ret: "consumer s = Returned d e"
  shows "(\<exists>pre r. received (trace s) = pre @ [r] \<and> (\<forall>x\<in>set pre. \<not> terminal x) \<and> terminal r
                 \<and> (d, e) = verdict r)
       \<or> (\<forall>x\<in>set (received (trace s)). \<not> terminal x)"
proof (cases "\<forall>x\<in>set (received (trace s)). \<not> terminal x")
  case True
  then show ?thesis by simp
next
  case False
  let ?lt = "cfg_loginType c"
  let ?rs = "received (trace s)"
  from False have "\<exists>x\<in>set ?rs. terminal x" by simp
  then obtain pre r post where sp: "?rs = pre @ r # post" and r: "terminal r"
    and pre: "\<forall>x\<in>set pre. \<not> terminal x"
    using split_list_first_prop [of ?rs terminal] by blast
  from li ret obtain ev where rr: "range_resultCh ?lt ?rs = ((d, e), ev, [])"
    by (auto simp: link_inv_def)
  from drain_first_terminal [OF pre r, of ?lt None post] sp
  have "range_resultCh ?lt ?rs = (verdict r,
       [CBFail (res_host x) ?lt. x \<leftarrow> pre, res_err x \<noteq> Some Canceled]
         @ [CBSuccess (res_host r) ?lt, Cancel], post)"
    by (simp add: range_resultCh_def)
  with rr have "post = []" "(d, e) = verdict r" by simp_all
  with sp pre r show ?thesis by auto
qed

lemma received_produced:
  assumes oi: "origin_inv c s" and ci: "cancel_inv s" and r: "r \<in> set (received (trace s))"
  shows "\<exists>i<length (workers s). \<exists>k. res_host r = cfg_hosts c ! i
           \<and> fst (singleHostRequest (cfg_world c) k False (cfg_hosts c ! i) (cfg_api c) (cfg_form c))
               = (res_rc r, res_err r)"
proof -
  from oi r have "\<exists>i<length (workers s). res_host r = cfg_hosts c ! i
      \<and> produced c i (res_rc r) (res_err r)"
    unfolding origin_inv_def by blast
  then obtain i where i: "i < length (workers s)" and h: "res_host r = cfg_hosts c ! i"
    and p: "produced c i (res_rc r) (res_err r)" by blast
  from p obtain k d where sh: "fst (singleHostRequest (cfg_world c) k d (cfg_hosts c ! i) (cfg_api c)
      (cfg_form c)) = (res_rc r, res_err r)" by (auto simp: produced_def)
  from ci r have "res_err r \<noteq> Some Canceled" by (simp add: cancel_inv_def)
  with sh have "\<not> d" by (auto simp: singleHostRequest_def)
  with sh i h show ?thesis by auto
qed

lemma consumer_step_terminal:
  assumes "consumer s = Ranging fe" and "resultCh s = r # rest" and "terminal r"
  shows "consumer_step c s =
           s\<lparr>resultCh := rest, consumer := Returned (fst (verdict r)) (snd (verdict r)),
             ctx_done := True,
             trace := trace s @ [Recv r, CBSuccess (res_host r) (cfg_loginType c), Cancel, Cancel]\<rparr>"
  using assms on_result_terminal [OF assms(3), of "cfg_loginType c" fe]
  by (simp add: consumer_step_def)

lemma consumer_step_closed:
  assumes "consumer s = Ranging fe" and "resultCh s = []"
    and "list_all (\<lambda>w. w = Exited) (workers s)"
  shows "consumer_step c s =
           s\<lparr>consumer := Returned None (Some (case fe of None \<Rightarrow> ServerError | Some e \<Rightarrow> e)),
             ctx_done := True, trace := trace s @ [Cancel]\<rparr>"
  using assms by (simp add: consumer_step_def after_loop_def)

lemma solo_run:
  assumes "i < length (cfg_hosts c)"
  shows "run c [Step i, Step i, Step i, Step i] (init c) =
           (init c)\<lparr>workers := (workers (init c))[i := Exited],
                     resultCh := [mk_result (cfg_hosts c ! i)
                        (fst (singleHostRequest (cfg_world c) 0 False (cfg_hosts c ! i) (cfg_api c) (cfg_form c)))],
                     trace := snd (singleHostRequest (cfg_world c) 0 False (cfg_hosts c ! i) (cfg_api c) (cfg_form c))\<rparr>"
  using assms
  by (simp add: init_def worker_step_def count_posts_def mk_result_def split: prod.splits)

section \<open>What a hedged dispatch returns\<close>

lemma hedge_of_simps:
  "cfg_world (hedge_of env form host api) = env_world env"
  "cfg_loginType (hedge_of env form host api) = Values_Get form ''type''"
  "cfg_api (hedge_of env form host api) = api"
  "cfg_form (hedge_of env form host api) = form"
  by (simp_all add: hedge_of_def split: prod.splits)

lemma hedge_of_hosts:
  "LoadBalance_List (env_oauth env) (env_store env) (env_LB env) (Values_Get form ''type'') = (h', snap)
     \<Longrightarrow> hedge_of env form host api =
           \<lparr>cfg_world = env_world env, cfg_hosts = candidates host (elems h' snap),
            cfg_loginType = Values_Get form ''type'', cfg_api = api, cfg_form = form\<rparr>"
  by (simp add: hedge_of_def)

lemma hedge_of_candidates:
  "cfg_hosts (hedge_of env form host api) =
     candidates host
       (elems (fst (LoadBalance_List (env_oauth env) (env_store env) (env_LB env) (Values_Get form ''type'')))
              (snd (LoadBalance_List (env_oauth env) (env_store env) (env_LB env) (Values_Get form ''type''))))"
  by (simp add: hedge_of_def split: prod.splits)

lemma FetchHandleOfPost_race:
  assumes "sublist ''zf'' api" and "cfg_hosts (hedge_of env form host api) \<noteq> []"
  shows "FetchHandleOfPost env form host api sched =
           (returned (consumer (race env form host api sched)),
            LBList (Values_Get form ''type'') # trace (race env form host api sched))"
proof -
  obtain h' snap where ls: "LoadBalance_List (env_oauth env) (env_store env) (env_LB env)
      (Values_Get form ''type'') = (h', snap)" by (metis prod.exhaust)
  from assms(2) have ne: "candidates host (elems h' snap) \<noteq> []" by (simp add: hedge_of_hosts [OF ls])
  from FetchHandleOfPost_hedged [OF assms(1) ls ne refl, of sched] show ?thesis
    by (simp add: race_def hedge_of_hosts [OF ls])
qed

lemma FetchHandleOfPost_received:
  assumes "received (snd (FetchHandleOfPost env form host api sched)) \<noteq> []"
  shows "sublist ''zf'' api \<and> cfg_hosts (hedge_of env form host api) \<noteq> []"
proof (cases rule: dispatch_modes [where api = api and env = env and form = form and host = host])
  case single
  obtain rc err tr where sh: "singleHostRequest (env_world env) 0 False host api form = ((rc, err), tr)"
    by (metis prod.exhaust)
  from singleHostRequest_events(1) [of "env_world env" 0 False host api form] sh
  have "received tr = []" by simp
  with assms sh show ?thesis by (simp add: FetchHandleOfPost_single [OF single])
next
  case (none h' snap)
  with assms show ?thesis by (simp add: FetchHandleOfPost_no_candidates [OF none] received_def)
next
  case (hedged h' snap)
  then show ?thesis by (simp add: hedge_of_hosts [OF hedged(2)])
qed

lemma race_invs:
  "link_inv (hedge_of env form host api) (race env form host api sched)"
  "cancel_inv (race env form host api sched)"
  "origin_inv (hedge_of env form host api) (race env form host api sched)"
  "complete_inv (hedge_of env form host api) (race env form host api sched)"
  "length (workers (race env form host api sched)) = length (cfg_hosts (hedge_of env form host api))"
  unfolding race_def
  by (simp_all add: run_link_inv init_link_inv run_cancel_inv init_cancel_inv run_origin_inv
        init_origin_inv run_complete_inv init_complete_inv run_length_workers)
     (simp add: init_def)

lemma race_received:
  assumes "sublist ''zf'' api" and "cfg_hosts (hedge_of env form host api) \<noteq> []"
  shows "received (snd (FetchHandleOfPost env form host api sched))
           = received (trace (race env form host api sched))"
    and "loop_events (snd (FetchHandleOfPost env form host api sched))
           = loop_events (trace (race env form host api sched))"
  by (simp_all add: FetchHandleOfPost_race [OF assms] received_def loop_events_def)

lemma dispatch_terminal_received:
  assumes rcv: "received (snd (FetchHandleOfPost env form host api sched)) = pre @ r # post"
    and pre: "\<forall>x\<in>set pre. \<not> terminal x" and r: "terminal r"
  shows "post = []
       \<and> fst (FetchHandleOfPost env form host api sched) = Some (verdict r)
       \<and> loop_events (snd (FetchHandleOfPost env form host api sched)) =
           map (\<lambda>x. CBFail (res_host x) (Values_Get form ''type'')) pre
             @ [CBSuccess (res_host r) (Values_Get form ''type''), Cancel, Cancel]
       \<and> (\<exists>i<length (cfg_hosts (hedge_of env form host api)). \<exists>k.
             res_host r = cfg_hosts (hedge_of env form host api) ! i
           \<and> fst (singleHostRequest (env_world env) k False
                    (cfg_hosts (hedge_of env form host api) ! i) api form) = (res_rc r, res_err r))
       \<and> ctx_done (race env form host api sched)"
proof -
  let ?c = "hedge_of env form host api"
  let ?s = "race env form host api sched"
  from rcv have "received (snd (FetchHandleOfPost env form host api sched)) \<noteq> []" by simp
  from FetchHandleOfPost_received [OF this]
  have zf: "sublist ''zf'' api" and ne: "cfg_hosts ?c \<noteq> []" by simp_all
  from rcv have rcv': "received (trace ?s) = pre @ r # post" by (simp add: race_received [OF zf ne])
  from race_terminal_received [OF race_invs(1) race_invs(2) rcv' pre r]
  have a: "post = []" "consumer ?s = Returned (fst (verdict r)) (snd (verdict r))"
    "loop_events (trace ?s) = map (\<lambda>x. CBFail (res_host x) (Values_Get form ''type'')) pre
             @ [CBSuccess (res_host r) (Values_Get form ''type''), Cancel, Cancel]"
    "ctx_done ?s"
    by (simp_all add: hedge_of_simps)
  from rcv' have "r \<in> set (received (trace ?s))" by simp
  from received_produced [OF race_invs(3) race_invs(2) this]
  have b: "\<exists>i<length (cfg_hosts ?c). \<exists>k. res_host r = cfg_hosts ?c ! i
           \<and> fst (singleHostRequest (env_world env) k False (cfg_hosts ?c ! i) api form)
               = (res_rc r, res_err r)"
    by (simp add: race_invs(5) hedge_of_simps)
  from a(2) have "fst (FetchHandleOfPost env form host api sched) = Some (verdict r)"
    by (simp add: FetchHandleOfPost_race [OF zf ne])
  with a(1) a(3) a(4) b show ?thesis by (simp add: race_received [OF zf ne])
qed

lemma nonterminal_outcomes:
  assumes nt: "\<forall>i<length (cfg_hosts (hedge_of env form host api)). \<forall>k.
       \<not> terminal (mk_result (cfg_hosts (hedge_of env form host api) ! i)
            (fst (singleHostRequest (env_world env) k False
                    (cfg_hosts (hedge_of env form host api) ! i) api form)))"
  shows "\<forall>x\<in>set (received (trace (race env form host api sched))). \<not> terminal x"
proof
  fix x
  let ?c = "hedge_of env form host api"
  assume "x \<in> set (received (trace (race env form host api sched)))"
  from received_produced [OF race_invs(3) race_invs(2) this]
  obtain i k where i: "i < length (cfg_hosts ?c)" and h: "res_host x = cfg_hosts ?c ! i"
    and sh: "fst (singleHostRequest (env_world env) k False (cfg_hosts ?c ! i) api form)
               = (res_rc x, res_err x)"
    by (auto simp: race_invs(5) hedge_of_simps)
  from h sh have "x = mk_result (cfg_hosts ?c ! i)
      (fst (singleHostRequest (env_world env) k False (cfg_hosts ?c ! i) api form))"
    by (simp add: mk_result_def)
  with nt i show "\<not> terminal x" by simp
qed

lemma dispatch_exhausted:
  assumes zf: "sublist ''zf'' api" and ne: "cfg_hosts (hedge_of env form host api) \<noteq> []"
    and nt: "\<forall>i<length (cfg_hosts (hedge_of env form host api)). \<forall>k.
       \<not> terminal (mk_result (cfg_hosts (hedge_of env form host api) ! i)
            (fst (singleHostRequest (env_world env) k False
                    (cfg_hosts (hedge_of env form host api) ! i) api form)))"
  shows "(fst (FetchHandleOfPost env form host api sched) = Some out \<longrightarrow>
            out = (None, Some ServerError)
          \<and> loop_events (snd (FetchHandleOfPost env form host api sched)) =
              map (\<lambda>x. CBFail (res_host x) (Values_Get form ''type''))
                (received (snd (FetchHandleOfPost env form host api sched))) @ [Cancel]
          \<and> set (cfg_hosts (hedge_of env form host api))
              \<subseteq> res_host ` set (received (snd (FetchHandleOfPost env form host api sched))))
       \<and> (\<exists>later. fst (FetchHandleOfPost env form host api (sched @ later))
                     = Some (None, Some ServerError))"
proof -
  let ?c = "hedge_of env form host api"
  have safe: "\<And>sch out. fst (FetchHandleOfPost env form host api sch) = Some out \<Longrightarrow>
            out = (None, Some ServerError)
          \<and> loop_events (snd (FetchHandleOfPost env form host api sch)) =
              map (\<lambda>x. CBFail (res_host x) (Values_Get form ''type''))
                (received (snd (FetchHandleOfPost env form host api sch))) @ [Cancel]
          \<and> set (cfg_hosts ?c) \<subseteq> res_host ` set (received (snd (FetchHandleOfPost env form host api sch)))"
  proof -
    fix sch out
    let ?s = "race env form host api sch"
    assume "fst (FetchHandleOfPost env form host api sch) = Some out"
    then obtain d e where ret: "consumer ?s = Returned d e" and o: "out = (d, e)"
      by (cases "consumer ?s") (auto simp: FetchHandleOfPost_race [OF zf ne])
    from race_exhausted [OF race_invs(1) race_invs(2) race_invs(4) nonterminal_outcomes [OF nt] ret]
    have x: "d = None" "e = Some ServerError"
      "loop_events (trace ?s) = map (\<lambda>x. CBFail (res_host x) (Values_Get form ''type''))
          (received (trace ?s)) @ [Cancel]"
      "\<forall>i<length (cfg_hosts ?c). cfg_hosts ?c ! i \<in> res_host ` set (received (trace ?s))"
      by (simp_all add: hedge_of_simps race_invs(5))
    from x(4) have "set (cfg_hosts ?c) \<subseteq> res_host ` set (received (trace ?s))"
      by (auto simp: in_set_conv_nth)
    with x(1,2,3) o show "out = (None, Some ServerError)
          \<and> loop_events (snd (FetchHandleOfPost env form host api sch)) =
              map (\<lambda>x. CBFail (res_host x) (Values_Get form ''type''))
                (received (snd (FetchHandleOfPost env form host api sch))) @ [Cancel]
          \<and> set (cfg_hosts ?c) \<subseteq> res_host ` set (received (snd (FetchHandleOfPost env form host api sch)))"
      by (simp add: race_received [OF zf ne])
  qed
  from dispatch_can_always_return [of env form host api sched] obtain later out'
    where l: "fst (FetchHandleOfPost env form host api (sched @ later)) = Some out'" by blast
  from safe [OF l] l
  have "fst (FetchHandleOfPost env form host api (sched @ later)) = Some (None, Some ServerError)"
    by simp
  then have live: "\<exists>later. fst (FetchHandleOfPost env form host api (sched @ later))
                     = Some (None, Some ServerError)" by blast
  have "fst (FetchHandleOfPost env form host api sched) = Some out \<longrightarrow>
            out = (None, Some ServerError)
          \<and> loop_events (snd (FetchHandleOfPost env form host api sched)) =
              map (\<lambda>x. CBFail (res_host x) (Values_Get form ''type''))
                (received (snd (FetchHandleOfPost env form host api sched))) @ [Cancel]
          \<and> set (cfg_hosts ?c) \<subseteq> res_host ` set (received (snd (FetchHandleOfPost env form host api sched)))"
  proof
    assume "fst (FetchHandleOfPost env form host api sched) = Some out"
    from safe [OF this] show "out = (None, Some ServerError)
          \<and> loop_events (snd (FetchHandleOfPost env form host api sched)) =
              map (\<lambda>x. CBFail (res_host x) (Values_Get form ''type''))
                (received (snd (FetchHandleOfPost env form host api sched))) @ [Cancel]
          \<and> set (cfg_hosts ?c) \<subseteq> res_host ` set (received (snd (FetchHandleOfPost env form host api sched)))" .
  qed
  then show ?thesis using live by (rule conjI)
qed

lemma dispatch_nil_error:
  assumes zf: "sublist ''zf'' api"
    and out: "fst (FetchHandleOfPost env form host api sched) = Some (d, None)"
  shows "\<exists>i<length (cfg_hosts (hedge_of env form host api)). \<exists>k rc.
           fst (singleHostRequest (env_world env) k False
                  (cfg_hosts (hedge_of env form host api) ! i) api form) = (rc, None)
         \<and> Code rc = 200 \<and> d = Data rc"
proof (cases "cfg_hosts (hedge_of env form host api) = []")
  case True
  obtain h' snap where ls: "LoadBalance_List (env_oauth env) (env_store env) (env_LB env)
      (Values_Get form ''type'') = (h', snap)" by (metis prod.exhaust)
  from True have "candidates host (elems h' snap) = []" by (simp add: hedge_of_hosts [OF ls])
  from FetchHandleOfPost_no_candidates [OF zf ls this, of sched] out show ?thesis by simp
next
  case False
  let ?c = "hedge_of env form host api"
  let ?s = "race env form host api sched"
  from out have ret: "consumer ?s = Returned d None"
    by (cases "consumer ?s") (auto simp: FetchHandleOfPost_race [OF zf False])
  with race_invs(1) [of env form host api sched]
  obtain ev where "range_resultCh (Values_Get form ''type'') (received (trace ?s)) = ((d, None), ev, [])"
    by (auto simp: link_inv_def hedge_of_simps)
  with range_resultCh_error_nil [of "Values_Get form ''type''" "received (trace ?s)"]
  obtain r where r: "r \<in> set (received (trace ?s))" "terminal r" "Code (res_rc r) = 200"
    "d = Data (res_rc r)" by auto
  from received_produced [OF race_invs(3) race_invs(2) r(1)]
  obtain i k where i: "i < length (cfg_hosts ?c)"
    and sh: "fst (singleHostRequest (env_world env) k False (cfg_hosts ?c ! i) api form)
               = (res_rc r, res_err r)"
    by (auto simp: race_invs(5) hedge_of_simps)
  from r(2) have "res_err r = None" by (simp add: terminal_def)
  with i sh r(3,4) show ?thesis by auto
qed

lemma dispatch_consume_terminal:
  assumes zf: "sublist ''zf'' api" and ne: "cfg_hosts (hedge_of env form host api) \<noteq> []"
    and rg: "consumer (race env form host api sched) = Ranging fe"
    and ch: "resultCh (race env form host api sched) = r # rest" and r: "terminal r"
  shows "FetchHandleOfPost env form host api (sched @ [Consume]) =
           (Some (verdict r),
            LBList (Values_Get form ''type'') # trace (race env form host api sched)
              @ [Recv r, CBSuccess (res_host r) (Values_Get form ''type''), Cancel, Cancel])"
proof -
  have "race env form host api (sched @ [Consume])
      = consumer_step (hedge_of env form host api) (race env form host api sched)"
    by (simp add: race_def run_append)
  with consumer_step_terminal [OF rg ch r, of "hedge_of env form host api"] show ?thesis
    by (simp add: FetchHandleOfPost_race [OF zf ne] hedge_of_simps)
qed

lemma dispatch_consume_closed:
  assumes zf: "sublist ''zf'' api" and ne: "cfg_hosts (hedge_of env form host api) \<noteq> []"
    and rg: "consumer (race env form host api sched) = Ranging fe"
    and ch: "resultCh (race env form host api sched) = []"
    and ex: "list_all (\<lambda>w. w = Exited) (workers (race env form host api sched))"
  shows "FetchHandleOfPost env form host api (sched @ [Consume]) =
           (Some (None, Some ServerError),
            LBList (Values_Get form ''type'') # trace (race env form host api sched) @ [Cancel])"
proof -
  have "race env form host api (sched @ [Consume])
      = consumer_step (hedge_of env form host api) (race env form host api sched)"
    by (simp add: race_def run_append)
  moreover from race_Ranging [OF race_invs(1) race_invs(2) rg]
  have "(case fe of None \<Rightarrow> ServerError | Some e \<Rightarrow> e) = ServerError" by (simp split: if_splits)
  ultimately show ?thesis
    using consumer_step_closed [OF rg ch ex, of "hedge_of env form host api"]
    by (simp add: FetchHandleOfPost_race [OF zf ne])
qed

lemma dispatch_solo:
  assumes zf: "sublist ''zf'' api" and i: "i < length (cfg_hosts (hedge_of env form host api))"
    and t: "terminal (mk_result (cfg_hosts (hedge_of env form host api) ! i)
             (fst (singleHostRequest (env_world env) 0 False
                     (cfg_hosts (hedge_of env form host api) ! i) api form)))"
  shows "FetchHandleOfPost env form host api [Step i, Step i, Step i, Step i, Consume] =
           (Some (verdict (mk_result (cfg_hosts (hedge_of env form host api) ! i)
                    (fst (singleHostRequest (env_world env) 0 False
                            (cfg_hosts (hedge_of env form host api) ! i) api form)))),
            [LBList (Values_Get form ''type''),
             Post (cfg_hosts (hedge_of env form host api) ! i @ api),
             Recv (mk_result (cfg_hosts (hedge_of env form host api) ! i)
                    (fst (singleHostRequest (env_world env) 0 False
                            (cfg_hosts (hedge_of env form host api) ! i) api form))),
             CBSuccess (cfg_hosts (hedge_of env form host api) ! i) (Values_Get form ''type''),
             Cancel, Cancel])"
proof -
  let ?c = "hedge_of env form host api"
  let ?h = "cfg_hosts ?c ! i"
  let ?sh = "singleHostRequest (env_world env) 0 False ?h api form"
  let ?r = "mk_result ?h (fst ?sh)"
  from i have ne: "cfg_hosts ?c \<noteq> []" by auto
  have s4: "race env form host api [Step i, Step i, Step i, Step i] =
      (init ?c)\<lparr>workers := (workers (init ?c))[i := Exited], resultCh := [?r], trace := snd ?sh\<rparr>"
    using solo_run [OF i] by (simp add: race_def hedge_of_simps)
  have rg: "consumer (race env form host api [Step i, Step i, Step i, Step i]) = Ranging None"
    and ch: "resultCh (race env form host api [Step i, Step i, Step i, Step i]) = ?r # []"
    and tr: "trace (race env form host api [Step i, Step i, Step i, Step i]) = snd ?sh"
    unfolding s4 by (simp_all add: init_def)
  from t have "snd (fst ?sh) = None" by (simp add: terminal_def mk_result_def)
  then have p: "snd ?sh = [Post (?h @ api)]"
    by (auto simp: singleHostRequest_def split: option.splits)
  from dispatch_consume_terminal [OF zf ne rg ch t] tr p show ?thesis
    by (simp add: mk_result_def)
qed

lemma dispatch_firstErr:
  assumes "consumer (race env form host api sched) = Ranging fe"
  shows "(\<forall>x\<in>set (received (trace (race env form host api sched))). \<not> terminal x)
       \<and> fe = (if received (trace (race env form host api sched)) = [] then None
               else Some ServerError)"
  using race_Ranging [OF race_invs(1) race_invs(2) assms] by simp

section \<open>Facts about the earlier revision\<close>


lemma on_result_000_agrees:
  "res_err r \<noteq> Some Canceled \<Longrightarrow> on_result_000 lt r fe = on_result lt r fe"
  by (auto simp: on_result_000_def on_result_def split: option.splits)

lemma on_result_000_cancelled:
  "res_err r = Some Canceled \<Longrightarrow>
     on_result_000 lt r fe =
       (Continue (if fe = None then Some ServerError else fe), [CBFail (res_host r) lt])"
  by (simp add: on_result_000_def)


lemma retry_rounds_calls:
  "count_posts (snd (retry_rounds w k closed url form rc rounds)) \<le> length rounds"
proof (induction rounds arbitrary: k rc)
  case Nil
  then show ?case by (simp add: count_posts_def)
next
  case (Cons i rounds)
  show ?case
  proof (cases "closed i")
    case True
    then show ?thesis by (simp add: count_posts_def)
  next
    case False
    show ?thesis
    proof (cases "PostForm w k url form")
      case None
      with False show ?thesis by (simp add: count_posts_def)
    next
      case (Some res)
      show ?thesis
      proof (cases "Unmarshal w res rc")
        case None
        with False Some show ?thesis by (simp add: count_posts_def)
      next
        case (Some rc')
        obtain r tr where rec: "retry_rounds w (k + 1) closed url form rc' rounds = (r, tr)"
          by (metis prod.exhaust)
        from Cons.IH [of "k + 1" rc'] rec have "count_posts tr \<le> length rounds" by simp
        with False \<open>PostForm w k url form = Some res\<close> Some rec show ?thesis
          by (auto simp: count_posts_def)
      qed
    qed
  qed
qed

lemma singleHostRequest_000_calls:
  "count_posts (snd (singleHostRequest_000 w k closed host api form)) \<le> 5"
  using retry_rounds_calls [of w k closed "host @ api" form FunnelResponse_zero "[0..<5]"]
  by (simp add: singleHostRequest_000_def)

lemma singleHostRequest_000_no_overload:
  assumes "\<not> closed 0"
    and "\<forall>res rc. PostForm w k (host @ api) form = Some res
           \<and> Unmarshal w res FunnelResponse_zero = Some rc \<longrightarrow> Code rc \<noteq> 413"
  shows "singleHostRequest_000 w k closed host api form = singleHostRequest w k False host api form"
proof -
  have up: "[0..<5] = 0 # [1..<5]" by (simp add: upt_rec)
  show ?thesis using assms
    by (auto simp: singleHostRequest_000_def singleHostRequest_def up split: option.splits)
qed

section \<open>Facts about the race of the earlier revision\<close>


lemma worker_step_000_frame:
  "consumer_000 (worker_step_000 c i s) = consumer_000 s"
  "ctx_done_000 (worker_step_000 c i s) = ctx_done_000 s"
  "received (trace_000 (worker_step_000 c i s)) = received (trace_000 s)"
  "loop_events (trace_000 (worker_step_000 c i s)) = loop_events (trace_000 s)"
  by (auto simp: worker_step_000_def received_def loop_events_def
        split: worker_000.splits option.splits)

lemma discard_step_000_frame:
  "consumer_000 (discard_step_000 i s) = consumer_000 s"
  "ctx_done_000 (discard_step_000 i s) = ctx_done_000 s"
  "trace_000 (discard_step_000 i s) = trace_000 s"
  "resultCh_000 (discard_step_000 i s) = resultCh_000 s"
  by (simp_all add: discard_step_000_def split: worker_000.splits)

lemma worker_step_000_cancel_inv:
  assumes "cancel_inv_000 s"
  shows "cancel_inv_000 (worker_step_000 c i s)"
proof (cases "i < length (workers_000 s)")
  case False
  with assms show ?thesis by (simp add: worker_step_000_def)
next
  case True
  have tr: "\<forall>r\<in>set (received (trace_000 (worker_step_000 c i s))). res_err r \<noteq> Some Canceled"
    using assms by (simp add: worker_step_000_frame cancel_inv_000_def)
  have dn: "ctx_done_000 (worker_step_000 c i s) \<longleftrightarrow> returned (consumer_000 (worker_step_000 c i s)) \<noteq> None"
    using assms by (simp add: worker_step_000_frame cancel_inv_000_def)
  have ch: "\<forall>r\<in>set (resultCh_000 (worker_step_000 c i s)). res_err r = Some Canceled \<longrightarrow> ctx_done_000 s"
  proof (cases "workers_000 s ! i")
    case (Holding_000 rc err)
    from True Holding_000 have "Holding_000 rc err \<in> set (workers_000 s)" by (metis nth_mem)
    with Holding_000 True assms show ?thesis
      by (auto simp: worker_step_000_def cancel_inv_000_def)
  qed (use True assms in \<open>auto simp: worker_step_000_def cancel_inv_000_def split: option.splits\<close>)
  have ws: "\<forall>w\<in>set (workers_000 (worker_step_000 c i s)). \<forall>rc.
      w = Holding_000 rc (Some Canceled) \<longrightarrow> ctx_done_000 s"
    using True assms
    by (auto simp: worker_step_000_def cancel_inv_000_def
          split: worker_000.splits option.splits if_splits dest!: set_update_cases)
  from tr dn ch ws show ?thesis
    by (simp add: cancel_inv_000_def worker_step_000_frame)
qed

lemma discard_step_000_cancel_inv:
  assumes "cancel_inv_000 s"
  shows "cancel_inv_000 (discard_step_000 i s)"
  using assms
  by (auto simp: discard_step_000_def cancel_inv_000_def split: worker_000.splits
        dest!: set_update_cases)

lemma consumer_step_000_cancel_inv:
  assumes "cancel_inv_000 s"
  shows "cancel_inv_000 (consumer_step_000 c s)"
proof (cases "consumer_000 s")
  case (Returned d e)
  with assms show ?thesis by (simp add: consumer_step_000_def)
next
  case (Ranging fe)
  with assms have nd: "\<not> ctx_done_000 s" by (simp add: cancel_inv_000_def)
  show ?thesis
  proof (cases "resultCh_000 s")
    case Nil
    with Ranging assms show ?thesis
      by (auto simp: consumer_step_000_def cancel_inv_000_def received_append received_def
          split: prod.splits)
  next
    case (Cons r rest)
    with assms nd have r: "res_err r \<noteq> Some Canceled" by (auto simp: cancel_inv_000_def)
    obtain ct ev where o: "on_result_000 (cfg_loginType c) r fe = (ct, ev)" by (metis prod.exhaust)
    from on_result_000_agrees [OF r, of "cfg_loginType c" fe] o
    have o': "on_result (cfg_loginType c) r fe = (ct, ev)" by simp
    from on_result_events(1) [of "cfg_loginType c" r fe] o' have nr: "received ev = []" by simp
    have tr1: "received (trace_000 s @ Recv r # ev) = received (trace_000 s) @ [r]"
      using nr by (simp add: received_def)
    have tr2: "received (trace_000 s @ Recv r # ev @ [Cancel]) = received (trace_000 s) @ [r]"
      using nr by (simp add: received_def)
    show ?thesis
    proof (cases ct)
      case (Continue fe')
      with Ranging Cons o assms r tr1 show ?thesis
        by (auto simp: consumer_step_000_def cancel_inv_000_def)
    next
      case (Return d e)
      with Ranging Cons o assms r tr2 show ?thesis
        by (auto simp: consumer_step_000_def cancel_inv_000_def)
    qed
  qed
qed

lemma step_000_cancel_inv: "cancel_inv_000 s \<Longrightarrow> cancel_inv_000 (step_000 c a s)"
  by (cases a)
     (simp_all add: worker_step_000_cancel_inv discard_step_000_cancel_inv consumer_step_000_cancel_inv)

lemma run_000_cancel_inv: "cancel_inv_000 s \<Longrightarrow> cancel_inv_000 (run_000 c sched s)"
  by (induction sched arbitrary: s) (simp_all add: step_000_cancel_inv)

lemma init_000_cancel_inv: "cancel_inv_000 (init_000 c)"
  by (simp add: cancel_inv_000_def init_000_def received_def)


lemma link_inv_000_cong:
  "consumer_000 s' = consumer_000 s \<Longrightarrow> received (trace_000 s') = received (trace_000 s) \<Longrightarrow>
     loop_events (trace_000 s') = loop_events (trace_000 s) \<Longrightarrow> link_inv_000 c s' = link_inv_000 c s"
  by (simp add: link_inv_000_def split: consumer.splits)

lemma worker_step_000_link_inv: "link_inv_000 c s \<Longrightarrow> link_inv_000 c (worker_step_000 c i s)"
  using link_inv_000_cong [OF worker_step_000_frame(1) worker_step_000_frame(3) worker_step_000_frame(4)]
  by blast

lemma discard_step_000_link_inv: "link_inv_000 c s \<Longrightarrow> link_inv_000 c (discard_step_000 i s)"
  using link_inv_000_cong [of "discard_step_000 i s" s c] by (simp add: discard_step_000_frame)

lemma consumer_step_000_link_inv:
  assumes "link_inv_000 c s" and ci: "cancel_inv_000 s"
  shows "link_inv_000 c (consumer_step_000 c s)"
proof (cases "consumer_000 s")
  case (Returned d e)
  with assms show ?thesis by (simp add: consumer_step_000_def)
next
  case (Ranging fe)
  let ?lt = "cfg_loginType c"
  from assms Ranging
  have dr: "drain ?lt None (received (trace_000 s)) = (Continue fe, loop_events (trace_000 s), [])"
    by (simp add: link_inv_000_def)
  from ci Ranging have nd: "\<not> ctx_done_000 s" by (simp add: cancel_inv_000_def)
  show ?thesis
  proof (cases "resultCh_000 s")
    case Nil
    show ?thesis
    proof (cases "list_all (\<lambda>w. w = Exited_000) (workers_000 s)")
      case False
      with Ranging Nil assms show ?thesis by (simp add: consumer_step_000_def)
    next
      case True
      have "range_resultCh ?lt (received (trace_000 s)) = (after_loop fe, loop_events (trace_000 s), [])"
        using dr by (simp add: range_resultCh_def)
      moreover have "received (trace_000 s @ [Cancel]) = received (trace_000 s)"
        by (simp add: received_def)
      moreover have "loop_events (trace_000 s @ [Cancel]) = loop_events (trace_000 s) @ [Cancel]"
        by (simp add: loop_events_def)
      ultimately show ?thesis using Ranging Nil True
        by (auto simp: consumer_step_000_def link_inv_000_def split: prod.splits)
    qed
  next
    case (Cons r rest)
    with ci nd have r: "res_err r \<noteq> Some Canceled" by (auto simp: cancel_inv_000_def)
    obtain ct ev where o0: "on_result_000 ?lt r fe = (ct, ev)" by (metis prod.exhaust)
    from on_result_000_agrees [OF r, of ?lt fe] o0
    have o: "on_result ?lt r fe = (ct, ev)" by simp
    from on_result_events(1,2) [of ?lt r fe] o
    have nr: "received ev = []" and le: "loop_events ev = ev" by simp_all
    have rcv1: "received (trace_000 s @ Recv r # ev) = received (trace_000 s) @ [r]"
      using nr by (simp add: received_def)
    have rcv2: "received (trace_000 s @ Recv r # ev @ [Cancel]) = received (trace_000 s) @ [r]"
      using nr by (simp add: received_def)
    have lev1: "loop_events (trace_000 s @ Recv r # ev) = loop_events (trace_000 s) @ ev"
      using le by (simp add: loop_events_def)
    have lev2: "loop_events (trace_000 s @ Recv r # ev @ [Cancel]) = (loop_events (trace_000 s) @ ev) @ [Cancel]"
      using le by (simp add: loop_events_def)
    from drain_snoc [OF dr, of r] o
    have ds: "drain ?lt None (received (trace_000 s) @ [r]) = (ct, loop_events (trace_000 s) @ ev, [])"
      by simp
    show ?thesis
    proof (cases ct)
      case (Continue fe')
      with Ranging Cons o0 ds rcv1 lev1 show ?thesis
        by (simp add: consumer_step_000_def link_inv_000_def)
    next
      case (Return d e)
      with ds have "range_resultCh ?lt (received (trace_000 s) @ [r]) = ((d, e), loop_events (trace_000 s) @ ev, [])"
        by (simp add: range_resultCh_def)
      with Return Ranging Cons o0 rcv2 lev2 show ?thesis
        by (simp add: consumer_step_000_def link_inv_000_def)
    qed
  qed
qed

lemma step_000_link_inv:
  "link_inv_000 c s \<Longrightarrow> cancel_inv_000 s \<Longrightarrow> link_inv_000 c (step_000 c a s)"
  by (cases a)
     (simp_all add: worker_step_000_link_inv discard_step_000_link_inv consumer_step_000_link_inv)

lemma run_000_link_inv:
  "link_inv_000 c s \<Longrightarrow> cancel_inv_000 s \<Longrightarrow> link_inv_000 c (run_000 c sched s)"
  by (induction sched arbitrary: s) (simp_all add: step_000_link_inv step_000_cancel_inv)

lemma init_000_link_inv: "link_inv_000 c (init_000 c)"
  by (simp add: link_inv_000_def init_000_def received_def loop_events_def)

lemma worker_step_000_potential:
  assumes i: "i < length (workers_000 s)" and live: "workers_000 s ! i \<noteq> Exited_000"
  shows "potential_000 (worker_step_000 c i s) < potential_000 s"
proof -
  let ?S = "sum_list (map weight_000 (workers_000 s))"
  have upd: "\<And>w. sum_list (map weight_000 ((workers_000 s)[i := w])) + weight_000 (workers_000 s ! i)
      = ?S + weight_000 w"
    using sum_list_map_update [OF i, of weight_000] by simp
  show ?thesis
  proof (cases "workers_000 s ! i")
    case Spawned_000
    with i upd [of Exited_000] upd [of "Round_000 0 FunnelResponse_zero"] show ?thesis
      by (simp add: worker_step_000_def potential_000_def)
  next
    case (Round_000 j rc)
    with i upd [of "Holding_000 rc None"] upd [of "Holding_000 FunnelResponse_zero (Some Canceled)"]
      upd [of "Posting_000 j rc"] show ?thesis
      by (auto simp: worker_step_000_def potential_000_def split: if_splits)
  next
    case (Posting_000 j rc)
    show ?thesis
    proof (cases "PostForm (cfg_world c) (count_posts (trace_000 s)) (cfg_hosts c ! i @ cfg_api c) (cfg_form c)")
      case None
      with Posting_000 i upd [of "Holding_000 FunnelResponse_zero (Some RequestError)"] show ?thesis
        by (auto simp: worker_step_000_def potential_000_def split: if_splits)
    next
      case (Some res)
      show ?thesis
      proof (cases "Unmarshal (cfg_world c) res rc")
        case None
        with Some Posting_000 i upd [of "Holding_000 FunnelResponse_zero (Some RequestError)"] show ?thesis
          by (auto simp: worker_step_000_def potential_000_def split: if_splits)
      next
        case (Some rc')
        with \<open>PostForm (cfg_world c) (count_posts (trace_000 s)) (cfg_hosts c ! i @ cfg_api c) (cfg_form c) = Some res\<close>
          Posting_000 i upd [of "Holding_000 rc' None"] upd [of "Round_000 (j + 1) rc'"] show ?thesis
          by (auto simp: worker_step_000_def potential_000_def split: if_splits)
      qed
    qed
  next
    case (Holding_000 rc err)
    with i upd [of Exited_000] show ?thesis
      by (simp add: worker_step_000_def potential_000_def)
  next
    case Exited_000
    with live show ?thesis by simp
  qed
qed

lemma all_Exited_000_or_live:
  "list_all (\<lambda>w. w = Exited_000) ws \<or> (\<exists>i<length ws. ws ! i \<noteq> Exited_000)"
  by (auto simp: list_all_iff in_set_conv_nth)

lemma consumer_step_000_potential:
  assumes "consumer_000 s = Ranging fe" and "list_all (\<lambda>w. w = Exited_000) (workers_000 s)"
  shows "potential_000 (consumer_step_000 c s) < potential_000 s"
proof (cases "resultCh_000 s")
  case Nil
  with assms show ?thesis
    by (simp add: consumer_step_000_def potential_000_def split: prod.splits)
next
  case (Cons r rest)
  obtain ct ev where o: "on_result_000 (cfg_loginType c) r fe = (ct, ev)" by (metis prod.exhaust)
  with assms Cons show ?thesis
    by (cases ct) (simp_all add: consumer_step_000_def potential_000_def)
qed

lemma progress_000:
  assumes "consumer_000 s = Ranging fe"
  shows "\<exists>a. potential_000 (step_000 c a s) < potential_000 s"
proof (cases "list_all (\<lambda>w. w = Exited_000) (workers_000 s)")
  case True
  from consumer_step_000_potential [OF assms True, of c]
  have "potential_000 (step_000 c Consume s) < potential_000 s" by simp
  then show ?thesis ..
next
  case False
  with all_Exited_000_or_live [of "workers_000 s"] obtain i where "i < length (workers_000 s)"
    "workers_000 s ! i \<noteq> Exited_000" by auto
  from worker_step_000_potential [OF this, of c]
  have "potential_000 (step_000 c (Step i) s) < potential_000 s" by simp
  then show ?thesis ..
qed

lemma some_schedule_returns_000: "\<exists>sched d e. consumer_000 (run_000 c sched s) = Returned d e"
proof (induction "potential_000 s" arbitrary: s rule: less_induct)
  case less
  show ?case
  proof (cases "consumer_000 s")
    case (Returned d e)
    then have "consumer_000 (run_000 c [] s) = Returned d e" by simp
    then show ?thesis by blast
  next
    case (Ranging fe)
    from progress_000 [OF Ranging, of c] obtain a where "potential_000 (step_000 c a s) < potential_000 s" ..
    from less [OF this] obtain sched d e where "consumer_000 (run_000 c sched (step_000 c a s)) = Returned d e"
      by blast
    then have "consumer_000 (run_000 c (a # sched) s) = Returned d e" by simp
    then show ?thesis by blast
  qed
qed


subsection \<open>The earlier revision: a goroutine running alone performs the retry loop\<close>

text \<open>
  The race model splits the body of a goroutine of the earlier revision into
  micro-steps (\<open>worker_step_000\<close>), whereas \<open>singleHostRequest_000\<close>
  is the same loop written as one sequential function.  Scheduling one
  goroutine alone, on a context that is not cancelled, makes it perform exactly
  the calls of the sequential function and send exactly its result; thirteen
  steps are enough for the five rounds.
\<close>

lemma run_000_append: "run_000 c (xs @ ys) s = run_000 c ys (run_000 c xs s)"
  by (induction xs arbitrary: s) simp_all

lemma solo_rounds_000:
  assumes "i < length (workers_000 s)" and "workers_000 s ! i = Round_000 j rc"
    and "\<not> ctx_done_000 s"
  shows "\<exists>n\<le>2 * (5 - j) + 1.
           run_000 c (replicate n (Step i)) s =
             s\<lparr>workers_000 := (workers_000 s)[i :=
                   Holding_000
                     (fst (fst (retry_rounds (cfg_world c) (count_posts (trace_000 s)) (\<lambda>r. False)
                                  (cfg_hosts c ! i @ cfg_api c) (cfg_form c) rc [j..<5])))
                     (snd (fst (retry_rounds (cfg_world c) (count_posts (trace_000 s)) (\<lambda>r. False)
                                  (cfg_hosts c ! i @ cfg_api c) (cfg_form c) rc [j..<5])))],
               trace_000 := trace_000 s
                 @ snd (retry_rounds (cfg_world c) (count_posts (trace_000 s)) (\<lambda>r. False)
                          (cfg_hosts c ! i @ cfg_api c) (cfg_form c) rc [j..<5])\<rparr>"
  using assms
proof (induction "5 - j" arbitrary: j rc s)
  case 0
  then have j: "\<not> j < 5" by simp
  then have e: "[j..<5] = []" by simp
  from 0 j have "worker_step_000 c i s = s\<lparr>workers_000 := (workers_000 s)[i := Holding_000 rc None]\<rparr>"
    by (simp add: worker_step_000_def)
  then have "run_000 c (replicate 1 (Step i)) s =
      s\<lparr>workers_000 := (workers_000 s)[i := Holding_000 rc None], trace_000 := trace_000 s @ []\<rparr>"
    by simp
  then show ?case unfolding e by (intro exI [of _ 1]) simp
next
  case (Suc m)
  then have j: "j < 5" by simp
  then have e: "[j..<5] = j # [j + 1..<5]" by (simp add: upt_rec)
  let ?w = "cfg_world c" and ?k = "count_posts (trace_000 s)"
  let ?url = "cfg_hosts c ! i @ cfg_api c" and ?f = "cfg_form c"
  let ?s1 = "worker_step_000 c i s"
  from Suc.prems j have s1: "?s1 = s\<lparr>workers_000 := (workers_000 s)[i := Posting_000 j rc]\<rparr>"
    by (simp add: worker_step_000_def)
  let ?s2 = "worker_step_000 c i ?s1"
  have two: "run_000 c (replicate 2 (Step i)) s = ?s2" by (simp add: numeral_2_eq_2)
  have b2: "(2::nat) \<le> 2 * (5 - j) + 1" using j by simp
  show ?case
  proof (cases "PostForm ?w ?k ?url ?f")
    case None
    with Suc.prems(1) have "?s2 =
        s\<lparr>workers_000 := (workers_000 s)[i := Holding_000 FunnelResponse_zero (Some RequestError)],
          trace_000 := trace_000 s @ [Post ?url]\<rparr>"
      unfolding s1 by (simp add: worker_step_000_def)
    with None two b2 show ?thesis unfolding e by (intro exI [of _ 2]) simp
  next
    case (Some res)
    show ?thesis
    proof (cases "Unmarshal ?w res rc")
      case None
      with Some Suc.prems(1) have "?s2 =
          s\<lparr>workers_000 := (workers_000 s)[i := Holding_000 FunnelResponse_zero (Some RequestError)],
            trace_000 := trace_000 s @ [Post ?url]\<rparr>"
        unfolding s1 by (simp add: worker_step_000_def)
      with None Some two b2 show ?thesis unfolding e by (intro exI [of _ 2]) simp
    next
      case (Some rc')
      note post = \<open>PostForm ?w ?k ?url ?f = Some res\<close>
      show ?thesis
      proof (cases "Code rc' \<noteq> 413")
        case True
        with Some post Suc.prems(1) have "?s2 =
            s\<lparr>workers_000 := (workers_000 s)[i := Holding_000 rc' None],
              trace_000 := trace_000 s @ [Post ?url]\<rparr>"
          unfolding s1 by (simp add: worker_step_000_def)
        with True Some post two b2 show ?thesis unfolding e by (intro exI [of _ 2]) simp
      next
        case False
        with Some post Suc.prems(1) have s2: "?s2 =
            s\<lparr>workers_000 := (workers_000 s)[i := Round_000 (j + 1) rc'],
              trace_000 := trace_000 s @ [Post ?url]\<rparr>"
          unfolding s1 by (simp add: worker_step_000_def)
        let ?t = "s\<lparr>workers_000 := (workers_000 s)[i := Round_000 (j + 1) rc'],
              trace_000 := trace_000 s @ [Post ?url]\<rparr>"
        from Suc.hyps(2) have m: "m = 5 - (j + 1)" by simp
        have k2: "count_posts (trace_000 ?t) = ?k + 1" by (simp add: count_posts_def)
        have p1: "i < length (workers_000 ?t)" using Suc.prems(1) by simp
        have p2: "workers_000 ?t ! i = Round_000 (j + 1) rc'" using Suc.prems(1) by simp
        have p3: "\<not> ctx_done_000 ?t" using Suc.prems(3) by simp
        let ?R = "retry_rounds ?w (?k + 1) (\<lambda>r. False) ?url ?f rc' [j + 1..<5]"
        from Suc.hyps(1) [OF m p1 p2 p3] k2
        obtain n where nb: "n \<le> 2 * (5 - (j + 1)) + 1"
          and n: "run_000 c (replicate n (Step i)) ?t =
              ?t\<lparr>workers_000 := (workers_000 ?t)[i := Holding_000 (fst (fst ?R)) (snd (fst ?R))],
                 trace_000 := trace_000 ?t @ snd ?R\<rparr>"
          by auto
        have run2: "run_000 c (replicate (2 + n) (Step i)) s = run_000 c (replicate n (Step i)) ?t"
          using two s2 by (simp add: replicate_add run_000_append)
        have bound: "2 + n \<le> 2 * (5 - j) + 1" using nb j by simp
        have "run_000 c (replicate (2 + n) (Step i)) s =
             s\<lparr>workers_000 := (workers_000 s)[i := Holding_000 (fst (fst ?R)) (snd (fst ?R))],
               trace_000 := trace_000 s @ Post ?url # snd ?R\<rparr>"
          unfolding run2 n by simp
        with False Some post bound show ?thesis unfolding e
          by (intro exI [of _ "2 + n"]) (simp split: prod.splits)
      qed
    qed
  qed
qed

lemma run_000_Exited:
  "i < length (workers_000 s) \<Longrightarrow> workers_000 s ! i = Exited_000 \<Longrightarrow>
     run_000 c (replicate m (Step i)) s = s"
  by (induction m) (simp_all add: worker_step_000_def)

lemma solo_worker_000:
  assumes i: "i < length (workers_000 s)" and sp: "workers_000 s ! i = Spawned_000"
    and nd: "\<not> ctx_done_000 s"
  shows "run_000 c (replicate 13 (Step i)) s =
           s\<lparr>workers_000 := (workers_000 s)[i := Exited_000],
             resultCh_000 := resultCh_000 s
               @ [mk_result (cfg_hosts c ! i)
                    (fst (singleHostRequest_000 (cfg_world c) (count_posts (trace_000 s)) (\<lambda>r. False)
                            (cfg_hosts c ! i) (cfg_api c) (cfg_form c)))],
             trace_000 := trace_000 s
               @ snd (singleHostRequest_000 (cfg_world c) (count_posts (trace_000 s)) (\<lambda>r. False)
                        (cfg_hosts c ! i) (cfg_api c) (cfg_form c))\<rparr>"
proof -
  let ?SH = "singleHostRequest_000 (cfg_world c) (count_posts (trace_000 s)) (\<lambda>r. False)
               (cfg_hosts c ! i) (cfg_api c) (cfg_form c)"
  let ?s1 = "s\<lparr>workers_000 := (workers_000 s)[i := Round_000 0 FunnelResponse_zero]\<rparr>"
  from i sp nd have s1: "worker_step_000 c i s = ?s1" by (simp add: worker_step_000_def)
  have p1: "i < length (workers_000 ?s1)" using i by simp
  have p2: "workers_000 ?s1 ! i = Round_000 0 FunnelResponse_zero" using i by simp
  have p3: "\<not> ctx_done_000 ?s1" using nd by simp
  from solo_rounds_000 [OF p1 p2 p3, of c]
  obtain n where nb: "n \<le> 11"
    and n: "run_000 c (replicate n (Step i)) ?s1 =
       s\<lparr>workers_000 := (workers_000 s)[i := Holding_000 (fst (fst ?SH)) (snd (fst ?SH))],
         trace_000 := trace_000 s @ snd ?SH\<rparr>"
    by (auto simp: singleHostRequest_000_def)
  let ?s2 = "s\<lparr>workers_000 := (workers_000 s)[i := Holding_000 (fst (fst ?SH)) (snd (fst ?SH))],
         trace_000 := trace_000 s @ snd ?SH\<rparr>"
  let ?s3 = "s\<lparr>workers_000 := (workers_000 s)[i := Exited_000],
             resultCh_000 := resultCh_000 s @ [mk_result (cfg_hosts c ! i) (fst ?SH)],
             trace_000 := trace_000 s @ snd ?SH\<rparr>"
  have s3: "worker_step_000 c i ?s2 = ?s3" using i by (simp add: worker_step_000_def mk_result_def)
  have pad: "run_000 c (replicate (11 - n) (Step i)) ?s3 = ?s3"
    using i by (intro run_000_Exited) simp_all
  have "replicate 13 (Step i) = Step i # replicate n (Step i) @ Step i # replicate (11 - n) (Step i)"
  proof -
    have "(13::nat) = Suc (n + Suc (11 - n))" using nb by simp
    then show ?thesis by (simp only: replicate_Suc replicate_add append_Cons)
  qed
  then have "run_000 c (replicate 13 (Step i)) s
      = run_000 c (replicate (11 - n) (Step i))
          (worker_step_000 c i (run_000 c (replicate n (Step i)) (worker_step_000 c i s)))"
    by (simp add: run_000_append)
  then show ?thesis unfolding s1 n s3 pad .
qed

section \<open>Facts about the dispatcher of the earlier revision\<close>


lemma candidates_000_Nil: "candidates_000 host hosts = [] \<longleftrightarrow> host = [] \<and> hosts = []"
proof (cases "host = []")
  case True
  then show ?thesis by (simp add: candidates_000_def)
next
  case False
  from candidates_000_props [OF False, of hosts] False show ?thesis
    by (auto split: if_splits)
qed

lemma FetchHandleOfPost_000_single:
  assumes "\<not> sublist ''zf'' api"
  shows "FetchHandleOfPost_000 env form host api sched =
     (Some (fst (single_node_000 (env_world env) form host api)),
      snd (single_node_000 (env_world env) form host api))"
  using assms by (simp add: FetchHandleOfPost_000_def Let_def split: prod.splits)

lemma FetchHandleOfPost_000_no_candidates:
  assumes "sublist ''zf'' api"
    and "LoadBalance_List (env_oauth env) (env_store env) (env_LB env) (Values_Get form ''type'') = (h', snap)"
    and "candidates_000 host (elems h' snap) = []"
  shows "FetchHandleOfPost_000 env form host api sched =
           (Some (None, Some NoApiAvailable), [LBList (Values_Get form ''type'')])"
  using assms by (simp add: FetchHandleOfPost_000_def Let_def)

lemma FetchHandleOfPost_000_hedged:
  assumes "sublist ''zf'' api"
    and "LoadBalance_List (env_oauth env) (env_store env) (env_LB env) (Values_Get form ''type'') = (h', snap)"
    and "candidates_000 host (elems h' snap) \<noteq> []"
    and "c = \<lparr>cfg_world = env_world env, cfg_hosts = candidates_000 host (elems h' snap),
              cfg_loginType = Values_Get form ''type'', cfg_api = api, cfg_form = form\<rparr>"
  shows "FetchHandleOfPost_000 env form host api sched =
           (returned (consumer_000 (run_000 c sched (init_000 c))),
            LBList (Values_Get form ''type'') # trace_000 (run_000 c sched (init_000 c)))"
  using assms by (simp add: FetchHandleOfPost_000_def Let_def)

lemma dispatch_000_modes:
  obtains (single) "\<not> sublist ''zf'' api"
  | (none) h' snap where "sublist ''zf'' api"
      "LoadBalance_List (env_oauth env) (env_store env) (env_LB env) (Values_Get form ''type'') = (h', snap)"
      "candidates_000 host (elems h' snap) = []"
  | (hedged) h' snap where "sublist ''zf'' api"
      "LoadBalance_List (env_oauth env) (env_store env) (env_LB env) (Values_Get form ''type'') = (h', snap)"
      "candidates_000 host (elems h' snap) \<noteq> []"
  by (cases "LoadBalance_List (env_oauth env) (env_store env) (env_LB env) (Values_Get form ''type'')")
     blast

lemma retry_rounds_trace:
  "e \<in> set (snd (retry_rounds w k closed url form rc rounds)) \<Longrightarrow> e = Post url"
proof (induction rounds arbitrary: k rc)
  case Nil
  then show ?case by simp
next
  case (Cons i rounds)
  show ?case
  proof (cases "closed i")
    case True
    with Cons.prems show ?thesis by simp
  next
    case False
    show ?thesis
    proof (cases "PostForm w k url form")
      case None
      with False Cons.prems show ?thesis by simp
    next
      case (Some res)
      show ?thesis
      proof (cases "Unmarshal w res rc")
        case None
        with False Some Cons.prems show ?thesis by simp
      next
        case (Some rc')
        obtain r tr where rec: "retry_rounds w (k + 1) closed url form rc' rounds = (r, tr)"
          by (metis prod.exhaust)
        from Cons.IH [of "k + 1" rc'] rec have "e \<in> set tr \<Longrightarrow> e = Post url" by simp
        with False \<open>PostForm w k url form = Some res\<close> Some rec Cons.prems show ?thesis
          by (auto split: if_splits)
      qed
    qed
  qed
qed

lemma single_node_000_trace:
  "e \<in> set (snd (single_node_000 w form host api)) \<Longrightarrow> e = Post (host @ api)"
proof -
  assume e: "e \<in> set (snd (single_node_000 w form host api))"
  obtain rc err tr where sh: "singleHostRequest_000 w 0 (\<lambda>i. False) host api form = ((rc, err), tr)"
    by (metis prod.exhaust)
  with e have "e \<in> set tr" by (simp add: single_node_000_def split: if_splits)
  with sh retry_rounds_trace [of e w 0 "\<lambda>i. False" "host @ api" form FunnelResponse_zero "[0..<5]"]
  show ?thesis by (simp add: singleHostRequest_000_def)
qed



lemma dispatch_000_outcome_is_loop_outcome:
  assumes zf: "sublist ''zf'' api"
    and ls: "LoadBalance_List (env_oauth env) (env_store env) (env_LB env) (Values_Get form ''type'') = (h', snap)"
    and ne: "candidates_000 host (elems h' snap) \<noteq> []"
    and out: "FetchHandleOfPost_000 env form host api sched = (Some out, tr)"
  shows "out = fst (range_resultCh (Values_Get form ''type'') (received tr))
       \<and> loop_events tr = fst (snd (range_resultCh (Values_Get form ''type'') (received tr))) @ [Cancel]
       \<and> snd (snd (range_resultCh (Values_Get form ''type'') (received tr))) = []"
proof -
  let ?lt = "Values_Get form ''type''"
  let ?c = "\<lparr>cfg_world = env_world env, cfg_hosts = candidates_000 host (elems h' snap),
              cfg_loginType = ?lt, cfg_api = api, cfg_form = form\<rparr>"
  let ?s = "run_000 ?c sched (init_000 ?c)"
  have inv: "link_inv_000 ?c ?s"
    by (rule run_000_link_inv [OF init_000_link_inv init_000_cancel_inv])
  from out have r: "returned (consumer_000 ?s) = Some out" and t: "tr = LBList ?lt # trace_000 ?s"
    by (simp_all add: FetchHandleOfPost_000_hedged [OF zf ls ne refl])
  from r obtain d e where ret: "consumer_000 ?s = Returned d e" and o: "out = (d, e)"
    by (cases "consumer_000 ?s") auto
  from inv ret obtain ev where "loop_events (trace_000 ?s) = ev @ [Cancel]"
    "range_resultCh ?lt (received (trace_000 ?s)) = ((d, e), ev, [])"
    by (auto simp: link_inv_000_def)
  moreover have "received tr = received (trace_000 ?s)" using t by (simp add: received_def)
  moreover have "loop_events tr = loop_events (trace_000 ?s)" using t by (simp add: loop_events_def)
  ultimately show ?thesis using o by simp
qed

lemma dispatch_000_returns:
  "\<exists>sched out. fst (FetchHandleOfPost_000 env form host api sched) = Some out"
proof (cases rule: dispatch_000_modes [where api = api and env = env and form = form and host = host])
  case single
  then show ?thesis by (simp add: FetchHandleOfPost_000_single)
next
  case (none h' snap)
  then show ?thesis by (simp add: FetchHandleOfPost_000_no_candidates)
next
  case (hedged h' snap)
  let ?c = "\<lparr>cfg_world = env_world env, cfg_hosts = candidates_000 host (elems h' snap),
              cfg_loginType = Values_Get form ''type'', cfg_api = api, cfg_form = form\<rparr>"
  from some_schedule_returns_000 [of ?c "init_000 ?c"] obtain sched d e
    where "consumer_000 (run_000 ?c sched (init_000 ?c)) = Returned d e" by blast
  then have "fst (FetchHandleOfPost_000 env form host api sched) = Some (d, e)"
    by (simp add: FetchHandleOfPost_000_hedged [OF hedged refl])
  then show ?thesis by blast
qed

lemma dispatch_000_no_candidates:
  assumes "sublist ''zf'' api" and "host = []"
    and "elems (fst (LoadBalance_List (env_oauth env) (env_store env) (env_LB env) (Values_Get form ''type'')))
               (snd (LoadBalance_List (env_oauth env) (env_store env) (env_LB env) (Values_Get form ''type''))) = []"
  shows "FetchHandleOfPost_000 env form host api sched =
           (Some (None, Some NoApiAvailable), [LBList (Values_Get form ''type'')])"
proof -
  obtain h' snap where ls: "LoadBalance_List (env_oauth env) (env_store env) (env_LB env)
      (Values_Get form ''type'') = (h', snap)" by (metis prod.exhaust)
  with assms(3) have "elems h' snap = []" by simp
  with assms(2) have none: "candidates_000 host (elems h' snap) = []" by (simp add: candidates_000_Nil)
  from FetchHandleOfPost_000_no_candidates [OF assms(1) ls none, of sched] show ?thesis .
qed

section \<open>The earlier revision: the results of a race are results of the candidates\<close>

lemma worker_step_000_length: "length (workers_000 (worker_step_000 c i s)) = length (workers_000 s)"
  by (simp add: worker_step_000_def split: worker_000.splits option.splits)

lemma worker_step_000_channel:
  "set (resultCh_000 (worker_step_000 c i s)) \<subseteq>
     set (resultCh_000 s) \<union> {r. \<exists>rc err. i < length (workers_000 s) \<and> workers_000 s ! i = Holding_000 rc err
                              \<and> r = \<lparr>res_host = cfg_hosts c ! i, res_rc = rc, res_err = err\<rparr>}"
  by (auto simp: worker_step_000_def split: worker_000.splits option.splits if_splits)

lemma worker_step_000_channel_mono:
  "set (resultCh_000 s) \<subseteq> set (resultCh_000 (worker_step_000 c i s))"
  by (auto simp: worker_step_000_def split: worker_000.splits option.splits)

lemma worker_step_000_Round:
  assumes "j < length (workers_000 s)" and "workers_000 (worker_step_000 c i s) ! j = Round_000 n rc"
  shows "workers_000 s ! j = Round_000 n rc \<or> n < 5 \<or> (Code rc = 413 \<and> answered c j rc)"
proof (cases "j = i")
  case False
  with assms show ?thesis
    by (auto simp: worker_step_000_def split: worker_000.splits option.splits if_splits)
next
  case True
  show ?thesis
  proof (cases "workers_000 s ! i")
    case Spawned_000
    with assms True show ?thesis by (simp add: worker_step_000_def split: if_splits)
  next
    case (Round_000 m rc')
    with assms True show ?thesis by (simp add: worker_step_000_def split: if_splits)
  next
    case (Posting_000 m rc')
    with assms True show ?thesis
      unfolding answered_def
      by (auto simp: worker_step_000_def split: option.splits if_splits)
  next
    case (Holding_000 rc' err')
    with assms True show ?thesis by (simp add: worker_step_000_def)
  next
    case Exited_000
    with assms True show ?thesis by (simp add: worker_step_000_def)
  qed
qed

lemma worker_step_000_Holding:
  assumes "j < length (workers_000 s)" and "workers_000 (worker_step_000 c i s) ! j = Holding_000 rc err"
    and "\<forall>n rc'. workers_000 s ! j = Round_000 n rc' \<longrightarrow> n < 5 \<or> (Code rc' = 413 \<and> answered c j rc')"
  shows "workers_000 s ! j = Holding_000 rc err \<or> produced_000 c j rc err"
proof (cases "j = i")
  case False
  with assms show ?thesis
    by (auto simp: worker_step_000_def split: worker_000.splits option.splits if_splits)
next
  case True
  show ?thesis
  proof (cases "workers_000 s ! i")
    case Spawned_000
    with assms True show ?thesis by (simp add: worker_step_000_def split: if_splits)
  next
    case (Round_000 m rc')
    with assms True show ?thesis
      by (auto simp: worker_step_000_def produced_000_def split: if_splits)
  next
    case (Posting_000 m rc')
    with assms True show ?thesis
      unfolding answered_def produced_000_def
      by (auto simp: worker_step_000_def split: option.splits if_splits)
  next
    case (Holding_000 rc' err')
    with assms True show ?thesis by (simp add: worker_step_000_def)
  next
    case Exited_000
    with assms True show ?thesis by (simp add: worker_step_000_def)
  qed
qed

lemma worker_step_000_origin_inv:
  assumes "origin_inv_000 c s"
  shows "origin_inv_000 c (worker_step_000 c i s)"
proof -
  let ?s' = "worker_step_000 c i s"
  from assms
  have rd: "\<forall>j<length (workers_000 s). \<forall>n rc. workers_000 s ! j = Round_000 n rc \<longrightarrow>
               n < 5 \<or> (Code rc = 413 \<and> answered c j rc)"
    and hd: "\<forall>j<length (workers_000 s). \<forall>rc err. workers_000 s ! j = Holding_000 rc err \<longrightarrow>
               produced_000 c j rc err"
    and rs: "\<forall>r\<in>set (resultCh_000 s) \<union> set (received (trace_000 s)).
               \<exists>j<length (workers_000 s). res_host r = cfg_hosts c ! j
                  \<and> produced_000 c j (res_rc r) (res_err r)"
    by (simp_all add: origin_inv_000_def)
  have a: "\<forall>j<length (workers_000 ?s'). \<forall>n rc. workers_000 ?s' ! j = Round_000 n rc \<longrightarrow>
               n < 5 \<or> (Code rc = 413 \<and> answered c j rc)"
  proof (intro allI impI)
    fix j n rc
    assume j: "j < length (workers_000 ?s')" and w: "workers_000 ?s' ! j = Round_000 n rc"
    from j have j': "j < length (workers_000 s)" by (simp add: worker_step_000_length)
    from worker_step_000_Round [OF j' w] rd j' show "n < 5 \<or> (Code rc = 413 \<and> answered c j rc)"
      by blast
  qed
  have b: "\<forall>j<length (workers_000 ?s'). \<forall>rc err. workers_000 ?s' ! j = Holding_000 rc err \<longrightarrow>
               produced_000 c j rc err"
  proof (intro allI impI)
    fix j rc err
    assume j: "j < length (workers_000 ?s')" and w: "workers_000 ?s' ! j = Holding_000 rc err"
    from j have j': "j < length (workers_000 s)" by (simp add: worker_step_000_length)
    from rd j' have "\<forall>n rc'. workers_000 s ! j = Round_000 n rc' \<longrightarrow>
        n < 5 \<or> (Code rc' = 413 \<and> answered c j rc')" by simp
    from worker_step_000_Holding [OF j' w this] hd j' show "produced_000 c j rc err" by blast
  qed
  have r: "\<forall>r\<in>set (resultCh_000 ?s') \<union> set (received (trace_000 ?s')).
            \<exists>j<length (workers_000 ?s'). res_host r = cfg_hosts c ! j
               \<and> produced_000 c j (res_rc r) (res_err r)"
  proof
    fix r
    assume "r \<in> set (resultCh_000 ?s') \<union> set (received (trace_000 ?s'))"
    then have "r \<in> set (resultCh_000 s) \<union> set (received (trace_000 s))
        \<or> (\<exists>rc err. i < length (workers_000 s) \<and> workers_000 s ! i = Holding_000 rc err
              \<and> r = \<lparr>res_host = cfg_hosts c ! i, res_rc = rc, res_err = err\<rparr>)"
      using worker_step_000_channel [of c i s] by (auto simp: worker_step_000_frame)
    then show "\<exists>j<length (workers_000 ?s'). res_host r = cfg_hosts c ! j
               \<and> produced_000 c j (res_rc r) (res_err r)"
    proof
      assume "r \<in> set (resultCh_000 s) \<union> set (received (trace_000 s))"
      with rs show ?thesis by (simp add: worker_step_000_length)
    next
      assume "\<exists>rc err. i < length (workers_000 s) \<and> workers_000 s ! i = Holding_000 rc err
              \<and> r = \<lparr>res_host = cfg_hosts c ! i, res_rc = rc, res_err = err\<rparr>"
      then obtain rc err where i: "i < length (workers_000 s)"
        and w: "workers_000 s ! i = Holding_000 rc err"
        and r: "r = \<lparr>res_host = cfg_hosts c ! i, res_rc = rc, res_err = err\<rparr>" by blast
      from hd i w have "produced_000 c i rc err" by simp
      with i r show ?thesis by (auto simp: worker_step_000_length)
    qed
  qed
  from a b r show ?thesis by (simp add: origin_inv_000_def)
qed

lemma discard_step_000_length: "length (workers_000 (discard_step_000 i s)) = length (workers_000 s)"
  by (simp add: discard_step_000_def split: worker_000.splits)

lemma discard_step_000_Round:
  "j < length (workers_000 s) \<Longrightarrow> workers_000 (discard_step_000 i s) ! j = Round_000 n rc \<Longrightarrow>
     workers_000 s ! j = Round_000 n rc"
  by (cases "j = i") (auto simp: discard_step_000_def split: worker_000.splits if_splits)

lemma discard_step_000_Holding:
  "j < length (workers_000 s) \<Longrightarrow> workers_000 (discard_step_000 i s) ! j = Holding_000 rc err \<Longrightarrow>
     workers_000 s ! j = Holding_000 rc err"
  by (cases "j = i") (auto simp: discard_step_000_def split: worker_000.splits if_splits)

lemma discard_step_000_origin_inv:
  assumes "origin_inv_000 c s"
  shows "origin_inv_000 c (discard_step_000 i s)"
  using assms discard_step_000_Round [of _ s i] discard_step_000_Holding [of _ s i]
  by (auto simp: origin_inv_000_def discard_step_000_frame discard_step_000_length)

lemma consumer_step_000_workers: "workers_000 (consumer_step_000 c s) = workers_000 s"
  by (simp add: consumer_step_000_def split: consumer.splits list.splits prod.splits ctl.splits)

lemma on_result_000_events:
  "received (snd (on_result_000 lt r fe)) = []"
  by (auto simp: on_result_000_def received_def split: option.splits)

lemma consumer_step_000_results:
  "set (resultCh_000 (consumer_step_000 c s)) \<union> set (received (trace_000 (consumer_step_000 c s)))
     \<subseteq> set (resultCh_000 s) \<union> set (received (trace_000 s))"
proof (cases "consumer_000 s")
  case (Returned d e)
  then show ?thesis by (simp add: consumer_step_000_def)
next
  case (Ranging fe)
  show ?thesis
  proof (cases "resultCh_000 s")
    case Nil
    with Ranging show ?thesis
      by (auto simp: consumer_step_000_def received_def split: prod.splits)
  next
    case (Cons r rest)
    obtain ct ev where o: "on_result_000 (cfg_loginType c) r fe = (ct, ev)" by (metis prod.exhaust)
    from on_result_000_events [of "cfg_loginType c" r fe] o have nr: "received ev = []" by simp
    have rcv1: "received (trace_000 s @ Recv r # ev) = received (trace_000 s) @ [r]"
      using nr by (simp add: received_def)
    have rcv2: "received (trace_000 s @ Recv r # ev @ [Cancel]) = received (trace_000 s) @ [r]"
      using nr by (simp add: received_def)
    from Ranging Cons o rcv1 rcv2 show ?thesis
      by (cases ct) (auto simp: consumer_step_000_def)
  qed
qed

lemma consumer_step_000_origin_inv:
  assumes "origin_inv_000 c s"
  shows "origin_inv_000 c (consumer_step_000 c s)"
  using assms consumer_step_000_results [of c s]
  unfolding origin_inv_000_def consumer_step_000_workers by blast

lemma step_000_origin_inv: "origin_inv_000 c s \<Longrightarrow> origin_inv_000 c (step_000 c a s)"
  by (cases a)
     (simp_all add: worker_step_000_origin_inv discard_step_000_origin_inv consumer_step_000_origin_inv)

lemma run_000_origin_inv: "origin_inv_000 c s \<Longrightarrow> origin_inv_000 c (run_000 c sched s)"
  by (induction sched arbitrary: s) (simp_all add: step_000_origin_inv)

lemma init_000_origin_inv: "origin_inv_000 c (init_000 c)"
  by (simp add: origin_inv_000_def init_000_def received_def)

subsection \<open>The earlier revision: every candidate is heard when none ends the race\<close>

lemma worker_step_000_Exited:
  assumes "j < length (workers_000 s)" and "workers_000 (worker_step_000 c i s) ! j = Exited_000"
  shows "workers_000 s ! j = Exited_000 \<or> ctx_done_000 s
       \<or> cfg_hosts c ! j \<in> res_host ` set (resultCh_000 (worker_step_000 c i s))"
proof (cases "j = i")
  case False
  with assms show ?thesis
    by (auto simp: worker_step_000_def split: worker_000.splits option.splits if_splits)
next
  case True
  show ?thesis
  proof (cases "workers_000 s ! i")
    case Spawned_000
    with assms True show ?thesis by (simp add: worker_step_000_def split: if_splits)
  next
    case (Round_000 m rc)
    with assms True show ?thesis by (simp add: worker_step_000_def split: if_splits)
  next
    case (Posting_000 m rc)
    with assms True show ?thesis
      by (auto simp: worker_step_000_def split: option.splits if_splits)
  next
    case (Holding_000 rc err)
    with assms True show ?thesis by (simp add: worker_step_000_def)
  next
    case Exited_000
    with True show ?thesis by simp
  qed
qed

lemma worker_step_000_complete_inv:
  assumes inv: "complete_inv_000 c s" and ci: "cancel_inv_000 s"
  shows "complete_inv_000 c (worker_step_000 c i s)"
proof (cases "\<exists>r\<in>set (received (trace_000 s)). terminal r")
  case True
  then show ?thesis by (simp add: complete_inv_000_def worker_step_000_frame)
next
  case False
  show ?thesis
  proof (cases "consumer_000 s")
    case (Returned d e)
    with inv False show ?thesis
      by (simp add: complete_inv_000_def worker_step_000_frame worker_step_000_length)
  next
    case (Ranging fe)
    with ci have nd: "\<not> ctx_done_000 s" by (simp add: cancel_inv_000_def)
    from inv False Ranging
    have old: "\<forall>j<length (workers_000 s). workers_000 s ! j = Exited_000 \<longrightarrow>
                 cfg_hosts c ! j \<in> res_host ` (set (received (trace_000 s)) \<union> set (resultCh_000 s))"
      by (simp add: complete_inv_000_def)
    have "\<forall>j<length (workers_000 s). workers_000 (worker_step_000 c i s) ! j = Exited_000 \<longrightarrow>
             cfg_hosts c ! j \<in> res_host ` (set (received (trace_000 s))
                                            \<union> set (resultCh_000 (worker_step_000 c i s)))"
    proof (intro allI impI)
      fix j
      assume j: "j < length (workers_000 s)" and e: "workers_000 (worker_step_000 c i s) ! j = Exited_000"
      from worker_step_000_Exited [OF j e] nd
      have "workers_000 s ! j = Exited_000
          \<or> cfg_hosts c ! j \<in> res_host ` set (resultCh_000 (worker_step_000 c i s))"
        by simp
      then show "cfg_hosts c ! j \<in> res_host ` (set (received (trace_000 s))
                                            \<union> set (resultCh_000 (worker_step_000 c i s)))"
      proof
        assume "workers_000 s ! j = Exited_000"
        with old j
        have "cfg_hosts c ! j \<in> res_host ` (set (received (trace_000 s)) \<union> set (resultCh_000 s))"
          by simp
        with worker_step_000_channel_mono [of s c i] show ?thesis by blast
      next
        assume "cfg_hosts c ! j \<in> res_host ` set (resultCh_000 (worker_step_000 c i s))"
        then show ?thesis by blast
      qed
    qed
    with Ranging show ?thesis
      by (simp add: complete_inv_000_def worker_step_000_frame worker_step_000_length)
  qed
qed

lemma discard_step_000_complete_inv:
  assumes inv: "complete_inv_000 c s" and ci: "cancel_inv_000 s"
  shows "complete_inv_000 c (discard_step_000 i s)"
proof (cases "ctx_done_000 s")
  case False
  then have "discard_step_000 i s = s" by (simp add: discard_step_000_def)
  with inv show ?thesis by simp
next
  case True
  with ci obtain d e where "consumer_000 s = Returned d e"
    by (cases "consumer_000 s") (auto simp: cancel_inv_000_def)
  with inv show ?thesis
    by (simp add: complete_inv_000_def discard_step_000_frame discard_step_000_length)
qed

lemma on_result_000_Return_terminal:
  "on_result_000 lt r fe = (Return d e, ev) \<Longrightarrow> terminal r"
  by (auto simp: on_result_000_def terminal_def split: option.splits if_splits)

lemma consumer_step_000_complete_inv:
  assumes inv: "complete_inv_000 c s"
  shows "complete_inv_000 c (consumer_step_000 c s)"
proof (cases "consumer_000 s")
  case (Returned d e)
  with inv show ?thesis by (simp add: consumer_step_000_def)
next
  case (Ranging fe)
  show ?thesis
  proof (cases "\<exists>r\<in>set (received (trace_000 s)). terminal r")
    case True
    then obtain x where x: "x \<in> set (received (trace_000 s))" "terminal x" by blast
    have "set (received (trace_000 s)) \<subseteq> set (received (trace_000 (consumer_step_000 c s)))"
      by (auto simp: consumer_step_000_def received_append
          split: consumer.splits list.splits prod.splits ctl.splits)
    with x show ?thesis by (auto simp: complete_inv_000_def)
  next
    case False
    with inv Ranging
    have old: "\<forall>j<length (workers_000 s). workers_000 s ! j = Exited_000 \<longrightarrow>
                 cfg_hosts c ! j \<in> res_host ` (set (received (trace_000 s)) \<union> set (resultCh_000 s))"
      by (simp add: complete_inv_000_def)
    show ?thesis
    proof (cases "resultCh_000 s")
      case Nil
      show ?thesis
      proof (cases "list_all (\<lambda>w. w = Exited_000) (workers_000 s)")
        case nall: False
        with Ranging Nil inv show ?thesis by (simp add: consumer_step_000_def)
      next
        case all: True
        then have "\<forall>j<length (workers_000 s). workers_000 s ! j = Exited_000"
          by (simp add: list_all_length)
        with old Nil
        have "\<forall>j<length (workers_000 s). cfg_hosts c ! j \<in> res_host ` set (received (trace_000 s))"
          by simp
        moreover have "received (trace_000 s @ [Cancel]) = received (trace_000 s)"
          by (simp add: received_def)
        ultimately show ?thesis using Ranging Nil all
          by (simp add: complete_inv_000_def consumer_step_000_def split: prod.splits)
      qed
    next
      case (Cons r rest)
      obtain ct ev where o: "on_result_000 (cfg_loginType c) r fe = (ct, ev)" by (metis prod.exhaust)
      from on_result_000_events [of "cfg_loginType c" r fe] o have nr: "received ev = []" by simp
      have rcv1: "received (trace_000 s @ Recv r # ev) = received (trace_000 s) @ [r]"
        using nr by (simp add: received_def)
      have rcv2: "received (trace_000 s @ Recv r # ev @ [Cancel]) = received (trace_000 s) @ [r]"
        using nr by (simp add: received_def)
      show ?thesis
      proof (cases ct)
        case (Continue fe')
        from old Cons
        have "\<forall>j<length (workers_000 s). workers_000 s ! j = Exited_000 \<longrightarrow>
                 cfg_hosts c ! j \<in> res_host ` (set (received (trace_000 s) @ [r]) \<union> set rest)"
          by auto
        with Continue Ranging Cons o rcv1 show ?thesis
          by (simp add: complete_inv_000_def consumer_step_000_def)
      next
        case (Return d e)
        with o have "terminal r" using on_result_000_Return_terminal by blast
        with Return Ranging Cons o rcv2 show ?thesis
          by (simp add: complete_inv_000_def consumer_step_000_def)
      qed
    qed
  qed
qed

lemma run_000_complete_inv:
  "complete_inv_000 c s \<Longrightarrow> cancel_inv_000 s \<Longrightarrow> complete_inv_000 c (run_000 c sched s)"
proof (induction sched arbitrary: s)
  case Nil
  then show ?case by simp
next
  case (Cons a sched)
  have "complete_inv_000 c (step_000 c a s)"
    using Cons.prems
    by (cases a)
       (simp_all add: worker_step_000_complete_inv discard_step_000_complete_inv
          consumer_step_000_complete_inv)
  moreover have "cancel_inv_000 (step_000 c a s)" using Cons.prems(2) by (rule step_000_cancel_inv)
  ultimately show ?case using Cons.IH by simp
qed

lemma init_000_complete_inv: "complete_inv_000 c (init_000 c)"
  by (simp add: complete_inv_000_def init_000_def received_def)

lemma step_000_length_workers: "length (workers_000 (step_000 c a s)) = length (workers_000 s)"
  by (cases a)
     (simp_all add: worker_step_000_length discard_step_000_length consumer_step_000_workers)

lemma run_000_length_workers: "length (workers_000 (run_000 c sched s)) = length (workers_000 s)"
  by (induction sched arbitrary: s) (simp_all add: step_000_length_workers)

section \<open>The earlier revision: what a race and a hedged dispatch return\<close>

lemma race_000_terminal_received:
  assumes li: "link_inv_000 c s" and ci: "cancel_inv_000 s"
    and rcv: "received (trace_000 s) = pre @ r # post"
    and pre: "\<forall>x\<in>set pre. \<not> terminal x" and r: "terminal r"
  shows "post = []
       \<and> consumer_000 s = Returned (fst (verdict r)) (snd (verdict r))
       \<and> loop_events (trace_000 s) =
           map (\<lambda>x. CBFail (res_host x) (cfg_loginType c)) pre
             @ [CBSuccess (res_host r) (cfg_loginType c), Cancel, Cancel]
       \<and> ctx_done_000 s"
proof -
  let ?lt = "cfg_loginType c"
  from ci rcv have nc: "\<forall>x\<in>set pre. res_err x \<noteq> Some Canceled" by (auto simp: cancel_inv_000_def)
  have dr: "drain ?lt None (received (trace_000 s)) =
      (Return (fst (verdict r)) (snd (verdict r)),
       map (\<lambda>x. CBFail (res_host x) ?lt) pre @ [CBSuccess (res_host r) ?lt, Cancel], post)"
    using drain_first_terminal [OF pre r, of ?lt None post] rcv all_failures [OF nc, of ?lt] by simp
  show ?thesis
  proof (cases "consumer_000 s")
    case (Ranging fe)
    with li dr show ?thesis by (simp add: link_inv_000_def)
  next
    case (Returned d e)
    with li obtain ev where ev: "loop_events (trace_000 s) = ev @ [Cancel]"
      and rr: "range_resultCh ?lt (received (trace_000 s)) = ((d, e), ev, [])"
      by (auto simp: link_inv_000_def)
    from dr have "range_resultCh ?lt (received (trace_000 s)) =
        ((fst (verdict r), snd (verdict r)),
         map (\<lambda>x. CBFail (res_host x) ?lt) pre @ [CBSuccess (res_host r) ?lt, Cancel], post)"
      by (simp add: range_resultCh_def)
    with rr have "post = []" "d = fst (verdict r)" "e = snd (verdict r)"
      "ev = map (\<lambda>x. CBFail (res_host x) ?lt) pre @ [CBSuccess (res_host r) ?lt, Cancel]"
      by simp_all
    moreover from ci Returned have "ctx_done_000 s" by (simp add: cancel_inv_000_def)
    ultimately show ?thesis using Returned ev by simp
  qed
qed

lemma race_000_Ranging:
  assumes li: "link_inv_000 c s" and ci: "cancel_inv_000 s" and rg: "consumer_000 s = Ranging fe"
  shows "(\<forall>x\<in>set (received (trace_000 s)). \<not> terminal x)
       \<and> fe = (if received (trace_000 s) = [] then None else Some ServerError)
       \<and> loop_events (trace_000 s) = map (\<lambda>x. CBFail (res_host x) (cfg_loginType c)) (received (trace_000 s))"
proof -
  let ?lt = "cfg_loginType c"
  let ?rs = "received (trace_000 s)"
  from li rg have dr: "drain ?lt None ?rs = (Continue fe, loop_events (trace_000 s), [])"
    by (simp add: link_inv_000_def)
  have nt: "\<forall>x\<in>set ?rs. \<not> terminal x"
  proof (rule ccontr)
    assume "\<not> (\<forall>x\<in>set ?rs. \<not> terminal x)"
    then have "\<exists>x\<in>set ?rs. terminal x" by simp
    then obtain pre r post where sp: "?rs = pre @ r # post" and r: "terminal r"
      and pre: "\<forall>x\<in>set pre. \<not> terminal x"
      using split_list_first_prop [of ?rs terminal] by blast
    from drain_first_terminal [OF pre r, of ?lt None post] sp dr show False by simp
  qed
  from ci have nc: "\<forall>x\<in>set ?rs. res_err x \<noteq> Some Canceled" by (simp add: cancel_inv_000_def)
  then have ex: "(\<exists>x\<in>set ?rs. res_err x \<noteq> Some Canceled) \<longleftrightarrow> ?rs \<noteq> []"
    by (cases ?rs) auto
  have "drain ?lt None ?rs =
      (Continue (if ?rs = [] then None else Some ServerError),
       map (\<lambda>x. CBFail (res_host x) ?lt) ?rs, [])"
    unfolding drain_nonterminal [OF nt, of ?lt None] all_failures [OF nc, of ?lt]
    using ex by simp
  with dr have "fe = (if ?rs = [] then None else Some ServerError)"
    "loop_events (trace_000 s) = map (\<lambda>x. CBFail (res_host x) ?lt) ?rs"
    by simp_all
  with nt show ?thesis by simp
qed

lemma race_000_exhausted:
  assumes li: "link_inv_000 c s" and ci: "cancel_inv_000 s" and co: "complete_inv_000 c s"
    and nt: "\<forall>x\<in>set (received (trace_000 s)). \<not> terminal x"
    and ret: "consumer_000 s = Returned d e"
  shows "d = None \<and> e = Some ServerError
       \<and> loop_events (trace_000 s) =
           map (\<lambda>x. CBFail (res_host x) (cfg_loginType c)) (received (trace_000 s)) @ [Cancel]
       \<and> (\<forall>i<length (workers_000 s). cfg_hosts c ! i \<in> res_host ` set (received (trace_000 s)))"
proof -
  let ?lt = "cfg_loginType c"
  let ?rs = "received (trace_000 s)"
  from li ret obtain ev where ev: "loop_events (trace_000 s) = ev @ [Cancel]"
    and rr: "range_resultCh ?lt ?rs = ((d, e), ev, [])"
    by (auto simp: link_inv_000_def)
  from ci have nc: "\<forall>x\<in>set ?rs. res_err x \<noteq> Some Canceled" by (simp add: cancel_inv_000_def)
  have "range_resultCh ?lt ?rs = ((None, Some ServerError), map (\<lambda>x. CBFail (res_host x) ?lt) ?rs, [])"
    unfolding range_resultCh_def drain_nonterminal [OF nt, of ?lt None] all_failures [OF nc, of ?lt]
    by (simp add: after_loop_def)
  with rr have "d = None" "e = Some ServerError" "ev = map (\<lambda>x. CBFail (res_host x) ?lt) ?rs"
    by simp_all
  moreover from co nt ret
  have "\<forall>i<length (workers_000 s). cfg_hosts c ! i \<in> res_host ` set (received (trace_000 s))"
    by (simp add: complete_inv_000_def)
  ultimately show ?thesis using ev by simp
qed

lemma race_000_Returned:
  assumes li: "link_inv_000 c s" and ret: "consumer_000 s = Returned d e"
  shows "(\<exists>pre r. received (trace_000 s) = pre @ [r] \<and> (\<forall>x\<in>set pre. \<not> terminal x) \<and> terminal r
                 \<and> (d, e) = verdict r)
       \<or> (\<forall>x\<in>set (received (trace_000 s)). \<not> terminal x)"
proof (cases "\<forall>x\<in>set (received (trace_000 s)). \<not> terminal x")
  case True
  then show ?thesis by simp
next
  case False
  let ?lt = "cfg_loginType c"
  let ?rs = "received (trace_000 s)"
  from False have "\<exists>x\<in>set ?rs. terminal x" by simp
  then obtain pre r post where sp: "?rs = pre @ r # post" and r: "terminal r"
    and pre: "\<forall>x\<in>set pre. \<not> terminal x"
    using split_list_first_prop [of ?rs terminal] by blast
  from li ret obtain ev where rr: "range_resultCh ?lt ?rs = ((d, e), ev, [])"
    by (auto simp: link_inv_000_def)
  from drain_first_terminal [OF pre r, of ?lt None post] sp
  have "range_resultCh ?lt ?rs = (verdict r,
       [CBFail (res_host x) ?lt. x \<leftarrow> pre, res_err x \<noteq> Some Canceled]
         @ [CBSuccess (res_host r) ?lt, Cancel], post)"
    by (simp add: range_resultCh_def)
  with rr have "post = []" "(d, e) = verdict r" by simp_all
  with sp pre r show ?thesis by auto
qed

lemma received_produced_000:
  assumes oi: "origin_inv_000 c s" and ci: "cancel_inv_000 s"
    and r: "r \<in> set (received (trace_000 s))"
  shows "\<exists>i<length (workers_000 s). res_host r = cfg_hosts c ! i
           \<and> ((res_rc r = FunnelResponse_zero \<and> res_err r = Some RequestError)
              \<or> (res_err r = None \<and> answered c i (res_rc r)))"
proof -
  from oi r have "\<exists>i<length (workers_000 s). res_host r = cfg_hosts c ! i
      \<and> produced_000 c i (res_rc r) (res_err r)"
    unfolding origin_inv_000_def by blast
  then obtain i where i: "i < length (workers_000 s)" and h: "res_host r = cfg_hosts c ! i"
    and p: "produced_000 c i (res_rc r) (res_err r)" by blast
  from ci r have "res_err r \<noteq> Some Canceled" by (simp add: cancel_inv_000_def)
  with p have "(res_rc r = FunnelResponse_zero \<and> res_err r = Some RequestError)
              \<or> (res_err r = None \<and> answered c i (res_rc r))"
    by (auto simp: produced_000_def)
  with i h show ?thesis by blast
qed

lemma consumer_step_000_terminal:
  assumes "consumer_000 s = Ranging fe" and "resultCh_000 s = r # rest" and "terminal r"
  shows "consumer_step_000 c s =
           s\<lparr>resultCh_000 := rest, consumer_000 := Returned (fst (verdict r)) (snd (verdict r)),
             ctx_done_000 := True,
             trace_000 := trace_000 s @ [Recv r, CBSuccess (res_host r) (cfg_loginType c), Cancel, Cancel]\<rparr>"
proof -
  from assms(3) have "res_err r \<noteq> Some Canceled" by (simp add: terminal_def)
  from on_result_000_agrees [OF this, of "cfg_loginType c" fe]
    on_result_terminal [OF assms(3), of "cfg_loginType c" fe]
  have "on_result_000 (cfg_loginType c) r fe =
      (Return (fst (verdict r)) (snd (verdict r)), [CBSuccess (res_host r) (cfg_loginType c), Cancel])"
    by simp
  with assms(1,2) show ?thesis by (simp add: consumer_step_000_def)
qed

lemma consumer_step_000_closed:
  assumes "consumer_000 s = Ranging fe" and "resultCh_000 s = []"
    and "list_all (\<lambda>w. w = Exited_000) (workers_000 s)"
  shows "consumer_step_000 c s =
           s\<lparr>consumer_000 := Returned None (Some (case fe of None \<Rightarrow> ServerError | Some e \<Rightarrow> e)),
             ctx_done_000 := True, trace_000 := trace_000 s @ [Cancel]\<rparr>"
  using assms by (simp add: consumer_step_000_def after_loop_def)

lemma hedge_of_000_simps:
  "cfg_world (hedge_of_000 env form host api) = env_world env"
  "cfg_loginType (hedge_of_000 env form host api) = Values_Get form ''type''"
  "cfg_api (hedge_of_000 env form host api) = api"
  "cfg_form (hedge_of_000 env form host api) = form"
  by (simp_all add: hedge_of_000_def split: prod.splits)

lemma hedge_of_000_hosts:
  "LoadBalance_List (env_oauth env) (env_store env) (env_LB env) (Values_Get form ''type'') = (h', snap)
     \<Longrightarrow> hedge_of_000 env form host api =
           \<lparr>cfg_world = env_world env, cfg_hosts = candidates_000 host (elems h' snap),
            cfg_loginType = Values_Get form ''type'', cfg_api = api, cfg_form = form\<rparr>"
  by (simp add: hedge_of_000_def)

lemma hedge_of_000_candidates:
  "cfg_hosts (hedge_of_000 env form host api) =
     candidates_000 host
       (elems (fst (LoadBalance_List (env_oauth env) (env_store env) (env_LB env) (Values_Get form ''type'')))
              (snd (LoadBalance_List (env_oauth env) (env_store env) (env_LB env) (Values_Get form ''type''))))"
  by (simp add: hedge_of_000_def split: prod.splits)

lemma FetchHandleOfPost_000_race:
  assumes "sublist ''zf'' api" and "cfg_hosts (hedge_of_000 env form host api) \<noteq> []"
  shows "FetchHandleOfPost_000 env form host api sched =
           (returned (consumer_000 (race_000 env form host api sched)),
            LBList (Values_Get form ''type'') # trace_000 (race_000 env form host api sched))"
proof -
  obtain h' snap where ls: "LoadBalance_List (env_oauth env) (env_store env) (env_LB env)
      (Values_Get form ''type'') = (h', snap)" by (metis prod.exhaust)
  from assms(2) have ne: "candidates_000 host (elems h' snap) \<noteq> []"
    by (simp add: hedge_of_000_hosts [OF ls])
  from FetchHandleOfPost_000_hedged [OF assms(1) ls ne refl, of sched] show ?thesis
    by (simp add: race_000_def hedge_of_000_hosts [OF ls])
qed

lemma FetchHandleOfPost_000_received:
  assumes "received (snd (FetchHandleOfPost_000 env form host api sched)) \<noteq> []"
  shows "sublist ''zf'' api \<and> cfg_hosts (hedge_of_000 env form host api) \<noteq> []"
proof (cases rule: dispatch_000_modes [where api = api and env = env and form = form and host = host])
  case single
  from assms obtain r where "r \<in> set (received (snd (FetchHandleOfPost_000 env form host api sched)))"
    by (cases "received (snd (FetchHandleOfPost_000 env form host api sched))") auto
  then obtain e where "e \<in> set (snd (single_node_000 (env_world env) form host api))" "r \<in> set (recv_of e)"
    by (auto simp: FetchHandleOfPost_000_single [OF single] received_def)
  with single_node_000_trace [of e "env_world env" form host api] show ?thesis by simp
next
  case (none h' snap)
  with assms show ?thesis by (simp add: FetchHandleOfPost_000_no_candidates [OF none] received_def)
next
  case (hedged h' snap)
  then show ?thesis by (simp add: hedge_of_000_hosts [OF hedged(2)])
qed

lemma race_000_invs:
  "link_inv_000 (hedge_of_000 env form host api) (race_000 env form host api sched)"
  "cancel_inv_000 (race_000 env form host api sched)"
  "origin_inv_000 (hedge_of_000 env form host api) (race_000 env form host api sched)"
  "complete_inv_000 (hedge_of_000 env form host api) (race_000 env form host api sched)"
  "length (workers_000 (race_000 env form host api sched)) = length (cfg_hosts (hedge_of_000 env form host api))"
  unfolding race_000_def
  by (simp_all add: run_000_link_inv init_000_link_inv run_000_cancel_inv init_000_cancel_inv
        run_000_origin_inv init_000_origin_inv run_000_complete_inv init_000_complete_inv
        run_000_length_workers)
     (simp add: init_000_def)

lemma race_000_received:
  assumes "sublist ''zf'' api" and "cfg_hosts (hedge_of_000 env form host api) \<noteq> []"
  shows "received (snd (FetchHandleOfPost_000 env form host api sched))
           = received (trace_000 (race_000 env form host api sched))"
    and "loop_events (snd (FetchHandleOfPost_000 env form host api sched))
           = loop_events (trace_000 (race_000 env form host api sched))"
  by (simp_all add: FetchHandleOfPost_000_race [OF assms] received_def loop_events_def)

lemma dispatch_000_terminal_received:
  assumes rcv: "received (snd (FetchHandleOfPost_000 env form host api sched)) = pre @ r # post"
    and pre: "\<forall>x\<in>set pre. \<not> terminal x" and r: "terminal r"
  shows "post = []
       \<and> fst (FetchHandleOfPost_000 env form host api sched) = Some (verdict r)
       \<and> loop_events (snd (FetchHandleOfPost_000 env form host api sched)) =
           map (\<lambda>x. CBFail (res_host x) (Values_Get form ''type'')) pre
             @ [CBSuccess (res_host r) (Values_Get form ''type''), Cancel, Cancel]
       \<and> (\<exists>i<length (cfg_hosts (hedge_of_000 env form host api)).
             res_host r = cfg_hosts (hedge_of_000 env form host api) ! i
           \<and> answered (hedge_of_000 env form host api) i (res_rc r))
       \<and> ctx_done_000 (race_000 env form host api sched)"
proof -
  let ?c = "hedge_of_000 env form host api"
  let ?s = "race_000 env form host api sched"
  from rcv have "received (snd (FetchHandleOfPost_000 env form host api sched)) \<noteq> []" by simp
  from FetchHandleOfPost_000_received [OF this]
  have zf: "sublist ''zf'' api" and ne: "cfg_hosts ?c \<noteq> []" by simp_all
  from rcv have rcv': "received (trace_000 ?s) = pre @ r # post"
    by (simp add: race_000_received [OF zf ne])
  from race_000_terminal_received [OF race_000_invs(1) race_000_invs(2) rcv' pre r]
  have a: "post = []" "consumer_000 ?s = Returned (fst (verdict r)) (snd (verdict r))"
    "loop_events (trace_000 ?s) = map (\<lambda>x. CBFail (res_host x) (Values_Get form ''type'')) pre
             @ [CBSuccess (res_host r) (Values_Get form ''type''), Cancel, Cancel]"
    "ctx_done_000 ?s"
    by (simp_all add: hedge_of_000_simps)
  from rcv' have "r \<in> set (received (trace_000 ?s))" by simp
  from received_produced_000 [OF race_000_invs(3) race_000_invs(2) this] r
  have b: "\<exists>i<length (cfg_hosts ?c). res_host r = cfg_hosts ?c ! i \<and> answered ?c i (res_rc r)"
    by (auto simp: race_000_invs(5) terminal_def)
  from a(2) have "fst (FetchHandleOfPost_000 env form host api sched) = Some (verdict r)"
    by (simp add: FetchHandleOfPost_000_race [OF zf ne])
  with a(1) a(3) a(4) b show ?thesis by (simp add: race_000_received [OF zf ne])
qed

lemma nonterminal_answers_000:
  assumes nt: "\<forall>i<length (cfg_hosts (hedge_of_000 env form host api)). \<forall>rc.
       answered (hedge_of_000 env form host api) i rc \<longrightarrow> Code rc \<notin> {200, 412, 416}"
  shows "\<forall>x\<in>set (received (trace_000 (race_000 env form host api sched))). \<not> terminal x"
proof
  fix x
  let ?c = "hedge_of_000 env form host api"
  assume "x \<in> set (received (trace_000 (race_000 env form host api sched)))"
  from received_produced_000 [OF race_000_invs(3) race_000_invs(2) this]
  obtain i where i: "i < length (cfg_hosts ?c)"
    and p: "(res_rc x = FunnelResponse_zero \<and> res_err x = Some RequestError)
              \<or> (res_err x = None \<and> answered ?c i (res_rc x))"
    by (auto simp: race_000_invs(5))
  from p show "\<not> terminal x"
  proof
    assume "res_rc x = FunnelResponse_zero \<and> res_err x = Some RequestError"
    then show ?thesis by (simp add: terminal_def)
  next
    assume "res_err x = None \<and> answered ?c i (res_rc x)"
    with nt i have "Code (res_rc x) \<notin> {200, 412, 416}" by blast
    then show ?thesis by (simp add: terminal_def)
  qed
qed

lemma dispatch_000_can_always_return:
  "\<exists>later out. fst (FetchHandleOfPost_000 env form host api (sched @ later)) = Some out"
proof (cases rule: dispatch_000_modes [where api = api and env = env and form = form and host = host])
  case single
  then show ?thesis by (simp add: FetchHandleOfPost_000_single)
next
  case (none h' snap)
  then show ?thesis by (simp add: FetchHandleOfPost_000_no_candidates)
next
  case (hedged h' snap)
  let ?c = "\<lparr>cfg_world = env_world env, cfg_hosts = candidates_000 host (elems h' snap),
              cfg_loginType = Values_Get form ''type'', cfg_api = api, cfg_form = form\<rparr>"
  from some_schedule_returns_000 [of ?c "run_000 ?c sched (init_000 ?c)"] obtain later d e
    where "consumer_000 (run_000 ?c later (run_000 ?c sched (init_000 ?c))) = Returned d e" by blast
  then have "fst (FetchHandleOfPost_000 env form host api (sched @ later)) = Some (d, e)"
    by (simp add: FetchHandleOfPost_000_hedged [OF hedged refl] run_000_append)
  then show ?thesis by blast
qed

lemma dispatch_000_exhausted:
  assumes zf: "sublist ''zf'' api" and ne: "cfg_hosts (hedge_of_000 env form host api) \<noteq> []"
    and nt: "\<forall>i<length (cfg_hosts (hedge_of_000 env form host api)). \<forall>rc.
       answered (hedge_of_000 env form host api) i rc \<longrightarrow> Code rc \<notin> {200, 412, 416}"
  shows "(fst (FetchHandleOfPost_000 env form host api sched) = Some out \<longrightarrow>
            out = (None, Some ServerError)
          \<and> loop_events (snd (FetchHandleOfPost_000 env form host api sched)) =
              map (\<lambda>x. CBFail (res_host x) (Values_Get form ''type''))
                (received (snd (FetchHandleOfPost_000 env form host api sched))) @ [Cancel]
          \<and> set (cfg_hosts (hedge_of_000 env form host api))
              \<subseteq> res_host ` set (received (snd (FetchHandleOfPost_000 env form host api sched))))
       \<and> (\<exists>later. fst (FetchHandleOfPost_000 env form host api (sched @ later))
                     = Some (None, Some ServerError))"
proof -
  let ?c = "hedge_of_000 env form host api"
  have safe: "\<And>sch out. fst (FetchHandleOfPost_000 env form host api sch) = Some out \<Longrightarrow>
            out = (None, Some ServerError)
          \<and> loop_events (snd (FetchHandleOfPost_000 env form host api sch)) =
              map (\<lambda>x. CBFail (res_host x) (Values_Get form ''type''))
                (received (snd (FetchHandleOfPost_000 env form host api sch))) @ [Cancel]
          \<and> set (cfg_hosts ?c) \<subseteq> res_host ` set (received (snd (FetchHandleOfPost_000 env form host api sch)))"
  proof -
    fix sch out
    let ?s = "race_000 env form host api sch"
    assume "fst (FetchHandleOfPost_000 env form host api sch) = Some out"
    then obtain d e where ret: "consumer_000 ?s = Returned d e" and o: "out = (d, e)"
      by (cases "consumer_000 ?s") (auto simp: FetchHandleOfPost_000_race [OF zf ne])
    from race_000_exhausted [OF race_000_invs(1) race_000_invs(2) race_000_invs(4)
        nonterminal_answers_000 [OF nt] ret]
    have x: "d = None" "e = Some ServerError"
      "loop_events (trace_000 ?s) = map (\<lambda>x. CBFail (res_host x) (Values_Get form ''type''))
          (received (trace_000 ?s)) @ [Cancel]"
      "\<forall>i<length (cfg_hosts ?c). cfg_hosts ?c ! i \<in> res_host ` set (received (trace_000 ?s))"
      by (simp_all add: hedge_of_000_simps race_000_invs(5))
    from x(4) have "set (cfg_hosts ?c) \<subseteq> res_host ` set (received (trace_000 ?s))"
      by (auto simp: in_set_conv_nth)
    with x(1,2,3) o show "out = (None, Some ServerError)
          \<and> loop_events (snd (FetchHandleOfPost_000 env form host api sch)) =
              map (\<lambda>x. CBFail (res_host x) (Values_Get form ''type''))
                (received (snd (FetchHandleOfPost_000 env form host api sch))) @ [Cancel]
          \<and> set (cfg_hosts ?c) \<subseteq> res_host ` set (received (snd (FetchHandleOfPost_000 env form host api sch)))"
      by (simp add: race_000_received [OF zf ne])
  qed
  from dispatch_000_can_always_return [of env form host api sched] obtain later out'
    where l: "fst (FetchHandleOfPost_000 env form host api (sched @ later)) = Some out'" by blast
  from safe [OF l] l
  have "fst (FetchHandleOfPost_000 env form host api (sched @ later)) = Some (None, Some ServerError)"
    by simp
  then have live: "\<exists>later. fst (FetchHandleOfPost_000 env form host api (sched @ later))
                     = Some (None, Some ServerError)" by blast
  have "fst (FetchHandleOfPost_000 env form host api sched) = Some out \<longrightarrow>
            out = (None, Some ServerError)
          \<and> loop_events (snd (FetchHandleOfPost_000 env form host api sched)) =
              map (\<lambda>x. CBFail (res_host x) (Values_Get form ''type''))
                (received (snd (FetchHandleOfPost_000 env form host api sched))) @ [Cancel]
          \<and> set (cfg_hosts ?c) \<subseteq> res_host ` set (received (snd (FetchHandleOfPost_000 env form host api sched)))"
  proof
    assume "fst (FetchHandleOfPost_000 env form host api sched) = Some out"
    from safe [OF this] show "out = (None, Some ServerError)
          \<and> loop_events (snd (FetchHandleOfPost_000 env form host api sched)) =
              map (\<lambda>x. CBFail (res_host x) (Values_Get form ''type''))
                (received (snd (FetchHandleOfPost_000 env form host api sched))) @ [Cancel]
          \<and> set (cfg_hosts ?c) \<subseteq> res_host ` set (received (snd (FetchHandleOfPost_000 env form host api sched)))" .
  qed
  then show ?thesis using live by (rule conjI)
qed

lemma dispatch_000_nil_error:
  assumes zf: "sublist ''zf'' api"
    and out: "fst (FetchHandleOfPost_000 env form host api sched) = Some (d, None)"
  shows "\<exists>i<length (cfg_hosts (hedge_of_000 env form host api)). \<exists>rc.
           answered (hedge_of_000 env form host api) i rc \<and> Code rc = 200 \<and> d = Data rc"
proof (cases "cfg_hosts (hedge_of_000 env form host api) = []")
  case True
  obtain h' snap where ls: "LoadBalance_List (env_oauth env) (env_store env) (env_LB env)
      (Values_Get form ''type'') = (h', snap)" by (metis prod.exhaust)
  from True have "candidates_000 host (elems h' snap) = []" by (simp add: hedge_of_000_hosts [OF ls])
  from FetchHandleOfPost_000_no_candidates [OF zf ls this, of sched] out show ?thesis by simp
next
  case False
  let ?c = "hedge_of_000 env form host api"
  let ?s = "race_000 env form host api sched"
  from out have ret: "consumer_000 ?s = Returned d None"
    by (cases "consumer_000 ?s") (auto simp: FetchHandleOfPost_000_race [OF zf False])
  with race_000_invs(1) [of env form host api sched]
  obtain ev where "range_resultCh (Values_Get form ''type'') (received (trace_000 ?s)) = ((d, None), ev, [])"
    by (auto simp: link_inv_000_def hedge_of_000_simps)
  with range_resultCh_error_nil [of "Values_Get form ''type''" "received (trace_000 ?s)"]
  obtain r where r: "r \<in> set (received (trace_000 ?s))" "terminal r" "Code (res_rc r) = 200"
    "d = Data (res_rc r)" by auto
  from received_produced_000 [OF race_000_invs(3) race_000_invs(2) r(1)] r(2)
  obtain i where i: "i < length (cfg_hosts ?c)" and a: "answered ?c i (res_rc r)"
    by (auto simp: race_000_invs(5) terminal_def)
  with r(3,4) show ?thesis by blast
qed

lemma dispatch_000_consume_terminal:
  assumes zf: "sublist ''zf'' api" and ne: "cfg_hosts (hedge_of_000 env form host api) \<noteq> []"
    and rg: "consumer_000 (race_000 env form host api sched) = Ranging fe"
    and ch: "resultCh_000 (race_000 env form host api sched) = r # rest" and r: "terminal r"
  shows "FetchHandleOfPost_000 env form host api (sched @ [Consume]) =
           (Some (verdict r),
            LBList (Values_Get form ''type'') # trace_000 (race_000 env form host api sched)
              @ [Recv r, CBSuccess (res_host r) (Values_Get form ''type''), Cancel, Cancel])"
proof -
  have "race_000 env form host api (sched @ [Consume])
      = consumer_step_000 (hedge_of_000 env form host api) (race_000 env form host api sched)"
    by (simp add: race_000_def run_000_append)
  with consumer_step_000_terminal [OF rg ch r, of "hedge_of_000 env form host api"] show ?thesis
    by (simp add: FetchHandleOfPost_000_race [OF zf ne] hedge_of_000_simps)
qed

lemma dispatch_000_consume_closed:
  assumes zf: "sublist ''zf'' api" and ne: "cfg_hosts (hedge_of_000 env form host api) \<noteq> []"
    and rg: "consumer_000 (race_000 env form host api sched) = Ranging fe"
    and ch: "resultCh_000 (race_000 env form host api sched) = []"
    and ex: "list_all (\<lambda>w. w = Exited_000) (workers_000 (race_000 env form host api sched))"
  shows "FetchHandleOfPost_000 env form host api (sched @ [Consume]) =
           (Some (None, Some ServerError),
            LBList (Values_Get form ''type'') # trace_000 (race_000 env form host api sched) @ [Cancel])"
proof -
  have "race_000 env form host api (sched @ [Consume])
      = consumer_step_000 (hedge_of_000 env form host api) (race_000 env form host api sched)"
    by (simp add: race_000_def run_000_append)
  moreover from race_000_Ranging [OF race_000_invs(1) race_000_invs(2) rg]
  have "(case fe of None \<Rightarrow> ServerError | Some e \<Rightarrow> e) = ServerError" by (simp split: if_splits)
  ultimately show ?thesis
    using consumer_step_000_closed [OF rg ch ex, of "hedge_of_000 env form host api"]
    by (simp add: FetchHandleOfPost_000_race [OF zf ne])
qed

lemma dispatch_000_solo:
  assumes zf: "sublist ''zf'' api" and i: "i < length (cfg_hosts (hedge_of_000 env form host api))"
    and t: "terminal (mk_result (cfg_hosts (hedge_of_000 env form host api) ! i)
             (fst (singleHostRequest_000 (env_world env) 0 (\<lambda>r. False)
                     (cfg_hosts (hedge_of_000 env form host api) ! i) api form)))"
  shows "FetchHandleOfPost_000 env form host api (replicate 13 (Step i) @ [Consume]) =
           (Some (verdict (mk_result (cfg_hosts (hedge_of_000 env form host api) ! i)
                    (fst (singleHostRequest_000 (env_world env) 0 (\<lambda>r. False)
                            (cfg_hosts (hedge_of_000 env form host api) ! i) api form)))),
            LBList (Values_Get form ''type'')
              # snd (singleHostRequest_000 (env_world env) 0 (\<lambda>r. False)
                       (cfg_hosts (hedge_of_000 env form host api) ! i) api form)
              @ [Recv (mk_result (cfg_hosts (hedge_of_000 env form host api) ! i)
                    (fst (singleHostRequest_000 (env_world env) 0 (\<lambda>r. False)
                            (cfg_hosts (hedge_of_000 env form host api) ! i) api form))),
                 CBSuccess (cfg_hosts (hedge_of_000 env form host api) ! i) (Values_Get form ''type''),
                 Cancel, Cancel])"
proof -
  let ?c = "hedge_of_000 env form host api"
  let ?h = "cfg_hosts ?c ! i"
  let ?sh = "singleHostRequest_000 (env_world env) 0 (\<lambda>r. False) ?h api form"
  let ?r = "mk_result ?h (fst ?sh)"
  from i have ne: "cfg_hosts ?c \<noteq> []" by auto
  have p1: "i < length (workers_000 (init_000 ?c))" using i by (simp add: init_000_def)
  have p2: "workers_000 (init_000 ?c) ! i = Spawned_000" using i by (simp add: init_000_def)
  have p3: "\<not> ctx_done_000 (init_000 ?c)" by (simp add: init_000_def)
  have k0: "count_posts (trace_000 (init_000 ?c)) = 0" by (simp add: init_000_def count_posts_def)
  have s13: "race_000 env form host api (replicate 13 (Step i)) =
      (init_000 ?c)\<lparr>workers_000 := (workers_000 (init_000 ?c))[i := Exited_000],
                     resultCh_000 := resultCh_000 (init_000 ?c) @ [?r],
                     trace_000 := trace_000 (init_000 ?c) @ snd ?sh\<rparr>"
    using solo_worker_000 [OF p1 p2 p3, of ?c] unfolding k0 race_000_def hedge_of_000_simps .
  have rg: "consumer_000 (race_000 env form host api (replicate 13 (Step i))) = Ranging None"
    and ch: "resultCh_000 (race_000 env form host api (replicate 13 (Step i))) = ?r # []"
    and tr: "trace_000 (race_000 env form host api (replicate 13 (Step i))) = snd ?sh"
    unfolding s13 by (simp_all add: init_000_def)
  from dispatch_000_consume_terminal [OF zf ne rg ch t] tr show ?thesis
    by (simp add: mk_result_def)
qed

lemma dispatch_000_firstErr:
  assumes "consumer_000 (race_000 env form host api sched) = Ranging fe"
  shows "(\<forall>x\<in>set (received (trace_000 (race_000 env form host api sched))). \<not> terminal x)
       \<and> fe = (if received (trace_000 (race_000 env form host api sched)) = [] then None
               else Some ServerError)"
  using race_000_Ranging [OF race_000_invs(1) race_000_invs(2) assms] by simp

section \<open>Worked examples\<close>

text \<open>
  Pool A, B, C; A answers 412. A's answer is consumed first: the dispatch returns the
  wrong-password error, A is marked healthy, and B and C are not marked at all. Here B
  has already been called when the context is cancelled and drops its result; C finds
  the context cancelled before calling, and its result is never received.
\<close>

lemma scenario_first_answer_wins:
  "FetchHandleOfPost
     (nodes_env (\<lambda>url. if url = ''A/zf'' then Some 412 else Some 200) [''A'', ''B'', ''C''])
     (\<lambda>key. None) [] ''/zf''
     [Step 0, Step 1, Step 2, Step 0, Step 1, Step 0, Step 0, Consume,
      Step 1, Discard 1, Step 2, Step 2, Consume]
   = (Some (None, Some NoThatPasswordOrWrong),
      [LBList [], Post ''A/zf'',
       Recv \<lparr>res_host = ''A'', res_rc = \<lparr>Code = 412, Msg = [], Data = None\<rparr>, res_err = None\<rparr>,
       CBSuccess ''A'' [], Cancel, Cancel, Post ''B/zf''])"
  by code_simp

text \<open>Pool A, B; A fails in transport and B answers 413: the generic server error,
  and both nodes marked failed once.\<close>

lemma scenario_all_fail:
  "FetchHandleOfPost
     (nodes_env (\<lambda>url. if url = ''A/zf'' then None else Some 413) [''A'', ''B''])
     (\<lambda>key. None) [] ''/zf''
     [Step 0, Step 1, Step 0, Step 1, Step 0, Step 1, Step 0, Step 1, Consume, Consume, Consume]
   = (Some (None, Some ServerError),
      [LBList [], Post ''A/zf'', Post ''B/zf'',
       Recv \<lparr>res_host = ''A'', res_rc = \<lparr>Code = 0, Msg = [], Data = None\<rparr>, res_err = Some RequestError\<rparr>,
       CBFail ''A'' [],
       Recv \<lparr>res_host = ''B'', res_rc = \<lparr>Code = 413, Msg = [], Data = None\<rparr>, res_err = None\<rparr>,
       CBFail ''B'' [], Cancel])"
  by code_simp

text \<open>The same in the earlier revision, where B is asked five times before its 413 is
  passed on.\<close>

lemma scenario_all_fail_000:
  "FetchHandleOfPost_000
     (nodes_env (\<lambda>url. if url = ''A/zf'' then None else Some 413) [''A'', ''B''])
     (\<lambda>key. None) [] ''/zf''
     ([Step 0, Step 1, Step 0, Step 1, Step 0, Step 1, Step 0, Step 1]
        @ replicate 12 (Step 1) @ [Consume, Consume, Consume])
   = (Some (None, Some ServerError),
      [LBList [], Post ''A/zf'', Post ''B/zf'', Post ''B/zf'', Post ''B/zf'', Post ''B/zf'', Post ''B/zf'',
       Recv \<lparr>res_host = ''A'', res_rc = \<lparr>Code = 0, Msg = [], Data = None\<rparr>, res_err = Some RequestError\<rparr>,
       CBFail ''A'' [],
       Recv \<lparr>res_host = ''B'', res_rc = \<lparr>Code = 413, Msg = [], Data = None\<rparr>, res_err = None\<rparr>,
       CBFail ''B'' [], Cancel])"
  by code_simp

section \<open>Claims about the dispatcher\<close>

text \<open>
  C1. In hedged mode, under every interleaving of the goroutines and the consumer:
  when the results the dispatcher has consumed so far are \<open>pre\<close>, none of them terminal,
  then \<open>r\<close>, terminal (no error and code 200, 412 or 416), then \<open>post\<close>, the dispatcher has
  consumed nothing after \<open>r\<close> (\<open>post\<close> is empty) and has returned the data of \<open>r\<close> for
  code 200, the wrong-password error for 412 and the oauth-not-updated error for 416;
  the calls of its loop are one \<^verbatim>\<open>CB.Fail\<close> for each result of \<open>pre\<close>, then
  \<^verbatim>\<open>CB.Success\<close> for the node of \<open>r\<close> and \<^verbatim>\<open>cancel()\<close> (the one of the branch and the deferred
  one), and no other; and \<open>r\<close> is what \<^verbatim>\<open>singleHostRequest\<close> returned for one of the
  candidates; and the shared context is cancelled. The dispatcher does take that step: whenever the consumer is in its loop
  and a terminal result is next in the channel, letting the consumer run makes the
  dispatch return on it; a candidate that runs alone and gets a terminal answer
  decides the dispatch; and every interleaving can be continued to one under which the
  dispatch has returned. All of this holds of \<^verbatim>\<open>part_000\<close> as well, where a result comes
  out of the retry loop (thirteen steps of a goroutine are enough for its five rounds)
  and a terminal one is an envelope decoded from an answer of the candidate. (The last
  conjuncts say what \<open>race\<close> and \<open>hedge_of\<close> stand for: the state of the race inside the
  dispatch, and its candidates.)
\<close>

theorem first_terminal_result_wins:
  "(received (snd (FetchHandleOfPost env form host api sched)) = pre @ r # post
      \<and> (\<forall>x\<in>set pre. \<not> terminal x) \<and> terminal r \<longrightarrow>
        post = []
      \<and> fst (FetchHandleOfPost env form host api sched) = Some (verdict r)
      \<and> loop_events (snd (FetchHandleOfPost env form host api sched)) =
          map (\<lambda>x. CBFail (res_host x) (Values_Get form ''type'')) pre
            @ [CBSuccess (res_host r) (Values_Get form ''type''), Cancel, Cancel]
      \<and> (\<exists>i<length (cfg_hosts (hedge_of env form host api)). \<exists>k.
            res_host r = cfg_hosts (hedge_of env form host api) ! i
          \<and> fst (singleHostRequest (env_world env) k False
                   (cfg_hosts (hedge_of env form host api) ! i) api form) = (res_rc r, res_err r))
      \<and> ctx_done (race env form host api sched))
   \<and> (sublist ''zf'' api \<and> cfg_hosts (hedge_of env form host api) \<noteq> []
      \<and> consumer (race env form host api sched) = Ranging fe
      \<and> resultCh (race env form host api sched) = r' # rest \<and> terminal r' \<longrightarrow>
        FetchHandleOfPost env form host api (sched @ [Consume]) =
          (Some (verdict r'),
           LBList (Values_Get form ''type'') # trace (race env form host api sched)
             @ [Recv r', CBSuccess (res_host r') (Values_Get form ''type''), Cancel, Cancel]))
   \<and> (sublist ''zf'' api \<and> i < length (cfg_hosts (hedge_of env form host api))
      \<and> terminal (mk_result (cfg_hosts (hedge_of env form host api) ! i)
           (fst (singleHostRequest (env_world env) 0 False
                   (cfg_hosts (hedge_of env form host api) ! i) api form))) \<longrightarrow>
        FetchHandleOfPost env form host api [Step i, Step i, Step i, Step i, Consume] =
          (Some (verdict (mk_result (cfg_hosts (hedge_of env form host api) ! i)
                   (fst (singleHostRequest (env_world env) 0 False
                           (cfg_hosts (hedge_of env form host api) ! i) api form)))),
           [LBList (Values_Get form ''type''),
            Post (cfg_hosts (hedge_of env form host api) ! i @ api),
            Recv (mk_result (cfg_hosts (hedge_of env form host api) ! i)
                   (fst (singleHostRequest (env_world env) 0 False
                           (cfg_hosts (hedge_of env form host api) ! i) api form))),
            CBSuccess (cfg_hosts (hedge_of env form host api) ! i) (Values_Get form ''type''),
            Cancel, Cancel]))
   \<and> (\<exists>later out. fst (FetchHandleOfPost env form host api (sched @ later)) = Some out)
   \<and> (received (snd (FetchHandleOfPost_000 env form host api sched)) = pre @ r # post
      \<and> (\<forall>x\<in>set pre. \<not> terminal x) \<and> terminal r \<longrightarrow>
        post = []
      \<and> fst (FetchHandleOfPost_000 env form host api sched) = Some (verdict r)
      \<and> loop_events (snd (FetchHandleOfPost_000 env form host api sched)) =
          map (\<lambda>x. CBFail (res_host x) (Values_Get form ''type'')) pre
            @ [CBSuccess (res_host r) (Values_Get form ''type''), Cancel, Cancel]
      \<and> (\<exists>i<length (cfg_hosts (hedge_of_000 env form host api)).
            res_host r = cfg_hosts (hedge_of_000 env form host api) ! i
          \<and> answered (hedge_of_000 env form host api) i (res_rc r))
      \<and> ctx_done_000 (race_000 env form host api sched))
   \<and> (sublist ''zf'' api \<and> cfg_hosts (hedge_of_000 env form host api) \<noteq> []
      \<and> consumer_000 (race_000 env form host api sched) = Ranging fe
      \<and> resultCh_000 (race_000 env form host api sched) = r' # rest \<and> terminal r' \<longrightarrow>
        FetchHandleOfPost_000 env form host api (sched @ [Consume]) =
          (Some (verdict r'),
           LBList (Values_Get form ''type'') # trace_000 (race_000 env form host api sched)
             @ [Recv r', CBSuccess (res_host r') (Values_Get form ''type''), Cancel, Cancel]))
   \<and> (sublist ''zf'' api \<and> i < length (cfg_hosts (hedge_of_000 env form host api))
      \<and> terminal (mk_result (cfg_hosts (hedge_of_000 env form host api) ! i)
           (fst (singleHostRequest_000 (env_world env) 0 (\<lambda>n. False)
                   (cfg_hosts (hedge_of_000 env form host api) ! i) api form))) \<longrightarrow>
        FetchHandleOfPost_000 env form host api (replicate 13 (Step i) @ [Consume]) =
          (Some (verdict (mk_result (cfg_hosts (hedge_of_000 env form host api) ! i)
                   (fst (singleHostRequest_000 (env_world env) 0 (\<lambda>n. False)
                           (cfg_hosts (hedge_of_000 env form host api) ! i) api form)))),
           LBList (Values_Get form ''type'')
             # snd (singleHostRequest_000 (env_world env) 0 (\<lambda>n. False)
                      (cfg_hosts (hedge_of_000 env form host api) ! i) api form)
             @ [Recv (mk_result (cfg_hosts (hedge_of_000 env form host api) ! i)
                   (fst (singleHostRequest_000 (env_world env) 0 (\<lambda>n. False)
                           (cfg_hosts (hedge_of_000 env form host api) ! i) api form))),
                CBSuccess (cfg_hosts (hedge_of_000 env form host api) ! i) (Values_Get form ''type''),
                Cancel, Cancel]))
   \<and> (\<exists>later out. fst (FetchHandleOfPost_000 env form host api (sched @ later)) = Some out)
   \<and> (terminal x \<longleftrightarrow> res_err x = None \<and> Code (res_rc x) \<in> {200, 412, 416})
   \<and> (Code (res_rc x) = 200 \<longrightarrow> verdict x = (Data (res_rc x), None))
   \<and> (Code (res_rc x) = 412 \<longrightarrow> verdict x = (None, Some NoThatPasswordOrWrong))
   \<and> (Code (res_rc x) = 416 \<longrightarrow> verdict x = (None, Some OAuthNotUpdate))
   \<and> (sublist ''zf'' api \<and> cfg_hosts (hedge_of env form host api) \<noteq> [] \<longrightarrow>
        FetchHandleOfPost env form host api sched =
          (returned (consumer (race env form host api sched)),
           LBList (Values_Get form ''type'') # trace (race env form host api sched)))
   \<and> (sublist ''zf'' api \<and> cfg_hosts (hedge_of_000 env form host api) \<noteq> [] \<longrightarrow>
        FetchHandleOfPost_000 env form host api sched =
          (returned (consumer_000 (race_000 env form host api sched)),
           LBList (Values_Get form ''type'') # trace_000 (race_000 env form host api sched)))
   \<and> cfg_hosts (hedge_of env form host api) =
        candidates host
          (elems (fst (LoadBalance_List (env_oauth env) (env_store env) (env_LB env) (Values_Get form ''type'')))
                 (snd (LoadBalance_List (env_oauth env) (env_store env) (env_LB env) (Values_Get form ''type''))))
   \<and> cfg_hosts (hedge_of_000 env form host api) =
        candidates_000 host
          (elems (fst (LoadBalance_List (env_oauth env) (env_store env) (env_LB env) (Values_Get form ''type'')))
                 (snd (LoadBalance_List (env_oauth env) (env_store env) (env_LB env) (Values_Get form ''type''))))"
proof -
  have g: "sublist ''zf'' api \<and> cfg_hosts (hedge_of env form host api) \<noteq> [] \<longrightarrow>
        FetchHandleOfPost env form host api sched =
          (returned (consumer (race env form host api sched)),
           LBList (Values_Get form ''type'') # trace (race env form host api sched))"
    by (intro impI, elim conjE, rule FetchHandleOfPost_race; assumption)
  have g0: "sublist ''zf'' api \<and> cfg_hosts (hedge_of_000 env form host api) \<noteq> [] \<longrightarrow>
        FetchHandleOfPost_000 env form host api sched =
          (returned (consumer_000 (race_000 env form host api sched)),
           LBList (Values_Get form ''type'') # trace_000 (race_000 env form host api sched))"
    by (intro impI, elim conjE, rule FetchHandleOfPost_000_race; assumption)
  note hh = hedge_of_candidates [of env form host api]
  note hh0 = hedge_of_000_candidates [of env form host api]
  have a: "received (snd (FetchHandleOfPost env form host api sched)) = pre @ r # post
      \<and> (\<forall>x\<in>set pre. \<not> terminal x) \<and> terminal r \<longrightarrow>
        post = []
      \<and> fst (FetchHandleOfPost env form host api sched) = Some (verdict r)
      \<and> loop_events (snd (FetchHandleOfPost env form host api sched)) =
          map (\<lambda>x. CBFail (res_host x) (Values_Get form ''type'')) pre
            @ [CBSuccess (res_host r) (Values_Get form ''type''), Cancel, Cancel]
      \<and> (\<exists>i<length (cfg_hosts (hedge_of env form host api)). \<exists>k.
            res_host r = cfg_hosts (hedge_of env form host api) ! i
          \<and> fst (singleHostRequest (env_world env) k False
                   (cfg_hosts (hedge_of env form host api) ! i) api form) = (res_rc r, res_err r))
      \<and> ctx_done (race env form host api sched)"
    by (intro impI, elim conjE, rule dispatch_terminal_received; assumption)
  have b: "sublist ''zf'' api \<and> cfg_hosts (hedge_of env form host api) \<noteq> []
      \<and> consumer (race env form host api sched) = Ranging fe
      \<and> resultCh (race env form host api sched) = r' # rest \<and> terminal r' \<longrightarrow>
        FetchHandleOfPost env form host api (sched @ [Consume]) =
          (Some (verdict r'),
           LBList (Values_Get form ''type'') # trace (race env form host api sched)
             @ [Recv r', CBSuccess (res_host r') (Values_Get form ''type''), Cancel, Cancel])"
    by (intro impI, elim conjE, rule dispatch_consume_terminal; assumption)
  have c: "sublist ''zf'' api \<and> i < length (cfg_hosts (hedge_of env form host api))
      \<and> terminal (mk_result (cfg_hosts (hedge_of env form host api) ! i)
           (fst (singleHostRequest (env_world env) 0 False
                   (cfg_hosts (hedge_of env form host api) ! i) api form))) \<longrightarrow>
        FetchHandleOfPost env form host api [Step i, Step i, Step i, Step i, Consume] =
          (Some (verdict (mk_result (cfg_hosts (hedge_of env form host api) ! i)
                   (fst (singleHostRequest (env_world env) 0 False
                           (cfg_hosts (hedge_of env form host api) ! i) api form)))),
           [LBList (Values_Get form ''type''),
            Post (cfg_hosts (hedge_of env form host api) ! i @ api),
            Recv (mk_result (cfg_hosts (hedge_of env form host api) ! i)
                   (fst (singleHostRequest (env_world env) 0 False
                           (cfg_hosts (hedge_of env form host api) ! i) api form))),
            CBSuccess (cfg_hosts (hedge_of env form host api) ! i) (Values_Get form ''type''),
            Cancel, Cancel])"
    by (intro impI, elim conjE, rule dispatch_solo; assumption)
  have d: "\<exists>later out. fst (FetchHandleOfPost env form host api (sched @ later)) = Some out"
    by (rule dispatch_can_always_return)
  have a0: "received (snd (FetchHandleOfPost_000 env form host api sched)) = pre @ r # post
      \<and> (\<forall>x\<in>set pre. \<not> terminal x) \<and> terminal r \<longrightarrow>
        post = []
      \<and> fst (FetchHandleOfPost_000 env form host api sched) = Some (verdict r)
      \<and> loop_events (snd (FetchHandleOfPost_000 env form host api sched)) =
          map (\<lambda>x. CBFail (res_host x) (Values_Get form ''type'')) pre
            @ [CBSuccess (res_host r) (Values_Get form ''type''), Cancel, Cancel]
      \<and> (\<exists>i<length (cfg_hosts (hedge_of_000 env form host api)).
            res_host r = cfg_hosts (hedge_of_000 env form host api) ! i
          \<and> answered (hedge_of_000 env form host api) i (res_rc r))
      \<and> ctx_done_000 (race_000 env form host api sched)"
    by (intro impI, elim conjE, rule dispatch_000_terminal_received; assumption)
  have b0: "sublist ''zf'' api \<and> cfg_hosts (hedge_of_000 env form host api) \<noteq> []
      \<and> consumer_000 (race_000 env form host api sched) = Ranging fe
      \<and> resultCh_000 (race_000 env form host api sched) = r' # rest \<and> terminal r' \<longrightarrow>
        FetchHandleOfPost_000 env form host api (sched @ [Consume]) =
          (Some (verdict r'),
           LBList (Values_Get form ''type'') # trace_000 (race_000 env form host api sched)
             @ [Recv r', CBSuccess (res_host r') (Values_Get form ''type''), Cancel, Cancel])"
    by (intro impI, elim conjE, rule dispatch_000_consume_terminal; assumption)
  have c0: "sublist ''zf'' api \<and> i < length (cfg_hosts (hedge_of_000 env form host api))
      \<and> terminal (mk_result (cfg_hosts (hedge_of_000 env form host api) ! i)
           (fst (singleHostRequest_000 (env_world env) 0 (\<lambda>n. False)
                   (cfg_hosts (hedge_of_000 env form host api) ! i) api form))) \<longrightarrow>
        FetchHandleOfPost_000 env form host api (replicate 13 (Step i) @ [Consume]) =
          (Some (verdict (mk_result (cfg_hosts (hedge_of_000 env form host api) ! i)
                   (fst (singleHostRequest_000 (env_world env) 0 (\<lambda>n. False)
                           (cfg_hosts (hedge_of_000 env form host api) ! i) api form)))),
           LBList (Values_Get form ''type'')
             # snd (singleHostRequest_000 (env_world env) 0 (\<lambda>n. False)
                      (cfg_hosts (hedge_of_000 env form host api) ! i) api form)
             @ [Recv (mk_result (cfg_hosts (hedge_of_000 env form host api) ! i)
                   (fst (singleHostRequest_000 (env_world env) 0 (\<lambda>n. False)
                           (cfg_hosts (hedge_of_000 env form host api) ! i) api form))),
                CBSuccess (cfg_hosts (hedge_of_000 env form host api) ! i) (Values_Get form ''type''),
                Cancel, Cancel])"
    by (intro impI, elim conjE, rule dispatch_000_solo; assumption)
  have d0: "\<exists>later out. fst (FetchHandleOfPost_000 env form host api (sched @ later)) = Some out"
    by (rule dispatch_000_can_always_return)
  have t: "terminal x \<longleftrightarrow> res_err x = None \<and> Code (res_rc x) \<in> {200, 412, 416}"
    by (auto simp: terminal_def)
  have v1: "Code (res_rc x) = 200 \<longrightarrow> verdict x = (Data (res_rc x), None)"
    and v2: "Code (res_rc x) = 412 \<longrightarrow> verdict x = (None, Some NoThatPasswordOrWrong)"
    and v3: "Code (res_rc x) = 416 \<longrightarrow> verdict x = (None, Some OAuthNotUpdate)"
    by (simp_all add: verdict_def)
  show ?thesis
    by (rule conjI [OF a], rule conjI [OF b], rule conjI [OF c], rule conjI [OF d],
        rule conjI [OF a0], rule conjI [OF b0], rule conjI [OF c0], rule conjI [OF d0],
        rule conjI [OF t], rule conjI [OF v1], rule conjI [OF v2], rule conjI [OF v3],
        rule conjI [OF g], rule conjI [OF g0], rule conjI [OF hh], rule hh0)
qed

text \<open>The scenario of the specification, as a dispatch over the pool A, B, C: A answers
  413, B answers 412 and C answers 200; all three have sent before the consumer runs.
  The consumer counts A as failed, returns at B, and the 200 of C is never received.
  In \<^verbatim>\<open>part_000\<close> A is asked five times first.\<close>

theorem first_terminal_result_wins_witness:
  "received (snd (FetchHandleOfPost
       (nodes_env (\<lambda>url. if url = ''A/zf'' then Some 413 else if url = ''B/zf'' then Some 412 else Some 200)
          [''A'', ''B'', ''C''])
       (\<lambda>key. None) [] ''/zf''
       [Step 0, Step 0, Step 0, Step 0, Step 1, Step 1, Step 1, Step 1,
        Step 2, Step 2, Step 2, Step 2, Consume, Consume]))
     = [\<lparr>res_host = ''A'', res_rc = \<lparr>Code = 413, Msg = [], Data = None\<rparr>, res_err = None\<rparr>]
         @ \<lparr>res_host = ''B'', res_rc = \<lparr>Code = 412, Msg = [], Data = None\<rparr>, res_err = None\<rparr> # []
   \<and> \<not> terminal \<lparr>res_host = ''A'', res_rc = \<lparr>Code = 413, Msg = [], Data = None :: nat option\<rparr>, res_err = None\<rparr>
   \<and> terminal \<lparr>res_host = ''B'', res_rc = \<lparr>Code = 412, Msg = [], Data = None :: nat option\<rparr>, res_err = None\<rparr>
   \<and> fst (FetchHandleOfPost
       (nodes_env (\<lambda>url. if url = ''A/zf'' then Some 413 else if url = ''B/zf'' then Some 412 else Some 200)
          [''A'', ''B'', ''C''])
       (\<lambda>key. None) [] ''/zf''
       [Step 0, Step 0, Step 0, Step 0, Step 1, Step 1, Step 1, Step 1,
        Step 2, Step 2, Step 2, Step 2, Consume, Consume])
     = Some (None, Some NoThatPasswordOrWrong)
   \<and> loop_events (snd (FetchHandleOfPost
       (nodes_env (\<lambda>url. if url = ''A/zf'' then Some 413 else if url = ''B/zf'' then Some 412 else Some 200)
          [''A'', ''B'', ''C''])
       (\<lambda>key. None) [] ''/zf''
       [Step 0, Step 0, Step 0, Step 0, Step 1, Step 1, Step 1, Step 1,
        Step 2, Step 2, Step 2, Step 2, Consume, Consume]))
     = [CBFail ''A'' [], CBSuccess ''B'' [], Cancel, Cancel]
   \<and> fst (FetchHandleOfPost_000
       (nodes_env (\<lambda>url. if url = ''A/zf'' then Some 413 else if url = ''B/zf'' then Some 412 else Some 200)
          [''A'', ''B'', ''C''])
       (\<lambda>key. None) [] ''/zf''
       (replicate 13 (Step 0) @ replicate 13 (Step 1) @ replicate 13 (Step 2) @ [Consume, Consume]))
     = Some (None, Some NoThatPasswordOrWrong)
   \<and> count_posts (snd (FetchHandleOfPost_000
       (nodes_env (\<lambda>url. if url = ''A/zf'' then Some 413 else if url = ''B/zf'' then Some 412 else Some 200)
          [''A'', ''B'', ''C''])
       (\<lambda>key. None) [] ''/zf''
       (replicate 13 (Step 0) @ replicate 13 (Step 1) @ replicate 13 (Step 2) @ [Consume, Consume])))
     = 7
   \<and> FetchHandleOfPost
       (nodes_env (\<lambda>url. if url = ''A/zf'' then Some 413 else if url = ''B/zf'' then Some 412 else Some 200)
          [''A'', ''B'', ''C''])
       (\<lambda>key. None) [] ''/zf'' [Step 1, Step 1, Step 1, Step 1, Consume]
     = (Some (None, Some NoThatPasswordOrWrong),
        [LBList [], Post ''B/zf'',
         Recv \<lparr>res_host = ''B'', res_rc = \<lparr>Code = 412, Msg = [], Data = None\<rparr>, res_err = None\<rparr>,
         CBSuccess ''B'' [], Cancel, Cancel])
   \<and> FetchHandleOfPost_000
       (nodes_env (\<lambda>url. if url = ''A/zf'' then Some 413 else if url = ''B/zf'' then Some 412 else Some 200)
          [''A'', ''B'', ''C''])
       (\<lambda>key. None) [] ''/zf'' (replicate 13 (Step 1) @ [Consume])
     = (Some (None, Some NoThatPasswordOrWrong),
        [LBList [], Post ''B/zf'',
         Recv \<lparr>res_host = ''B'', res_rc = \<lparr>Code = 412, Msg = [], Data = None\<rparr>, res_err = None\<rparr>,
         CBSuccess ''B'' [], Cancel, Cancel])"
proof -
  let ?E = "nodes_env (\<lambda>url. if url = ''A/zf'' then Some 413 else if url = ''B/zf'' then Some 412 else Some 200)
          [''A'', ''B'', ''C'']"
  let ?F = "(\<lambda>key. None) :: Values"
  let ?S = "[Step 0, Step 0, Step 0, Step 0, Step 1, Step 1, Step 1, Step 1,
        Step 2, Step 2, Step 2, Step 2, Consume, Consume]"
  let ?T = "replicate 13 (Step 0) @ replicate 13 (Step 1) @ replicate 13 (Step 2) @ [Consume, Consume]"
  let ?a = "\<lparr>res_host = ''A'', res_rc = \<lparr>Code = 413, Msg = [], Data = None :: nat option\<rparr>, res_err = None\<rparr>"
  let ?b = "\<lparr>res_host = ''B'', res_rc = \<lparr>Code = 412, Msg = [], Data = None :: nat option\<rparr>, res_err = None\<rparr>"
  have ty: "Values_Get ?F ''type'' = []" by (simp add: Values_Get_def)
  have rcv: "received (snd (FetchHandleOfPost ?E ?F [] ''/zf'' ?S)) = [?a] @ ?b # []" by code_simp
  have rcv0: "received (snd (FetchHandleOfPost_000 ?E ?F [] ''/zf'' ?T)) = [?a] @ ?b # []" by code_simp
  have cnt0: "count_posts (snd (FetchHandleOfPost_000 ?E ?F [] ''/zf'' ?T)) = 7" by code_simp
  have pre: "\<forall>x\<in>set [?a]. \<not> terminal x" by (simp add: terminal_def)
  have r: "terminal ?b" by (simp add: terminal_def)
  have v: "verdict ?b = (None, Some NoThatPasswordOrWrong)" by (simp add: verdict_def)
  from first_terminal_result_wins [where env = ?E and form = ?F and host = "[]" and api = "''/zf''"
      and sched = ?S and pre = "[?a]" and r = ?b and post = "[]",
      THEN conjunct1, THEN mp, OF conjI [OF rcv conjI [OF pre r]]]
  have one: "fst (FetchHandleOfPost ?E ?F [] ''/zf'' ?S) = Some (None, Some NoThatPasswordOrWrong)"
    "loop_events (snd (FetchHandleOfPost ?E ?F [] ''/zf'' ?S)) = [CBFail ''A'' [], CBSuccess ''B'' [], Cancel, Cancel]"
    by (simp_all add: v ty)
  from first_terminal_result_wins [where env = ?E and form = ?F and host = "[]" and api = "''/zf''"
      and sched = ?T and pre = "[?a]" and r = ?b and post = "[]",
      THEN conjunct2, THEN conjunct2, THEN conjunct2, THEN conjunct2, THEN conjunct1, THEN mp,
      OF conjI [OF rcv0 conjI [OF pre r]]]
  have two: "fst (FetchHandleOfPost_000 ?E ?F [] ''/zf'' ?T) = Some (None, Some NoThatPasswordOrWrong)"
    by (simp add: v)
  have zf: "sublist ''zf'' ''/zf''" by code_simp
  have h: "cfg_hosts (hedge_of ?E ?F [] ''/zf'') = [''A'', ''B'', ''C'']" by code_simp
  have h0: "cfg_hosts (hedge_of_000 ?E ?F [] ''/zf'') = [''A'', ''B'', ''C'']" by code_simp
  have sh: "singleHostRequest (env_world ?E) 0 False ''B'' ''/zf'' ?F
      = ((\<lparr>Code = 412, Msg = [], Data = None\<rparr>, None), [Post ''B/zf''])" by code_simp
  have sh0: "singleHostRequest_000 (env_world ?E) 0 (\<lambda>n. False) ''B'' ''/zf'' ?F
      = ((\<lparr>Code = 412, Msg = [], Data = None\<rparr>, None), [Post ''B/zf''])" by code_simp
  have i: "1 < length (cfg_hosts (hedge_of ?E ?F [] ''/zf''))" by (simp add: h)
  have i0: "1 < length (cfg_hosts (hedge_of_000 ?E ?F [] ''/zf''))" by (simp add: h0)
  have t: "terminal (mk_result (cfg_hosts (hedge_of ?E ?F [] ''/zf'') ! 1)
      (fst (singleHostRequest (env_world ?E) 0 False (cfg_hosts (hedge_of ?E ?F [] ''/zf'') ! 1) ''/zf'' ?F)))"
    by (simp add: h sh mk_result_def terminal_def)
  have t0: "terminal (mk_result (cfg_hosts (hedge_of_000 ?E ?F [] ''/zf'') ! 1)
      (fst (singleHostRequest_000 (env_world ?E) 0 (\<lambda>n. False)
              (cfg_hosts (hedge_of_000 ?E ?F [] ''/zf'') ! 1) ''/zf'' ?F)))"
    by (simp add: h0 sh0 mk_result_def terminal_def)
  from first_terminal_result_wins [where env = ?E and form = ?F and host = "[]" and api = "''/zf''"
      and i = 1, THEN conjunct2, THEN conjunct2, THEN conjunct1, THEN mp, OF conjI [OF zf conjI [OF i t]]]
  have three: "FetchHandleOfPost ?E ?F [] ''/zf'' [Step 1, Step 1, Step 1, Step 1, Consume]
     = (Some (None, Some NoThatPasswordOrWrong),
        [LBList [], Post ''B/zf'', Recv ?b, CBSuccess ''B'' [], Cancel, Cancel])"
    by (simp add: h sh mk_result_def verdict_def ty)
  from first_terminal_result_wins [where env = ?E and form = ?F and host = "[]" and api = "''/zf''"
      and i = 1, THEN conjunct2, THEN conjunct2, THEN conjunct2, THEN conjunct2, THEN conjunct2,
      THEN conjunct2, THEN conjunct1, THEN mp, OF conjI [OF zf conjI [OF i0 t0]]]
  have four: "FetchHandleOfPost_000 ?E ?F [] ''/zf'' (replicate 13 (Step 1) @ [Consume])
     = (Some (None, Some NoThatPasswordOrWrong),
        [LBList [], Post ''B/zf'', Recv ?b, CBSuccess ''B'' [], Cancel, Cancel])"
    by (simp add: h0 sh0 mk_result_def verdict_def ty)
  from rcv pre r one two cnt0 three four show ?thesis by simp
qed



text \<open>
  C3 as stated fails: with an empty snapshot and a preferred node \<open>h\<close> the candidate
  list is \<open>[h]\<close>, the node is called, and the dispatch returns its answer.
\<close>

theorem empty_snapshot_counterexample:
  "elems (fst (LoadBalance_List ''oauth'' [] \<lparr>zfLB = Some (newRandomLB NilSlice), oauthLB = None\<rparr> []))
         (snd (LoadBalance_List ''oauth'' [] \<lparr>zfLB = Some (newRandomLB NilSlice), oauthLB = None\<rparr> [])) = []
   \<and> FetchHandleOfPost
        \<lparr>env_world = \<lparr>PostForm = (\<lambda>k url f. Some ''{}''),
                       Unmarshal = (\<lambda>res rc. Some (rc\<lparr>Code := 200, Data := Some (1::nat)\<rparr>))\<rparr>,
         env_store = [], env_LB = \<lparr>zfLB = Some (newRandomLB NilSlice), oauthLB = None\<rparr>,
         env_oauth = ''oauth''\<rparr>
        (\<lambda>k. None) ''h'' ''/zf'' [Step 0, Step 0, Step 0, Step 0, Consume]
      = (Some (Some 1, None),
         [LBList [], Post ''h/zf'',
          Recv \<lparr>res_host = ''h'', res_rc = \<lparr>Code = 200, Msg = [], Data = Some 1\<rparr>, res_err = None\<rparr>,
          CBSuccess ''h'' [], Cancel, Cancel])"
  by code_simp

text \<open>
  C3, as the code has it. On a hedged endpoint, when the snapshot that \<^verbatim>\<open>List\<close> returns
  is empty and no preferred node is supplied, the dispatch returns the
  no-node-available error under every interleaving, having done nothing but read the
  snapshot: no outbound call is made. (The candidate list is empty in no other case.)
  \<^verbatim>\<open>part_000\<close> does the same.
\<close>

theorem empty_snapshot_no_preferred_no_call:
  assumes "sublist ''zf'' api" and "host = []"
    and "elems (fst (LoadBalance_List (env_oauth env) (env_store env) (env_LB env) (Values_Get form ''type'')))
               (snd (LoadBalance_List (env_oauth env) (env_store env) (env_LB env) (Values_Get form ''type''))) = []"
  shows "FetchHandleOfPost env form host api sched =
           (Some (None, Some NoApiAvailable), [LBList (Values_Get form ''type'')])
       \<and> count_posts (snd (FetchHandleOfPost env form host api sched)) = 0
       \<and> (candidates host' hosts = [] \<longleftrightarrow> host' = [] \<and> hosts = [])
       \<and> FetchHandleOfPost_000 env form host api sched =
           (Some (None, Some NoApiAvailable), [LBList (Values_Get form ''type'')])"
proof -
  obtain h' snap where ls: "LoadBalance_List (env_oauth env) (env_store env) (env_LB env)
      (Values_Get form ''type'') = (h', snap)" by (metis prod.exhaust)
  with assms(3) have "elems h' snap = []" by simp
  with assms(2) have none: "candidates host (elems h' snap) = []" by (simp add: candidates_Nil)
  from FetchHandleOfPost_no_candidates [OF assms(1) ls none, of sched]
    dispatch_000_no_candidates [OF assms, of sched]
  show ?thesis by (simp add: count_posts_def candidates_Nil)
qed

text \<open>The theorem at an empty pool, whatever the interleaving offered.\<close>

theorem empty_snapshot_no_preferred_no_call_witness:
  "sublist ''zf'' ''/zf/login''
   \<and> FetchHandleOfPost
        \<lparr>env_world = \<lparr>PostForm = (\<lambda>k url f. Some ''{}''),
                       Unmarshal = (\<lambda>res rc. Some (rc\<lparr>Code := 200, Data := Some (1::nat)\<rparr>))\<rparr>,
         env_store = [], env_LB = \<lparr>zfLB = Some (newRandomLB NilSlice), oauthLB = None\<rparr>,
         env_oauth = ''oauth''\<rparr>
        (\<lambda>k. None) [] ''/zf/login'' [Step 0, Step 0, Step 0, Step 0, Consume]
      = (Some (None, Some NoApiAvailable), [LBList []])"
proof -
  let ?env = "\<lparr>env_world = \<lparr>PostForm = (\<lambda>k url f. Some ''{}''),
                       Unmarshal = (\<lambda>res rc. Some (rc\<lparr>Code := 200, Data := Some (1::nat)\<rparr>))\<rparr>,
         env_store = [], env_LB = \<lparr>zfLB = Some (newRandomLB NilSlice), oauthLB = None\<rparr>,
         env_oauth = ''oauth''\<rparr>"
  have zf: "sublist ''zf'' ''/zf/login''" by code_simp
  have ty: "Values_Get (\<lambda>k. None) ''type'' = []" by (simp add: Values_Get_def)
  have em: "elems (fst (LoadBalance_List (env_oauth ?env) (env_store ?env) (env_LB ?env) (Values_Get (\<lambda>k. None) ''type'')))
               (snd (LoadBalance_List (env_oauth ?env) (env_store ?env) (env_LB ?env) (Values_Get (\<lambda>k. None) ''type''))) = []"
    by (simp add: ty LoadBalance_List_def randomLB_list_def newRandomLB_def)
  from empty_snapshot_no_preferred_no_call [OF zf refl em, of "[Step 0, Step 0, Step 0, Step 0, Consume]"] zf ty
  show ?thesis by simp
qed

text \<open>
  C4. In hedged mode with candidates, when whatever \<^verbatim>\<open>singleHostRequest\<close> returns for a
  candidate is non-terminal (a transport or decode error, or a code other than 200, 412
  and 416), then under every interleaving a dispatch that has returned has returned nil
  data and the generic server error, its loop has called \<^verbatim>\<open>CB.Fail\<close> once for each result
  received and nothing else but the deferred \<^verbatim>\<open>cancel()\<close>, and it has received a result of
  every candidate; and every interleaving can be continued to one under which the
  dispatch has returned that error. Whatever the candidates answer, a hedged dispatch
  returns a nil error only together with the data of a code-200 envelope that
  \<^verbatim>\<open>singleHostRequest\<close> returned for a candidate: a failed hedge never returns a nil
  error. While the consumer is in its loop no result received was terminal, and
  \<^verbatim>\<open>firstErr\<close> is nil before the first failure and the generic server error from it on;
  when the channel is closed and empty, the consumer's next step returns nil data and
  the generic server error, which the statement after the loop supplies even where
  \<^verbatim>\<open>firstErr\<close> is nil. \<^verbatim>\<open>part_000\<close> does the same, where the condition on the
  candidates is that no envelope decoded from an answer of a candidate has code 200, 412
  or 416 (the calls of the goroutines interleave, so the retry loop of one may see any
  of the candidate's answers). (The last conjuncts say what \<open>race\<close> and \<open>hedge_of\<close> stand
  for: the state of the race inside the dispatch, and its candidates.)
\<close>

theorem hedge_exhausted_returns_ServerError:
  "(sublist ''zf'' api \<and> cfg_hosts (hedge_of env form host api) \<noteq> []
      \<and> (\<forall>i<length (cfg_hosts (hedge_of env form host api)). \<forall>k.
            \<not> terminal (mk_result (cfg_hosts (hedge_of env form host api) ! i)
                 (fst (singleHostRequest (env_world env) k False
                         (cfg_hosts (hedge_of env form host api) ! i) api form)))) \<longrightarrow>
        (fst (FetchHandleOfPost env form host api sched) = Some out \<longrightarrow>
            out = (None, Some ServerError)
          \<and> loop_events (snd (FetchHandleOfPost env form host api sched)) =
              map (\<lambda>x. CBFail (res_host x) (Values_Get form ''type''))
                (received (snd (FetchHandleOfPost env form host api sched))) @ [Cancel]
          \<and> set (cfg_hosts (hedge_of env form host api))
              \<subseteq> res_host ` set (received (snd (FetchHandleOfPost env form host api sched))))
      \<and> (\<exists>later. fst (FetchHandleOfPost env form host api (sched @ later))
                    = Some (None, Some ServerError)))
   \<and> (sublist ''zf'' api \<and> fst (FetchHandleOfPost env form host api sched) = Some (d, None) \<longrightarrow>
        (\<exists>i<length (cfg_hosts (hedge_of env form host api)). \<exists>k rc.
            fst (singleHostRequest (env_world env) k False
                   (cfg_hosts (hedge_of env form host api) ! i) api form) = (rc, None)
          \<and> Code rc = 200 \<and> d = Data rc))
   \<and> (consumer (race env form host api sched) = Ranging fe \<longrightarrow>
        (\<forall>x\<in>set (received (trace (race env form host api sched))). \<not> terminal x)
      \<and> fe = (if received (trace (race env form host api sched)) = [] then None
              else Some ServerError))
   \<and> (sublist ''zf'' api \<and> cfg_hosts (hedge_of env form host api) \<noteq> []
      \<and> consumer (race env form host api sched) = Ranging fe
      \<and> resultCh (race env form host api sched) = []
      \<and> list_all (\<lambda>w. w = Exited) (workers (race env form host api sched)) \<longrightarrow>
        FetchHandleOfPost env form host api (sched @ [Consume]) =
          (Some (None, Some ServerError),
           LBList (Values_Get form ''type'') # trace (race env form host api sched) @ [Cancel]))
   \<and> (sublist ''zf'' api \<and> cfg_hosts (hedge_of_000 env form host api) \<noteq> []
      \<and> (\<forall>i<length (cfg_hosts (hedge_of_000 env form host api)). \<forall>rc.
            answered (hedge_of_000 env form host api) i rc \<longrightarrow> Code rc \<notin> {200, 412, 416}) \<longrightarrow>
        (fst (FetchHandleOfPost_000 env form host api sched) = Some out \<longrightarrow>
            out = (None, Some ServerError)
          \<and> loop_events (snd (FetchHandleOfPost_000 env form host api sched)) =
              map (\<lambda>x. CBFail (res_host x) (Values_Get form ''type''))
                (received (snd (FetchHandleOfPost_000 env form host api sched))) @ [Cancel]
          \<and> set (cfg_hosts (hedge_of_000 env form host api))
              \<subseteq> res_host ` set (received (snd (FetchHandleOfPost_000 env form host api sched))))
      \<and> (\<exists>later. fst (FetchHandleOfPost_000 env form host api (sched @ later))
                    = Some (None, Some ServerError)))
   \<and> (sublist ''zf'' api \<and> fst (FetchHandleOfPost_000 env form host api sched) = Some (d, None) \<longrightarrow>
        (\<exists>i<length (cfg_hosts (hedge_of_000 env form host api)). \<exists>rc.
            answered (hedge_of_000 env form host api) i rc \<and> Code rc = 200 \<and> d = Data rc))
   \<and> (consumer_000 (race_000 env form host api sched) = Ranging fe \<longrightarrow>
        (\<forall>x\<in>set (received (trace_000 (race_000 env form host api sched))). \<not> terminal x)
      \<and> fe = (if received (trace_000 (race_000 env form host api sched)) = [] then None
              else Some ServerError))
   \<and> (sublist ''zf'' api \<and> cfg_hosts (hedge_of_000 env form host api) \<noteq> []
      \<and> consumer_000 (race_000 env form host api sched) = Ranging fe
      \<and> resultCh_000 (race_000 env form host api sched) = []
      \<and> list_all (\<lambda>w. w = Exited_000) (workers_000 (race_000 env form host api sched)) \<longrightarrow>
        FetchHandleOfPost_000 env form host api (sched @ [Consume]) =
          (Some (None, Some ServerError),
           LBList (Values_Get form ''type'') # trace_000 (race_000 env form host api sched) @ [Cancel]))
   \<and> after_loop None = (None :: 'a option, Some ServerError)
   \<and> after_loop (Some ServerError) = (None :: 'a option, Some ServerError)
   \<and> (sublist ''zf'' api \<and> cfg_hosts (hedge_of env form host api) \<noteq> [] \<longrightarrow>
        FetchHandleOfPost env form host api sched =
          (returned (consumer (race env form host api sched)),
           LBList (Values_Get form ''type'') # trace (race env form host api sched)))
   \<and> (sublist ''zf'' api \<and> cfg_hosts (hedge_of_000 env form host api) \<noteq> [] \<longrightarrow>
        FetchHandleOfPost_000 env form host api sched =
          (returned (consumer_000 (race_000 env form host api sched)),
           LBList (Values_Get form ''type'') # trace_000 (race_000 env form host api sched)))
   \<and> cfg_hosts (hedge_of env form host api) =
        candidates host
          (elems (fst (LoadBalance_List (env_oauth env) (env_store env) (env_LB env) (Values_Get form ''type'')))
                 (snd (LoadBalance_List (env_oauth env) (env_store env) (env_LB env) (Values_Get form ''type''))))
   \<and> cfg_hosts (hedge_of_000 env form host api) =
        candidates_000 host
          (elems (fst (LoadBalance_List (env_oauth env) (env_store env) (env_LB env) (Values_Get form ''type'')))
                 (snd (LoadBalance_List (env_oauth env) (env_store env) (env_LB env) (Values_Get form ''type''))))"
proof -
  have g: "sublist ''zf'' api \<and> cfg_hosts (hedge_of env form host api) \<noteq> [] \<longrightarrow>
        FetchHandleOfPost env form host api sched =
          (returned (consumer (race env form host api sched)),
           LBList (Values_Get form ''type'') # trace (race env form host api sched))"
    by (intro impI, elim conjE, rule FetchHandleOfPost_race; assumption)
  have g0: "sublist ''zf'' api \<and> cfg_hosts (hedge_of_000 env form host api) \<noteq> [] \<longrightarrow>
        FetchHandleOfPost_000 env form host api sched =
          (returned (consumer_000 (race_000 env form host api sched)),
           LBList (Values_Get form ''type'') # trace_000 (race_000 env form host api sched))"
    by (intro impI, elim conjE, rule FetchHandleOfPost_000_race; assumption)
  note hh = hedge_of_candidates [of env form host api]
  note hh0 = hedge_of_000_candidates [of env form host api]
  have a: "sublist ''zf'' api \<and> cfg_hosts (hedge_of env form host api) \<noteq> []
      \<and> (\<forall>i<length (cfg_hosts (hedge_of env form host api)). \<forall>k.
            \<not> terminal (mk_result (cfg_hosts (hedge_of env form host api) ! i)
                 (fst (singleHostRequest (env_world env) k False
                         (cfg_hosts (hedge_of env form host api) ! i) api form)))) \<longrightarrow>
        (fst (FetchHandleOfPost env form host api sched) = Some out \<longrightarrow>
            out = (None, Some ServerError)
          \<and> loop_events (snd (FetchHandleOfPost env form host api sched)) =
              map (\<lambda>x. CBFail (res_host x) (Values_Get form ''type''))
                (received (snd (FetchHandleOfPost env form host api sched))) @ [Cancel]
          \<and> set (cfg_hosts (hedge_of env form host api))
              \<subseteq> res_host ` set (received (snd (FetchHandleOfPost env form host api sched))))
      \<and> (\<exists>later. fst (FetchHandleOfPost env form host api (sched @ later))
                    = Some (None, Some ServerError))"
    by (intro impI, elim conjE, rule dispatch_exhausted; assumption)
  have b: "sublist ''zf'' api \<and> fst (FetchHandleOfPost env form host api sched) = Some (d, None) \<longrightarrow>
        (\<exists>i<length (cfg_hosts (hedge_of env form host api)). \<exists>k rc.
            fst (singleHostRequest (env_world env) k False
                   (cfg_hosts (hedge_of env form host api) ! i) api form) = (rc, None)
          \<and> Code rc = 200 \<and> d = Data rc)"
    by (intro impI, elim conjE, rule dispatch_nil_error; assumption)
  have c: "consumer (race env form host api sched) = Ranging fe \<longrightarrow>
        (\<forall>x\<in>set (received (trace (race env form host api sched))). \<not> terminal x)
      \<and> fe = (if received (trace (race env form host api sched)) = [] then None
              else Some ServerError)"
    by (intro impI, rule dispatch_firstErr; assumption)
  have e: "sublist ''zf'' api \<and> cfg_hosts (hedge_of env form host api) \<noteq> []
      \<and> consumer (race env form host api sched) = Ranging fe
      \<and> resultCh (race env form host api sched) = []
      \<and> list_all (\<lambda>w. w = Exited) (workers (race env form host api sched)) \<longrightarrow>
        FetchHandleOfPost env form host api (sched @ [Consume]) =
          (Some (None, Some ServerError),
           LBList (Values_Get form ''type'') # trace (race env form host api sched) @ [Cancel])"
    by (intro impI, elim conjE, rule dispatch_consume_closed; assumption)
  have a0: "sublist ''zf'' api \<and> cfg_hosts (hedge_of_000 env form host api) \<noteq> []
      \<and> (\<forall>i<length (cfg_hosts (hedge_of_000 env form host api)). \<forall>rc.
            answered (hedge_of_000 env form host api) i rc \<longrightarrow> Code rc \<notin> {200, 412, 416}) \<longrightarrow>
        (fst (FetchHandleOfPost_000 env form host api sched) = Some out \<longrightarrow>
            out = (None, Some ServerError)
          \<and> loop_events (snd (FetchHandleOfPost_000 env form host api sched)) =
              map (\<lambda>x. CBFail (res_host x) (Values_Get form ''type''))
                (received (snd (FetchHandleOfPost_000 env form host api sched))) @ [Cancel]
          \<and> set (cfg_hosts (hedge_of_000 env form host api))
              \<subseteq> res_host ` set (received (snd (FetchHandleOfPost_000 env form host api sched))))
      \<and> (\<exists>later. fst (FetchHandleOfPost_000 env form host api (sched @ later))
                    = Some (None, Some ServerError))"
    by (intro impI, elim conjE, rule dispatch_000_exhausted; assumption)
  have b0: "sublist ''zf'' api \<and> fst (FetchHandleOfPost_000 env form host api sched) = Some (d, None) \<longrightarrow>
        (\<exists>i<length (cfg_hosts (hedge_of_000 env form host api)). \<exists>rc.
            answered (hedge_of_000 env form host api) i rc \<and> Code rc = 200 \<and> d = Data rc)"
    by (intro impI, elim conjE, rule dispatch_000_nil_error; assumption)
  have c0: "consumer_000 (race_000 env form host api sched) = Ranging fe \<longrightarrow>
        (\<forall>x\<in>set (received (trace_000 (race_000 env form host api sched))). \<not> terminal x)
      \<and> fe = (if received (trace_000 (race_000 env form host api sched)) = [] then None
              else Some ServerError)"
    by (intro impI, rule dispatch_000_firstErr; assumption)
  have e0: "sublist ''zf'' api \<and> cfg_hosts (hedge_of_000 env form host api) \<noteq> []
      \<and> consumer_000 (race_000 env form host api sched) = Ranging fe
      \<and> resultCh_000 (race_000 env form host api sched) = []
      \<and> list_all (\<lambda>w. w = Exited_000) (workers_000 (race_000 env form host api sched)) \<longrightarrow>
        FetchHandleOfPost_000 env form host api (sched @ [Consume]) =
          (Some (None, Some ServerError),
           LBList (Values_Get form ''type'') # trace_000 (race_000 env form host api sched) @ [Cancel])"
    by (intro impI, elim conjE, rule dispatch_000_consume_closed; assumption)
  have f1: "after_loop None = (None :: 'a option, Some ServerError)"
    and f2: "after_loop (Some ServerError) = (None :: 'a option, Some ServerError)"
    by (simp_all add: after_loop_def)
  show ?thesis
    by (rule conjI [OF a], rule conjI [OF b], rule conjI [OF c], rule conjI [OF e],
        rule conjI [OF a0], rule conjI [OF b0], rule conjI [OF c0], rule conjI [OF e0],
        rule conjI [OF f1], rule conjI [OF f2],
        rule conjI [OF g], rule conjI [OF g0], rule conjI [OF hh], rule hh0)
qed

text \<open>The scenario of the specification, as a dispatch over the pool A, B: A fails in
  transport and B answers 413 (five times in \<^verbatim>\<open>part_000\<close>). Both are counted as failed
  and the generic server error is returned; and from any point of the race it can
  still be returned.\<close>

theorem hedge_exhausted_returns_ServerError_witness:
  "sublist ''zf'' ''/zf''
   \<and> cfg_hosts (hedge_of (nodes_env (\<lambda>url. if url = ''A/zf'' then None else Some 413) [''A'', ''B''])
                  (\<lambda>key. None) [] ''/zf'') = [''A'', ''B'']
   \<and> fst (FetchHandleOfPost (nodes_env (\<lambda>url. if url = ''A/zf'' then None else Some 413) [''A'', ''B''])
            (\<lambda>key. None) [] ''/zf''
            [Step 0, Step 1, Step 0, Step 1, Step 0, Step 1, Step 0, Step 1, Consume, Consume, Consume])
       = Some (None, Some ServerError)
   \<and> loop_events (snd (FetchHandleOfPost
            (nodes_env (\<lambda>url. if url = ''A/zf'' then None else Some 413) [''A'', ''B''])
            (\<lambda>key. None) [] ''/zf''
            [Step 0, Step 1, Step 0, Step 1, Step 0, Step 1, Step 0, Step 1, Consume, Consume, Consume]))
       = [CBFail ''A'' [], CBFail ''B'' [], Cancel]
   \<and> (\<exists>later. fst (FetchHandleOfPost
            (nodes_env (\<lambda>url. if url = ''A/zf'' then None else Some 413) [''A'', ''B''])
            (\<lambda>key. None) [] ''/zf'' ([Step 0, Step 1, Discard 0] @ later))
         = Some (None, Some ServerError))
   \<and> fst (FetchHandleOfPost_000 (nodes_env (\<lambda>url. if url = ''A/zf'' then None else Some 413) [''A'', ''B''])
            (\<lambda>key. None) [] ''/zf''
            ([Step 0, Step 1, Step 0, Step 1, Step 0, Step 1, Step 0, Step 1]
               @ replicate 12 (Step 1) @ [Consume, Consume, Consume]))
       = Some (None, Some ServerError)
   \<and> loop_events (snd (FetchHandleOfPost_000
            (nodes_env (\<lambda>url. if url = ''A/zf'' then None else Some 413) [''A'', ''B''])
            (\<lambda>key. None) [] ''/zf''
            ([Step 0, Step 1, Step 0, Step 1, Step 0, Step 1, Step 0, Step 1]
               @ replicate 12 (Step 1) @ [Consume, Consume, Consume])))
       = [CBFail ''A'' [], CBFail ''B'' [], Cancel]"
proof -
  let ?E = "nodes_env (\<lambda>url. if url = ''A/zf'' then None else Some 413) [''A'', ''B'']"
  let ?F = "(\<lambda>key. None) :: Values"
  let ?S = "[Step 0, Step 1, Step 0, Step 1, Step 0, Step 1, Step 0, Step 1, Consume, Consume, Consume]"
  let ?T = "[Step 0, Step 1, Step 0, Step 1, Step 0, Step 1, Step 0, Step 1]
               @ replicate 12 (Step 1) @ [Consume, Consume, Consume]"
  let ?a = "\<lparr>res_host = ''A'', res_rc = \<lparr>Code = 0, Msg = [], Data = None :: nat option\<rparr>,
             res_err = Some RequestError\<rparr>"
  let ?b = "\<lparr>res_host = ''B'', res_rc = \<lparr>Code = 413, Msg = [], Data = None :: nat option\<rparr>, res_err = None\<rparr>"
  have ty: "Values_Get ?F ''type'' = []" by (simp add: Values_Get_def)
  have zf: "sublist ''zf'' ''/zf''" by code_simp
  have h: "cfg_hosts (hedge_of ?E ?F [] ''/zf'') = [''A'', ''B'']" by code_simp
  have h0: "cfg_hosts (hedge_of_000 ?E ?F [] ''/zf'') = [''A'', ''B'']" by code_simp
  have ne: "cfg_hosts (hedge_of ?E ?F [] ''/zf'') \<noteq> []" by (simp add: h)
  have ne0: "cfg_hosts (hedge_of_000 ?E ?F [] ''/zf'') \<noteq> []" by (simp add: h0)
  have nt: "\<forall>i<length (cfg_hosts (hedge_of ?E ?F [] ''/zf'')). \<forall>k.
            \<not> terminal (mk_result (cfg_hosts (hedge_of ?E ?F [] ''/zf'') ! i)
                 (fst (singleHostRequest (env_world ?E) k False
                         (cfg_hosts (hedge_of ?E ?F [] ''/zf'') ! i) ''/zf'' ?F)))"
    by (simp add: h All_less_Suc numeral_2_eq_2 nodes_env_def singleHostRequest_def mk_result_def
          terminal_def)
  have nt0: "\<forall>i<length (cfg_hosts (hedge_of_000 ?E ?F [] ''/zf'')). \<forall>rc.
            answered (hedge_of_000 ?E ?F [] ''/zf'') i rc \<longrightarrow> Code rc \<notin> {200, 412, 416}"
    by (auto simp: h0 All_less_Suc numeral_2_eq_2 answered_def hedge_of_000_simps nodes_env_def)
  have ret: "fst (FetchHandleOfPost ?E ?F [] ''/zf'' ?S) \<noteq> None" by code_simp
  have ret0: "fst (FetchHandleOfPost_000 ?E ?F [] ''/zf'' ?T) \<noteq> None" by code_simp
  have rcv: "received (snd (FetchHandleOfPost ?E ?F [] ''/zf'' ?S)) = [?a, ?b]" by code_simp
  have rcv0: "received (snd (FetchHandleOfPost_000 ?E ?F [] ''/zf'' ?T)) = [?a, ?b]" by code_simp
  from ret obtain out where o: "fst (FetchHandleOfPost ?E ?F [] ''/zf'' ?S) = Some out" by blast
  from ret0 obtain out0 where o0: "fst (FetchHandleOfPost_000 ?E ?F [] ''/zf'' ?T) = Some out0" by blast
  from hedge_exhausted_returns_ServerError [where env = ?E and form = ?F and host = "[]"
      and api = "''/zf''" and sched = ?S and out = out, THEN conjunct1, THEN mp,
      OF conjI [OF zf conjI [OF ne nt]], THEN conjunct1, THEN mp, OF o] o rcv
  have one: "fst (FetchHandleOfPost ?E ?F [] ''/zf'' ?S) = Some (None, Some ServerError)"
    "loop_events (snd (FetchHandleOfPost ?E ?F [] ''/zf'' ?S)) = [CBFail ''A'' [], CBFail ''B'' [], Cancel]"
    by (simp_all add: ty)
  from hedge_exhausted_returns_ServerError [where env = ?E and form = ?F and host = "[]"
      and api = "''/zf''" and sched = "[Step 0, Step 1, Discard 0]", THEN conjunct1, THEN mp,
      OF conjI [OF zf conjI [OF ne nt]], THEN conjunct2]
  have live: "\<exists>later. fst (FetchHandleOfPost ?E ?F [] ''/zf'' ([Step 0, Step 1, Discard 0] @ later))
      = Some (None, Some ServerError)" .
  from hedge_exhausted_returns_ServerError [where env = ?E and form = ?F and host = "[]"
      and api = "''/zf''" and sched = ?T and out = out0,
      THEN conjunct2, THEN conjunct2, THEN conjunct2, THEN conjunct2, THEN conjunct1, THEN mp,
      OF conjI [OF zf conjI [OF ne0 nt0]], THEN conjunct1, THEN mp, OF o0] o0 rcv0
  have two: "fst (FetchHandleOfPost_000 ?E ?F [] ''/zf'' ?T) = Some (None, Some ServerError)"
    "loop_events (snd (FetchHandleOfPost_000 ?E ?F [] ''/zf'' ?T)) = [CBFail ''A'' [], CBFail ''B'' [], Cancel]"
    by (simp_all add: ty)
  from zf h one live two show ?thesis by simp
qed

text \<open>
  C5 as stated fails. In \<^verbatim>\<open>part_001\<close> an invocation that finds its context cancelled
  makes no outbound call at all; in \<^verbatim>\<open>part_000\<close> a node that keeps answering 413 is
  called five times.
\<close>

theorem singleHostRequest_calls_counterexample:
  "count_posts (snd (singleHostRequest
       \<lparr>PostForm = (\<lambda>k url f. Some []), Unmarshal = (\<lambda>res rc. Some (rc\<lparr>Code := 413, Data := None :: nat option\<rparr>))\<rparr>
       0 True ''h'' ''/login'' (\<lambda>k. None))) = 0
   \<and> count_posts (snd (singleHostRequest_000
       \<lparr>PostForm = (\<lambda>k url f. Some []), Unmarshal = (\<lambda>res rc. Some (rc\<lparr>Code := 413, Data := None :: nat option\<rparr>))\<rparr>
       0 (\<lambda>i. False) ''h'' ''/login'' (\<lambda>k. None))) = 5"
  by code_simp

text \<open>
  C5, as the code of \<^verbatim>\<open>part_001\<close> has it. \<^verbatim>\<open>singleHostRequest\<close> does not retry: an
  invocation makes no outbound call when it finds the cancellation signal fired, and
  exactly one otherwise, whatever the answer. Every non-hedged dispatch makes exactly
  one outbound call, whatever the response code (413 included). (In \<^verbatim>\<open>part_000\<close> an
  invocation makes at most five.)
\<close>

theorem singleHostRequest_no_retry:
  "count_posts (snd (singleHostRequest w k d host api form)) = (if d then 0 else 1)
   \<and> (\<not> sublist ''zf'' api' \<longrightarrow>
        count_posts (snd (FetchHandleOfPost env form' host' api' sched)) = 1)
   \<and> count_posts (snd (singleHostRequest_000 w k closed host api form)) \<le> 5"
proof -
  have a: "count_posts (snd (singleHostRequest w k d host api form)) = (if d then 0 else 1)"
    by (rule singleHostRequest_events(3))
  have b: "\<not> sublist ''zf'' api' \<longrightarrow>
        count_posts (snd (FetchHandleOfPost env form' host' api' sched)) = 1"
  proof
    assume s: "\<not> sublist ''zf'' api'"
    obtain rc err tr where sh: "singleHostRequest (env_world env) 0 False host' api' form' = ((rc, err), tr)"
      by (metis prod.exhaust)
    from singleHostRequest_events(3) [of "env_world env" 0 False host' api' form'] sh
    have "count_posts tr = 1" by simp
    with sh show "count_posts (snd (FetchHandleOfPost env form' host' api' sched)) = 1"
      by (simp add: FetchHandleOfPost_single [OF s])
  qed
  have c: "count_posts (snd (singleHostRequest_000 w k closed host api form)) \<le> 5"
    by (rule singleHostRequest_000_calls)
  show ?thesis using a b c by blast
qed

text \<open>The theorem at a node that answers 413 on a non-hedged endpoint.\<close>

theorem singleHostRequest_no_retry_witness:
  "\<not> sublist ''zf'' ''/login''
   \<and> count_posts (snd (FetchHandleOfPost
        \<lparr>env_world = \<lparr>PostForm = (\<lambda>k url f. Some []),
                       Unmarshal = (\<lambda>res rc. Some (rc\<lparr>Code := 413, Data := None :: nat option\<rparr>))\<rparr>,
         env_store = [], env_LB = \<lparr>zfLB = None, oauthLB = None\<rparr>, env_oauth = ''oauth''\<rparr>
        (\<lambda>k. None) ''h'' ''/login'' [])) = 1"
proof -
  have s: "\<not> sublist ''zf'' ''/login''" by code_simp
  from singleHostRequest_no_retry [THEN conjunct2, THEN conjunct1, of "''/login''"] s
  show ?thesis by blast
qed





end
